(* ===== verification/Prelude.thy ===== *)
theory Prelude
  imports Main "HOL-Library.Word"
begin

text \<open>
  Shared vocabulary of the development: the fixed-width types of the C++ sources, the
  signed 64-bit range, and the facts on words, masks and lists that several components
  use. \<^verbatim>\<open>std::size_t\<close> is 64 bits wide, as on the x86-64 target the build assumes.
\<close>

unbundle bit_operations_syntax

named_theorems word_nat \<open>moving word arithmetic to natural numbers\<close>

type_synonym u8 = "8 word"
type_synonym u16 = "16 word"
type_synonym u32 = "32 word"
type_synonym u64 = "64 word"

subsection \<open>Signed 64-bit integers\<close>

definition INT64_MAX :: int where
  "INT64_MAX = 2 ^ 63 - 1"

definition INT64_MIN :: int where
  "INT64_MIN = - (2 ^ 63)"

definition i64_ok :: "int \<Rightarrow> bool" where
  "i64_ok x \<longleftrightarrow> INT64_MIN \<le> x \<and> x \<le> INT64_MAX"

subsection \<open>Words as naturals\<close>

lemma unat_plus_word [word_nat]:
  fixes x y :: "'a::len word"
  shows "unat (x + y) = (unat x + unat y) mod 2 ^ LENGTH('a)"
  by (simp add: unat_word_ariths)

lemma unat_minus_word [word_nat]:
  fixes x y :: "'a::len word"
  assumes "y \<le> x"
  shows "unat (x - y) = unat x - unat y"
  using assms by (simp add: unat_sub word_le_nat_alt)

lemma unat_mod_pow2:
  fixes x :: "'a::len word"
  assumes "k < LENGTH('a)"
  shows "unat (x AND (2 ^ k - 1)) = unat x mod 2 ^ k"
proof -
  have "x AND (2 ^ k - 1) = take_bit k x"
    by (simp add: take_bit_eq_mask mask_eq_exp_minus_1)
  then have "unat (x AND (2 ^ k - 1)) = take_bit k (unat x)"
    by (simp only: unsigned_take_bit_eq)
  then show ?thesis by (simp only: take_bit_eq_mod)
qed

lemma unat_lt_size [simp]: "unat (x :: 'a::len word) < 2 ^ LENGTH('a)"
  by (rule unsigned_less)

lemma unat_lt_u8 [simp]: "unat (x :: u8) < 256"
  using unat_lt_size [of x] by simp

lemma unat_lt_u32 [simp]: "unat (x :: u32) < 4294967296"
  using unat_lt_size [of x] by simp

lemma unat_lt_u64 [simp]: "unat (x :: u64) < 18446744073709551616"
  using unat_lt_size [of x] by simp

lemma unat_Suc_word [word_nat]:
  fixes x :: "'a::len word"
  assumes "x < c"
  shows "unat (x + 1) = Suc (unat x)"
proof -
  have "unat x < unat c" using assms by (simp add: word_less_nat_alt)
  with unat_lt_size [of c] have "unat x + 1 < 2 ^ LENGTH('a)" by linarith
  then show ?thesis by (simp add: unat_word_ariths)
qed

lemma unat_ucast_mod [word_nat]:
  "unat (ucast (w :: 'a::len word) :: 'b::len word) = unat w mod 2 ^ LENGTH('b)"
  by (simp only: unsigned_ucast_eq take_bit_eq_mod)

lemma unat_ucast_u32_u64 [simp]: "unat (ucast (q :: u32) :: u64) = unat q"
proof -
  have "unat q < 18446744073709551616" using unat_lt_u32 [of q] by linarith
  then show ?thesis by (simp add: unat_ucast_mod)
qed

lemma unat_power2 [word_nat]:
  assumes "k < LENGTH('a::len)"
  shows "unat (2 ^ k :: 'a word) = 2 ^ k"
proof -
  have "unat (2 ^ k :: 'a word) = unat (word_of_nat (2 ^ k) :: 'a word)" by simp
  also have "\<dots> = 2 ^ k mod 2 ^ LENGTH('a)" by (simp only: unat_of_nat)
  also have "\<dots> = 2 ^ k" using assms by simp
  finally show ?thesis .
qed

lemma bit_word_unat:
  fixes w :: "'a::len word"
  shows "bit w k \<longleftrightarrow> odd (unat w div 2 ^ k)"
proof -
  have "bit (unat w) k \<longleftrightarrow> bit w k"
    by (auto simp: bit_unsigned_iff dest: bit_imp_le_length)
  then show ?thesis by (simp add: bit_iff_odd)
qed

text \<open>
  The test \<open>c AND (c - 1) = 0\<close> of the sources picks out the powers of two: the top bit
  of \<open>c\<close> survives in \<open>c - 1\<close> unless it is the only one.
\<close>

lemma power_of_two_mask:
  fixes c :: "'a::len word"
  assumes "c \<noteq> 0" and "c AND (c - 1) = 0"
  shows "\<exists>k < LENGTH('a). c = 2 ^ k"
proof -
  let ?n = "unat c"
  from assms(1) have "0 < ?n" by (simp add: unat_gt_0)
  then obtain k where k: "2 ^ k \<le> ?n" "?n < 2 ^ Suc k"
    using ex_power_ivl1 [of 2 "unat c"] by auto
  have top: "m div 2 ^ k = 1" if "2 ^ k \<le> m" "m < 2 ^ Suc k" for m :: nat
    using that by (intro div_nat_eqI) auto
  have kl: "k < LENGTH('a)"
  proof (rule ccontr)
    assume "\<not> k < LENGTH('a)"
    then have "(2::nat) ^ LENGTH('a) \<le> 2 ^ k" by simp
    with k(1) have "2 ^ LENGTH('a) \<le> ?n" by linarith
    moreover have "?n < 2 ^ LENGTH('a)" by simp
    ultimately show False by linarith
  qed
  have "?n = 2 ^ k"
  proof (rule ccontr)
    assume "?n \<noteq> 2 ^ k"
    with k have lower: "2 ^ k \<le> unat (c - 1)" "unat (c - 1) < 2 ^ Suc k"
      using assms(1) by (simp_all add: unat_minus_one)
    have "bit c k" "bit (c - 1) k"
      using top [OF k] top [OF lower] by (simp_all add: bit_word_unat)
    then have "bit (c AND (c - 1)) k" by (simp add: bit_and_iff)
    with assms(2) show False by simp
  qed
  then have "c = 2 ^ k"
    by (metis of_nat_numeral of_nat_power of_nat_unat ucast_id)
  with kl show ?thesis by blast
qed

end
