(* ===== verification/Fifo_Interface.thy ===== *)
theory Fifo_Interface
  imports Prelude
begin

text \<open>
  The contract the queues of the engine offer to their clients: a queue state has a list
  of elements; a push either appends to it or is refused and changes nothing; a pop takes
  the oldest element or reports that there is none. \<open>bounded_fifo\<close> adds when a push is
  refused. The lemmas on sequences of operations are proved here once, from the contract.
\<close>

datatype 'a fifo_op = Push 'a | Pop

text \<open>Running a sequence of operations: the pushed values that were accepted, the values
  popped, and the last state.\<close>

fun run_fifo ::
  "('a \<Rightarrow> 'q \<Rightarrow> bool \<times> 'q) \<Rightarrow> ('q \<Rightarrow> 'a option \<times> 'q) \<Rightarrow> 'a fifo_op list \<Rightarrow> 'q \<Rightarrow>
   'a list \<times> 'a list \<times> 'q" where
  "run_fifo psh pp [] q = ([], [], q)"
| "run_fifo psh pp (Push x # ops) q =
     (let (ok, q1) = psh x q; (acc, out, q2) = run_fifo psh pp ops q1
      in ((if ok then x # acc else acc), out, q2))"
| "run_fifo psh pp (Pop # ops) q =
     (let (r, q1) = pp q; (acc, out, q2) = run_fifo psh pp ops q1
      in (acc, (case r of None \<Rightarrow> out | Some y \<Rightarrow> y # out), q2))"

text \<open>The loop that pushes a whole list, dropping what is refused.\<close>

fun push_all :: "('a \<Rightarrow> 'q \<Rightarrow> bool \<times> 'q) \<Rightarrow> 'a list \<Rightarrow> 'q \<Rightarrow> 'q" where
  "push_all psh [] q = q"
| "push_all psh (x # xs) q = push_all psh xs (snd (psh x q))"

locale fifo =
  fixes psh :: "'a \<Rightarrow> 'q \<Rightarrow> bool \<times> 'q"
    and pp :: "'q \<Rightarrow> 'a option \<times> 'q"
    and elems :: "'q \<Rightarrow> 'a list"
    and inv :: "'q \<Rightarrow> bool"
  assumes push_elems:
      "inv q \<Longrightarrow> elems (snd (psh x q)) = (if fst (psh x q) then elems q @ [x] else elems q)"
    and pop_result: "inv q \<Longrightarrow> fst (pp q) = (case elems q of [] \<Rightarrow> None | y # ys \<Rightarrow> Some y)"
    and pop_elems: "inv q \<Longrightarrow> elems (snd (pp q)) = tl (elems q)"
    and push_inv: "inv q \<Longrightarrow> inv (snd (psh x q))"
    and pop_inv: "inv q \<Longrightarrow> inv (snd (pp q))"
begin

lemma run_fifo_order:
  assumes "inv q" and "run_fifo psh pp ops q = (acc, out, q')"
  shows "inv q' \<and> elems q @ acc = out @ elems q'"
  using assms
proof (induction ops arbitrary: q acc out q')
  case Nil
  then show ?case by simp
next
  case (Cons op ops)
  show ?case
  proof (cases op)
    case (Push x)
    obtain acc1 where run: "run_fifo psh pp ops (snd (psh x q)) = (acc1, out, q')"
      and acc: "acc = (if fst (psh x q) then x # acc1 else acc1)"
      using Cons.prems(2) Push by (auto split: prod.splits)
    have "inv q' \<and> elems (snd (psh x q)) @ acc1 = out @ elems q'"
      using Cons.IH [OF push_inv [OF Cons.prems(1)] run] .
    then show ?thesis
      using push_elems [OF Cons.prems(1), of x] acc by (auto split: if_splits)
  next
    case Pop
    obtain out1 where run: "run_fifo psh pp ops (snd (pp q)) = (acc, out1, q')"
      and out: "out = (case fst (pp q) of None \<Rightarrow> out1 | Some y \<Rightarrow> y # out1)"
      using Cons.prems(2) Pop by (auto split: prod.splits)
    have "inv q' \<and> tl (elems q) @ acc = out1 @ elems q'"
      using Cons.IH [OF pop_inv [OF Cons.prems(1)] run] pop_elems [OF Cons.prems(1)] by simp
    then show ?thesis
      using out pop_result [OF Cons.prems(1)] by (cases "elems q") auto
  qed
qed

lemma push_all_inv: "inv q \<Longrightarrow> inv (push_all psh xs q)"
  by (induction xs arbitrary: q) (auto intro: push_inv)

end

locale bounded_fifo = fifo +
  fixes bound :: nat
  assumes push_accepts: "inv q \<Longrightarrow> fst (psh x q) \<longleftrightarrow> length (elems q) < bound"
    and push_refused: "inv q \<Longrightarrow> bound \<le> length (elems q) \<Longrightarrow> snd (psh x q) = q"
    and elems_bound: "inv q \<Longrightarrow> length (elems q) \<le> bound"
begin

lemma push_all_elems:
  assumes "inv q"
  shows "elems (push_all psh xs q) = elems q @ take (bound - length (elems q)) xs"
  using assms
proof (induction xs arbitrary: q)
  case Nil
  then show ?case by simp
next
  case (Cons x xs)
  have "elems (push_all psh (x # xs) q) =
      elems (snd (psh x q)) @ take (bound - length (elems (snd (psh x q)))) xs"
    using Cons.IH [OF push_inv [OF Cons.prems]] by simp
  then show ?case
    using push_elems [OF Cons.prems, of x] push_accepts [OF Cons.prems, of x]
    by (auto simp: take_Cons')
qed

lemma push_take: "inv q \<Longrightarrow> elems (snd (psh x q)) = take bound (elems q @ [x])"
  using push_elems [of q x] push_accepts [of q x] elems_bound [of q] by simp

lemma push_pop_single:
  assumes "inv q" and "elems q = []" and "0 < bound"
  shows "fst (pp (snd (psh x q))) = Some x \<and> elems (snd (pp (snd (psh x q)))) = []"
proof -
  have "elems (snd (psh x q)) = [x]"
    using push_elems [OF assms(1)] push_accepts [OF assms(1)] assms(2,3) by simp
  then show ?thesis
    using pop_result pop_elems push_inv [OF assms(1)] by simp
qed

end

end
