(* ===== verification/Spsc_Queue.thy ===== *)
theory Spsc_Queue
  imports Fifo_Interface
begin

text \<open>
  The ring buffer \<^verbatim>\<open>SpscQueue<T, Capacity>\<close> of \<^verbatim>\<open>1_orderbook/include/spsc_queue.hpp\<close>, run by one
  thread at a time (the order book uses it this way, as its free list). The template
  argument \<^verbatim>\<open>Capacity\<close> is an argument \<open>cap\<close> of every operation; \<^verbatim>\<open>data_\<close> is a function of
  the index, and the invariant keeps every index below the capacity. The elements of the
  array before the first push are indeterminate in C++, so the constructor takes them as
  an argument.
\<close>

record 'a spsc =
  q_head :: u64
  q_tail :: u64
  q_data :: "u64 \<Rightarrow> 'a"

definition spsc_capacity_ok :: "u64 \<Rightarrow> bool" where
  "spsc_capacity_ok cap \<longleftrightarrow> cap > 0 \<and> cap AND (cap - 1) = 0"

definition spsc_mask :: "u64 \<Rightarrow> u64" where
  "spsc_mask cap = cap - 1"

definition spsc_new :: "(u64 \<Rightarrow> 'a) \<Rightarrow> 'a spsc" where
  "spsc_new d = \<lparr>q_head = 0, q_tail = 0, q_data = d\<rparr>"

definition spsc_push :: "u64 \<Rightarrow> 'a \<Rightarrow> 'a spsc \<Rightarrow> bool \<times> 'a spsc" where
  "spsc_push cap item q =
     (let head = q_head q; nxt = (head + 1) AND spsc_mask cap
      in if nxt = q_tail q then (False, q)
         else (True, q\<lparr>q_data := (q_data q)(head := item), q_head := nxt\<rparr>))"

definition spsc_pop :: "u64 \<Rightarrow> 'a spsc \<Rightarrow> 'a option \<times> 'a spsc" where
  "spsc_pop cap q =
     (let tail = q_tail q
      in if tail = q_head q then (None, q)
         else (Some (q_data q tail), q\<lparr>q_tail := (tail + 1) AND spsc_mask cap\<rparr>))"

definition spsc_empty :: "'a spsc \<Rightarrow> bool" where
  "spsc_empty q \<longleftrightarrow> q_head q = q_tail q"

definition spsc_size :: "u64 \<Rightarrow> 'a spsc \<Rightarrow> u64" where
  "spsc_size cap q = (q_head q - q_tail q) AND spsc_mask cap"

subsection \<open>Invariant and contents\<close>

definition spsc_inv :: "u64 \<Rightarrow> 'a spsc \<Rightarrow> bool" where
  "spsc_inv cap q \<longleftrightarrow> spsc_capacity_ok cap \<and> q_head q < cap \<and> q_tail q < cap"

definition spsc_contents :: "u64 \<Rightarrow> 'a spsc \<Rightarrow> 'a list" where
  "spsc_contents cap q =
     map (\<lambda>i. q_data q ((q_tail q + of_nat i) AND spsc_mask cap)) [0..<unat (spsc_size cap q)]"

subsection \<open>Index arithmetic\<close>

lemma capacity_pow2:
  assumes "spsc_capacity_ok cap"
  obtains k where "k < 64" "cap = 2 ^ k" "unat cap = 2 ^ k"
proof -
  from assms have "cap \<noteq> 0" "cap AND (cap - 1) = 0"
    by (auto simp: spsc_capacity_ok_def word_gt_0)
  then obtain k where k: "k < LENGTH(64)" "cap = 2 ^ k"
    using power_of_two_mask by blast
  then have "unat cap = 2 ^ k" by (simp add: unat_power2)
  with k that show thesis by simp
qed

lemma unat_and_mask [word_nat]:
  assumes "spsc_capacity_ok cap"
  shows "unat (x AND spsc_mask cap) = unat x mod unat cap"
proof -
  obtain k where k: "k < 64" "cap = 2 ^ k" "unat cap = 2 ^ k"
    using capacity_pow2 [OF assms] .
  have "unat (x AND (2 ^ k - 1)) = unat x mod 2 ^ k"
    using k(1) by (intro unat_mod_pow2) simp
  with k show ?thesis by (simp add: spsc_mask_def)
qed

lemma unat_next_index [word_nat]:
  assumes "spsc_capacity_ok cap" and "x < cap"
  shows "unat ((x + 1) AND spsc_mask cap) = Suc (unat x) mod unat cap"
proof -
  have "unat (x + 1) = Suc (unat x)"
    using assms(2) by (rule unat_Suc_word)
  then show ?thesis using unat_and_mask [OF assms(1)] by simp
qed

lemma unat_ring_slot [word_nat]:
  assumes "spsc_capacity_ok cap" and "t < cap" and "i < unat cap"
  shows "unat ((t + of_nat i) AND spsc_mask cap) = (unat t + i) mod unat cap"
proof -
  obtain k where k: "k < 64" "cap = 2 ^ k" "unat cap = 2 ^ k"
    using capacity_pow2 [OF assms(1)] .
  have dvd: "unat cap dvd 2 ^ 64"
    using k by (metis le_imp_power_dvd less_imp_le_nat)
  have "unat (t + of_nat i) mod unat cap = (unat t + i) mod unat cap"
    using dvd by (simp add: unat_word_ariths unat_of_nat mod_mod_cancel mod_add_right_eq)
  then show ?thesis using unat_and_mask [OF assms(1)] by simp
qed

lemma unat_spsc_size:
  assumes "spsc_inv cap q"
  shows "unat (spsc_size cap q) =
    (if q_tail q \<le> q_head q then unat (q_head q) - unat (q_tail q)
     else unat cap + unat (q_head q) - unat (q_tail q))"
proof -
  let ?c = "unat cap" and ?h = "unat (q_head q)" and ?t = "unat (q_tail q)"
  have ok: "spsc_capacity_ok cap" and lt: "?h < ?c" "?t < ?c"
    using assms by (auto simp: spsc_inv_def word_less_nat_alt)
  obtain k where k: "k < 64" "unat cap = 2 ^ k"
    using capacity_pow2 [OF ok] by metis
  have size: "unat (spsc_size cap q) = unat (q_head q - q_tail q) mod ?c"
    using unat_and_mask [OF ok] by (simp add: spsc_size_def)
  show ?thesis
  proof (cases "q_tail q \<le> q_head q")
    case True
    then show ?thesis using size lt by (simp add: unat_minus_word)
  next
    case False
    have "unat (q_head q - q_tail q) = 2 ^ 64 + ?h - ?t"
      using False by (simp add: unat_sub_if_size word_size word_le_nat_alt)
    moreover have "(2::nat) ^ 64 = ?c * 2 ^ (64 - k)"
      using k by (simp flip: power_add)
    moreover have "?c \<le> ?c * 2 ^ (64 - k)" by simp
    ultimately have "unat (q_head q - q_tail q) = (?c + ?h - ?t) + ?c * (2 ^ (64 - k) - 1)"
      using lt by (simp add: algebra_simps)
    then have "unat (q_head q - q_tail q) mod ?c = (?c + ?h - ?t) mod ?c" by simp
    also have "\<dots> = ?c + ?h - ?t"
      using False lt by (intro mod_less) (simp add: word_le_nat_alt)
    finally show ?thesis using False size by simp
  qed
qed

lemma mod_add_wrap:
  fixes t i c :: nat
  assumes "t < c" and "i < c"
  shows "(t + i) mod c = (if t + i < c then t + i else t + i - c)"
  using assms by (auto simp: mod_if)

lemma spsc_invD:
  assumes "spsc_inv cap q"
  shows "spsc_capacity_ok cap" "q_head q < cap" "q_tail q < cap"
    "unat (q_head q) < unat cap" "unat (q_tail q) < unat cap"
  using assms by (auto simp: spsc_inv_def word_less_nat_alt)

lemma spsc_size_bound: "spsc_inv cap q \<Longrightarrow> unat (spsc_size cap q) \<le> unat cap - 1"
  using unat_spsc_size [of cap q] spsc_invD(4,5) [of cap q]
  by (simp add: word_le_nat_alt split: if_split) linarith

lemma length_spsc_contents [simp]: "length (spsc_contents cap q) = unat (spsc_size cap q)"
  by (simp add: spsc_contents_def)

lemma unat_next_head:
  assumes "spsc_inv cap q"
  shows "unat ((q_head q + 1) AND spsc_mask cap) =
    (if Suc (unat (q_head q)) = unat cap then 0 else Suc (unat (q_head q)))"
  using unat_next_index [of cap "q_head q"] spsc_invD [OF assms] by (auto simp: mod_Suc)

lemma unat_next_tail:
  assumes "spsc_inv cap q"
  shows "unat ((q_tail q + 1) AND spsc_mask cap) =
    (if Suc (unat (q_tail q)) = unat cap then 0 else Suc (unat (q_tail q)))"
  using unat_next_index [of cap "q_tail q"] spsc_invD [OF assms] by (auto simp: mod_Suc)

lemma spsc_full_iff:
  assumes "spsc_inv cap q"
  shows "(q_head q + 1) AND spsc_mask cap = q_tail q \<longleftrightarrow> unat (spsc_size cap q) = unat cap - 1"
proof -
  have "(q_head q + 1) AND spsc_mask cap = q_tail q \<longleftrightarrow>
      unat ((q_head q + 1) AND spsc_mask cap) = unat (q_tail q)"
    by (simp only: word_unat_eq_iff)
  then show ?thesis
    unfolding unat_next_head [OF assms] unat_spsc_size [OF assms] word_le_nat_alt
    using spsc_invD(4,5) [OF assms] by (simp split: if_split) linarith
qed

lemma spsc_size_0_iff:
  assumes "spsc_inv cap q"
  shows "unat (spsc_size cap q) = 0 \<longleftrightarrow> q_head q = q_tail q"
  unfolding unat_spsc_size [OF assms] word_unat_eq_iff [of "q_head q"] word_le_nat_alt
  using spsc_invD(4,5) [OF assms] by (simp split: if_split)

lemma spsc_push_cases:
  assumes "spsc_inv cap q"
  obtains (full) "spsc_push cap x q = (False, q)" "unat (spsc_size cap q) = unat cap - 1"
  | (stored) q' where "spsc_push cap x q = (True, q')"
      "unat (spsc_size cap q) < unat cap - 1"
      "q' = q\<lparr>q_data := (q_data q)(q_head q := x), q_head := (q_head q + 1) AND spsc_mask cap\<rparr>"
proof (cases "(q_head q + 1) AND spsc_mask cap = q_tail q")
  case True
  then show thesis
    using full spsc_full_iff [OF assms] by (simp add: spsc_push_def Let_def)
next
  case False
  with spsc_full_iff [OF assms] spsc_size_bound [OF assms]
  have "unat (spsc_size cap q) < unat cap - 1" by auto
  with False show thesis
    by (intro stored) (simp_all add: spsc_push_def Let_def)
qed

lemma spsc_push_inv:
  assumes "spsc_inv cap q"
  shows "spsc_inv cap (snd (spsc_push cap x q))"
  using assms
proof (cases rule: spsc_push_cases [where x = x])
  case full
  then show ?thesis using assms by simp
next
  case (stored q')
  then show ?thesis
    using unat_next_head [OF assms] spsc_invD [OF assms]
    by (simp add: spsc_inv_def word_less_nat_alt split: if_split)
qed

lemma spsc_pop_inv:
  assumes "spsc_inv cap q"
  shows "spsc_inv cap (snd (spsc_pop cap q))"
  using assms unat_next_tail [OF assms] spsc_invD [OF assms]
  by (simp add: spsc_inv_def spsc_pop_def Let_def word_less_nat_alt split: if_split)

text \<open>The \<open>i\<close>-th element sits \<open>i\<close> slots after the tail; the head slot holds none of them.\<close>

lemma unat_nth_slot:
  assumes "spsc_inv cap q" and "i \<le> unat (spsc_size cap q)"
  shows "unat ((q_tail q + of_nat i) AND spsc_mask cap) =
    (if unat (q_tail q) + i < unat cap then unat (q_tail q) + i
     else unat (q_tail q) + i - unat cap)"
proof -
  have i: "i < unat cap"
    using assms(2) spsc_size_bound [OF assms(1)] spsc_invD(5) [OF assms(1)] by linarith
  show ?thesis
    using unat_ring_slot [OF spsc_invD(1,3) [OF assms(1)] i]
      mod_add_wrap [OF spsc_invD(5) [OF assms(1)] i] by simp
qed

lemma nth_slot_eq_head_iff:
  assumes "spsc_inv cap q" and "i \<le> unat (spsc_size cap q)"
  shows "(q_tail q + of_nat i) AND spsc_mask cap = q_head q \<longleftrightarrow> i = unat (spsc_size cap q)"
proof -
  have "(q_tail q + of_nat i) AND spsc_mask cap = q_head q \<longleftrightarrow>
      unat ((q_tail q + of_nat i) AND spsc_mask cap) = unat (q_head q)"
    by (simp only: word_unat_eq_iff)
  then show ?thesis
    using assms(2) spsc_invD(4,5) [OF assms(1)]
    unfolding unat_nth_slot [OF assms] unat_spsc_size [OF assms(1)] word_le_nat_alt
    by (simp split: if_splits) linarith+
qed

lemma spsc_push_size:
  assumes "spsc_inv cap q" and "spsc_push cap x q = (True, q')"
  shows "unat (spsc_size cap q') = Suc (unat (spsc_size cap q))"
proof -
  have inv': "spsc_inv cap q'"
    using spsc_push_inv [OF assms(1), of x] assms(2) by simp
  have q': "q_tail q' = q_tail q" "q_head q' = (q_head q + 1) AND spsc_mask cap"
    and room: "(q_head q + 1) AND spsc_mask cap \<noteq> q_tail q"
    using assms(2) by (auto simp: spsc_push_def Let_def split: if_splits)
  from room have "unat ((q_head q + 1) AND spsc_mask cap) \<noteq> unat (q_tail q)"
    by (simp only: word_unat_eq_iff not_False_eq_True)
  then show ?thesis
    using spsc_invD(4,5) [OF assms(1)]
    unfolding unat_spsc_size [OF inv'] unat_spsc_size [OF assms(1)] q' word_le_nat_alt
      unat_next_head [OF assms(1)]
    by (simp split: if_splits) linarith
qed

lemma spsc_push_contents:
  assumes "spsc_inv cap q" and "spsc_push cap x q = (True, q')"
  shows "spsc_contents cap q' = spsc_contents cap q @ [x]"
proof -
  let ?n = "unat (spsc_size cap q)"
  let ?slot = "\<lambda>i. (q_tail q + of_nat i) AND spsc_mask cap"
  have q': "q_tail q' = q_tail q" "q_data q' = (q_data q)(q_head q := x)"
    using assms(2) by (auto simp: spsc_push_def Let_def split: if_splits)
  have "spsc_contents cap q' = map (\<lambda>i. q_data q' (?slot i)) [0..<Suc ?n]"
    using spsc_push_size [OF assms] by (simp only: spsc_contents_def q')
  also have "\<dots> = map (\<lambda>i. q_data q' (?slot i)) [0..<?n] @ [x]"
    using nth_slot_eq_head_iff [OF assms(1), of ?n] by (simp add: q')
  also have "map (\<lambda>i. q_data q' (?slot i)) [0..<?n] = spsc_contents cap q"
    using nth_slot_eq_head_iff [OF assms(1)] by (simp add: spsc_contents_def q')
  finally show ?thesis .
qed

lemma spsc_pop_size:
  assumes "spsc_inv cap q" and "q_tail q \<noteq> q_head q"
  shows "Suc (unat (spsc_size cap (snd (spsc_pop cap q)))) = unat (spsc_size cap q)"
proof -
  let ?q' = "snd (spsc_pop cap q)"
  have inv': "spsc_inv cap ?q'" by (rule spsc_pop_inv [OF assms(1)])
  have q': "q_head ?q' = q_head q" "q_tail ?q' = (q_tail q + 1) AND spsc_mask cap"
    using assms(2) by (simp_all add: spsc_pop_def Let_def)
  have "unat (q_tail q) \<noteq> unat (q_head q)"
    using assms(2) by (simp only: word_unat_eq_iff not_False_eq_True)
  then show ?thesis
    using spsc_invD(4,5) [OF assms(1)]
    unfolding unat_spsc_size [OF inv'] unat_spsc_size [OF assms(1)] q' word_le_nat_alt
      unat_next_tail [OF assms(1)]
    by (simp split: if_splits) linarith
qed

lemma ring_slot_shift:
  assumes "spsc_capacity_ok cap" and "t < cap" and "Suc i < unat cap"
  shows "((t + 1) AND spsc_mask cap) + of_nat i AND spsc_mask cap =
    (t + of_nat (Suc i)) AND spsc_mask cap"
proof -
  have t': "(t + 1) AND spsc_mask cap < cap"
    using unat_next_index [OF assms(1,2)] assms(3) by (simp add: word_less_nat_alt)
  have "unat (((t + 1) AND spsc_mask cap) + of_nat i AND spsc_mask cap) =
      (Suc (unat t) mod unat cap + i) mod unat cap"
    using unat_ring_slot [OF assms(1) t', of i] unat_next_index [OF assms(1,2)] assms(3) by simp
  also have "\<dots> = (unat t + Suc i) mod unat cap"
    by (simp add: mod_add_left_eq)
  also have "\<dots> = unat ((t + of_nat (Suc i)) AND spsc_mask cap)"
    using unat_ring_slot [OF assms] by simp
  finally show ?thesis by (simp only: word_unat_eq_iff)
qed

lemma spsc_pop_contents:
  assumes "spsc_inv cap q" and "q_tail q \<noteq> q_head q"
  shows "spsc_contents cap q = q_data q (q_tail q) # spsc_contents cap (snd (spsc_pop cap q))"
proof -
  let ?q' = "snd (spsc_pop cap q)"
  let ?n = "unat (spsc_size cap ?q')"
  have size: "unat (spsc_size cap q) = Suc ?n"
    using spsc_pop_size [OF assms] by simp
  have q': "q_tail ?q' = (q_tail q + 1) AND spsc_mask cap" "q_data ?q' = q_data q"
    using assms(2) by (simp_all add: spsc_pop_def Let_def)
  have bound: "Suc i < unat cap" if "i < ?n" for i
    using that size spsc_size_bound [OF assms(1)] by simp
  have first: "q_tail q AND spsc_mask cap = q_tail q"
    using unat_and_mask [OF spsc_invD(1) [OF assms(1)], of "q_tail q"] spsc_invD(5) [OF assms(1)]
    by (simp add: word_unat_eq_iff)
  have "spsc_contents cap q =
      map (\<lambda>i. q_data q ((q_tail q + of_nat i) AND spsc_mask cap)) (0 # map Suc [0..<?n])"
    by (simp only: spsc_contents_def size upt_rec [of 0 "Suc _"] map_Suc_upt) simp
  also have "\<dots> = q_data q (q_tail q) #
      map (\<lambda>i. q_data q ((q_tail q + of_nat (Suc i)) AND spsc_mask cap)) [0..<?n]"
    using first by (simp add: comp_def del: of_nat_Suc)
  also have "\<dots> = q_data q (q_tail q) # spsc_contents cap ?q'"
    using ring_slot_shift [OF spsc_invD(1,3) [OF assms(1)]] bound
    by (simp add: spsc_contents_def q' del: of_nat_Suc)
  finally show ?thesis .
qed

subsection \<open>The ring buffer is a bounded queue\<close>

interpretation spsc: bounded_fifo "spsc_push cap" "spsc_pop cap" "spsc_contents cap"
  "spsc_inv cap" "unat cap - 1" for cap
proof (unfold_locales, goal_cases)
  case (1 q x)
  from 1 show ?case
    by (cases rule: spsc_push_cases [where x = x]) (use spsc_push_contents [OF 1] in auto)
next
  case (2 q)
  then show ?case
    using spsc_pop_contents [of cap q] spsc_size_0_iff [of cap q]
    by (cases "q_tail q = q_head q") (auto simp: spsc_pop_def Let_def spsc_contents_def)
next
  case (3 q)
  then show ?case
    using spsc_pop_contents [of cap q] spsc_size_0_iff [of cap q]
    by (cases "q_tail q = q_head q") (auto simp: spsc_pop_def Let_def spsc_contents_def)
next
  case (4 q x)
  then show ?case by (rule spsc_push_inv)
next
  case (5 q)
  then show ?case by (rule spsc_pop_inv)
next
  case (6 q x)
  from 6 show ?case by (cases rule: spsc_push_cases [where x = x]) auto
next
  case (7 q x)
  from 7(1) show ?case by (cases rule: spsc_push_cases [where x = x]) (use 7 in auto)
next
  case (8 q)
  then show ?case using spsc_size_bound by simp
qed

lemma spsc_new_inv: "spsc_capacity_ok cap \<Longrightarrow> spsc_inv cap (spsc_new d)"
  by (simp add: spsc_inv_def spsc_new_def spsc_capacity_ok_def)

lemma spsc_new_contents [simp]: "spsc_contents cap (spsc_new d) = []"
  by (simp add: spsc_contents_def spsc_size_def spsc_new_def)

subsection \<open>Properties\<close>

text \<open>
  C20. First in, first out, for every interleaving of pushes and pops on a fresh queue of a
  legal capacity: the accepted values are the popped ones, in order, followed by what the
  queue still holds; \<^verbatim>\<open>size()\<close> is the number accepted minus the number popped, \<^verbatim>\<open>empty()\<close> is
  that number being zero, and both indices stay inside the array.
\<close>

theorem spsc_fifo_order:
  assumes "spsc_capacity_ok cap"
  shows "let (acc, out, q) = run_fifo (spsc_push cap) (spsc_pop cap) ops (spsc_new d) in
    acc = out @ spsc_contents cap q \<and> unat (spsc_size cap q) = length acc - length out \<and>
    (spsc_empty q \<longleftrightarrow> acc = out) \<and> q_head q < cap \<and> q_tail q < cap"
proof -
  obtain acc out q where
    run: "run_fifo (spsc_push cap) (spsc_pop cap) ops (spsc_new d) = (acc, out, q)"
    by (metis prod_cases3)
  have "spsc_inv cap q \<and> spsc_contents cap (spsc_new d) @ acc = out @ spsc_contents cap q"
    using spsc_new_inv [OF assms] run by (rule spsc.run_fifo_order)
  then have inv: "spsc_inv cap q" and acc: "acc = out @ spsc_contents cap q" by simp_all
  have "unat (spsc_size cap q) = length acc - length out"
    by (simp add: acc)
  moreover from this have "spsc_empty q \<longleftrightarrow> acc = out"
    using spsc_size_0_iff [OF inv] by (simp add: spsc_empty_def acc flip: length_0_conv)
  ultimately show ?thesis
    using acc spsc_invD(2,3) [OF inv] by (simp add: run)
qed

lemma spsc_fifo_order_witness:
  "spsc_capacity_ok 2 \<and>
   (let (acc, out, q) = run_fifo (spsc_push 2) (spsc_pop 2)
        [Push (7::nat), Push 8, Pop, Push 9, Pop, Pop] (spsc_new (\<lambda>_. 0)) in
    acc = out @ spsc_contents 2 q \<and> unat (spsc_size 2 q) = length acc - length out \<and>
    (spsc_empty q \<longleftrightarrow> acc = out) \<and> q_head q < 2 \<and> q_tail q < 2)"
proof -
  have ok: "spsc_capacity_ok 2" by (simp add: spsc_capacity_ok_def)
  show ?thesis using ok spsc_fifo_order [OF ok] by blast
qed

text \<open>
  A push is refused exactly when the queue holds one element less than its capacity; a
  refused push changes nothing, an accepted one appends its argument; the invariant is kept.
\<close>

lemma spsc_push_spec:
  assumes "spsc_inv cap q"
  shows "(fst (spsc_push cap x q) \<longleftrightarrow> length (spsc_contents cap q) < unat cap - 1) \<and>
    spsc_contents cap (snd (spsc_push cap x q)) =
      (if length (spsc_contents cap q) < unat cap - 1 then spsc_contents cap q @ [x]
       else spsc_contents cap q) \<and>
    (unat cap - 1 \<le> length (spsc_contents cap q) \<longrightarrow> snd (spsc_push cap x q) = q) \<and>
    spsc_inv cap (snd (spsc_push cap x q))"
  using spsc.push_accepts [OF assms] spsc.push_elems [OF assms] spsc.push_refused [OF assms]
    spsc_push_inv [OF assms] by simp

end
