(* ===== verification/Price_Ladder.thy ===== *)
theory Price_Ladder
  imports Prelude
begin

text \<open>
  \<^verbatim>\<open>PriceLevel\<close> and \<^verbatim>\<open>FlatPriceLadder\<close> of \<^verbatim>\<open>1_orderbook/include/price_level.hpp\<close>: a vector of price
  levels in ascending price order, searched with \<^verbatim>\<open>std::lower_bound\<close>. A pointer into the
  vector is an index. Each operation is also given as a linear scan of a sorted list, and
  the two are proved equal on sorted ladders; the contract of the ladder as a finite map
  from prices to levels is the locale \<open>price_ladder\<close>.
\<close>

record price_level =
  lvl_price_ticks :: int
  lvl_total_quantity :: u64
  lvl_order_count :: u32
  lvl_padding :: u32

type_synonym ladder = "price_level list"

subsection \<open>Binary search\<close>

text \<open>\<^verbatim>\<open>std::lower_bound\<close> with the comparison partially applied to the searched value.\<close>

fun lower_bound_loop :: "('a \<Rightarrow> bool) \<Rightarrow> 'a list \<Rightarrow> nat \<Rightarrow> nat \<Rightarrow> nat" where
  "lower_bound_loop lt xs first len =
     (if len > 0 then
        let half = len div 2; middle = first + half
        in if lt (xs ! middle) then lower_bound_loop lt xs (middle + 1) (len - half - 1)
           else lower_bound_loop lt xs first half
      else first)"

declare lower_bound_loop.simps [simp del]

definition lower_bound :: "('a \<Rightarrow> bool) \<Rightarrow> 'a list \<Rightarrow> nat" where
  "lower_bound lt xs = lower_bound_loop lt xs 0 (length xs)"

subsection \<open>The ladder\<close>

abbreviation level_below :: "int \<Rightarrow> price_level \<Rightarrow> bool" where
  "level_below p l \<equiv> lvl_price_ticks l < p"

definition ladder_find :: "int \<Rightarrow> ladder \<Rightarrow> nat option" where
  "ladder_find p levels =
     (let it = lower_bound (level_below p) levels
      in if it \<noteq> length levels \<and> lvl_price_ticks (levels ! it) = p then Some it else None)"

definition ladder_upsert :: "int \<Rightarrow> u32 \<Rightarrow> ladder \<Rightarrow> nat \<times> ladder" where
  "ladder_upsert p qty_delta levels =
     (let it = lower_bound (level_below p) levels
      in if it \<noteq> length levels \<and> lvl_price_ticks (levels ! it) = p then
           (it, levels[it := (levels ! it)
              \<lparr>lvl_total_quantity := lvl_total_quantity (levels ! it) + ucast qty_delta,
               lvl_order_count := lvl_order_count (levels ! it) + 1\<rparr>])
         else
           (it, take it levels @
                \<lparr>lvl_price_ticks = p, lvl_total_quantity = ucast qty_delta,
                 lvl_order_count = 1, lvl_padding = 0\<rparr> # drop it levels))"

definition remove_if_empty :: "int \<Rightarrow> ladder \<Rightarrow> ladder" where
  "remove_if_empty p levels =
     (let it = lower_bound (level_below p) levels
      in if it \<noteq> length levels \<and> lvl_price_ticks (levels ! it) = p \<and>
            lvl_total_quantity (levels ! it) = 0
         then take it levels @ drop (it + 1) levels
         else levels)"

definition ladder_best :: "ladder \<Rightarrow> price_level option" where
  "ladder_best levels = (if levels = [] then None else Some (last levels))"

definition ladder_worst :: "ladder \<Rightarrow> price_level option" where
  "ladder_worst levels = (if levels = [] then None else Some (hd levels))"

definition ladder_size :: "ladder \<Rightarrow> nat" where
  "ladder_size levels = length levels"

definition ladder_empty :: "ladder \<Rightarrow> bool" where
  "ladder_empty levels \<longleftrightarrow> levels = []"

definition ladder_inv :: "ladder \<Rightarrow> bool" where
  "ladder_inv levels \<longleftrightarrow> sorted_wrt (<) (map lvl_price_ticks levels)"

subsection \<open>Correctness of the search\<close>

lemma lower_bound_loop_split:
  assumes "\<forall>i < first. lt (xs ! i)"
    and "\<forall>i. first + len \<le> i \<longrightarrow> i < length xs \<longrightarrow> \<not> lt (xs ! i)"
    and "first + len \<le> length xs"
    and "\<And>i j. i \<le> j \<Longrightarrow> j < length xs \<Longrightarrow> lt (xs ! j) \<Longrightarrow> lt (xs ! i)"
  shows "lower_bound_loop lt xs first len \<le> length xs \<and>
    (\<forall>i < lower_bound_loop lt xs first len. lt (xs ! i)) \<and>
    (\<forall>i. lower_bound_loop lt xs first len \<le> i \<longrightarrow> i < length xs \<longrightarrow> \<not> lt (xs ! i))"
  using assms
proof (induction lt xs first len rule: lower_bound_loop.induct)
  case (1 lt xs first len)
  define middle where "middle = first + len div 2"
  note part = "1.prems"(4)
  show ?case
  proof (cases "len > 0")
    case False
    then have "lower_bound_loop lt xs first len = first"
      by (subst lower_bound_loop.simps) simp
    then show ?thesis using "1.prems" False by simp
  next
    case True
    then have mid: "middle < length xs" using "1.prems"(3) by (simp add: middle_def)
    show ?thesis
    proof (cases "lt (xs ! middle)")
      case lt: True
      have eq: "lower_bound_loop lt xs first len =
          lower_bound_loop lt xs (middle + 1) (len - len div 2 - 1)"
        using True lt by (subst lower_bound_loop.simps) (simp add: Let_def middle_def)
      have le: "middle + 1 + (len - len div 2 - 1) = first + len"
        using True by (simp add: middle_def)
      have low: "\<forall>i < middle + 1. lt (xs ! i)"
        using lt part [OF _ mid] by auto
      show ?thesis
        unfolding eq using True refl middle_def lt low
        by (rule "1.IH"(1)) (use "1.prems"(2,3) part le in simp_all)
    next
      case ge: False
      have eq: "lower_bound_loop lt xs first len = lower_bound_loop lt xs first (len div 2)"
        using True ge by (subst lower_bound_loop.simps) (simp add: Let_def middle_def)
      have high: "\<forall>i. first + len div 2 \<le> i \<longrightarrow> i < length xs \<longrightarrow> \<not> lt (xs ! i)"
        using ge part by (auto simp: middle_def)
      show ?thesis
        unfolding eq using True refl middle_def ge "1.prems"(1) high
        by (rule "1.IH"(2)) (use "1.prems"(3) part in simp_all)
    qed
  qed
qed

lemma lower_bound_takeWhile:
  assumes "\<And>i j. i \<le> j \<Longrightarrow> j < length xs \<Longrightarrow> lt (xs ! j) \<Longrightarrow> lt (xs ! i)"
  shows "lower_bound lt xs = length (takeWhile lt xs)"
proof -
  let ?r = "lower_bound lt xs"
  have r: "?r \<le> length xs" "\<forall>i < ?r. lt (xs ! i)"
    "\<forall>i. ?r \<le> i \<longrightarrow> i < length xs \<longrightarrow> \<not> lt (xs ! i)"
    using lower_bound_loop_split [of 0 lt xs "length xs"] assms by (auto simp: lower_bound_def)
  have "takeWhile lt xs = take ?r xs"
    using r by (intro takeWhile_eq_take_P_nth) auto
  then show ?thesis using r(1) by simp
qed

lemma ladder_inv_nth:
  assumes "ladder_inv ls" and "i < j" and "j < length ls"
  shows "lvl_price_ticks (ls ! i) < lvl_price_ticks (ls ! j)"
  using assms by (auto simp: ladder_inv_def sorted_wrt_iff_nth_less)

lemma lower_bound_ladder:
  assumes "ladder_inv ls"
  shows "lower_bound (level_below p) ls = length (takeWhile (level_below p) ls)"
proof (rule lower_bound_takeWhile)
  fix i j
  assume "i \<le> j" "j < length ls" "level_below p (ls ! j)"
  then show "level_below p (ls ! i)"
    using ladder_inv_nth [OF assms, of i j] by (cases "i = j") auto
qed

subsection \<open>Linear reference definitions\<close>

fun upsert_ref :: "int \<Rightarrow> u32 \<Rightarrow> ladder \<Rightarrow> ladder" where
  "upsert_ref p q [] =
     [\<lparr>lvl_price_ticks = p, lvl_total_quantity = ucast q, lvl_order_count = 1, lvl_padding = 0\<rparr>]"
| "upsert_ref p q (l # ls) =
     (if lvl_price_ticks l < p then l # upsert_ref p q ls
      else if lvl_price_ticks l = p then
        l\<lparr>lvl_total_quantity := lvl_total_quantity l + ucast q,
          lvl_order_count := lvl_order_count l + 1\<rparr> # ls
      else \<lparr>lvl_price_ticks = p, lvl_total_quantity = ucast q, lvl_order_count = 1,
             lvl_padding = 0\<rparr> # l # ls)"

definition remove_ref :: "int \<Rightarrow> ladder \<Rightarrow> ladder" where
  "remove_ref p ls = filter (\<lambda>l. \<not> (lvl_price_ticks l = p \<and> lvl_total_quantity l = 0)) ls"

definition level_at :: "ladder \<Rightarrow> int \<Rightarrow> price_level option" where
  "level_at ls p = find (\<lambda>l. lvl_price_ticks l = p) ls"

lemma ladder_inv_simps [simp]:
  "ladder_inv []"
  "ladder_inv (l # ls) \<longleftrightarrow> (\<forall>l' \<in> set ls. lvl_price_ticks l < lvl_price_ticks l') \<and> ladder_inv ls"
  by (simp_all add: ladder_inv_def)

lemma ladder_inv_append:
  "ladder_inv (xs @ ys) \<longleftrightarrow> ladder_inv xs \<and> ladder_inv ys \<and>
     (\<forall>x \<in> set xs. \<forall>y \<in> set ys. lvl_price_ticks x < lvl_price_ticks y)"
  by (auto simp: ladder_inv_def sorted_wrt_append)

text \<open>Splitting a sorted ladder at a price: what the binary search computes.\<close>

lemma ladder_split:
  assumes "ladder_inv ls"
  obtains xs ys where "ls = xs @ ys" "lower_bound (level_below p) ls = length xs"
    "\<forall>x \<in> set xs. lvl_price_ticks x < p" "\<forall>y \<in> set ys. p \<le> lvl_price_ticks y"
    "ladder_inv xs" "ladder_inv ys"
proof
  let ?xs = "takeWhile (level_below p) ls" and ?ys = "dropWhile (level_below p) ls"
  show split: "ls = ?xs @ ?ys" by simp
  show "lower_bound (level_below p) ls = length ?xs" by (rule lower_bound_ladder [OF assms])
  show "\<forall>x \<in> set ?xs. lvl_price_ticks x < p" by (auto dest: set_takeWhileD)
  have "ladder_inv (?xs @ ?ys)" using assms by simp
  then show "ladder_inv ?xs" and ys: "ladder_inv ?ys"
    unfolding ladder_inv_append by blast+
  have first: "\<forall>z \<in> set zs. p \<le> lvl_price_ticks z"
    if "ladder_inv zs" "zs = [] \<or> p \<le> lvl_price_ticks (hd zs)" for zs
    using that by (cases zs) (auto simp: less_imp_le intro: order.trans)
  have "?ys = [] \<or> p \<le> lvl_price_ticks (hd ?ys)"
    using hd_dropWhile [of "level_below p" ls] by (cases "?ys = []") (simp_all add: not_less)
  with ys show "\<forall>y \<in> set ?ys. p \<le> lvl_price_ticks y" by (rule first)
qed

lemma upsert_ref_skip:
  "\<forall>x \<in> set xs. lvl_price_ticks x < p \<Longrightarrow> upsert_ref p q (xs @ ys) = xs @ upsert_ref p q ys"
  by (induction xs) auto

lemma ladder_upsert_ref:
  assumes "ladder_inv ls"
  shows "snd (ladder_upsert p q ls) = upsert_ref p q ls"
proof -
  obtain xs ys where split: "ls = xs @ ys" "lower_bound (level_below p) ls = length xs"
    "\<forall>x \<in> set xs. lvl_price_ticks x < p" "\<forall>y \<in> set ys. p \<le> lvl_price_ticks y"
    using ladder_split [OF assms] .
  have "snd (ladder_upsert p q ls) = xs @ upsert_ref p q ys"
    using split(2,4) unfolding split(1) by (cases ys) (auto simp: ladder_upsert_def Let_def)
  then show ?thesis using upsert_ref_skip [OF split(3)] split(1) by simp
qed

lemma remove_if_empty_ref:
  assumes "ladder_inv ls"
  shows "remove_if_empty p ls = remove_ref p ls"
proof -
  obtain xs ys where split: "ls = xs @ ys" "lower_bound (level_below p) ls = length xs"
    "\<forall>x \<in> set xs. lvl_price_ticks x < p" "\<forall>y \<in> set ys. p \<le> lvl_price_ticks y"
    "ladder_inv ys"
    using ladder_split [OF assms] .
  have xs: "remove_ref p xs = xs"
    using split(3) by (auto simp: remove_ref_def filter_id_conv)
  have rest: "remove_ref p zs = zs" if "\<forall>z \<in> set zs. p < lvl_price_ticks z" for zs
    using that by (auto simp: remove_ref_def filter_id_conv)
  show ?thesis
  proof (cases ys)
    case Nil
    then show ?thesis using split(1,2) xs by (simp add: remove_if_empty_def Let_def)
  next
    case (Cons y zs)
    then have "\<forall>z \<in> set zs. p < lvl_price_ticks z" using split(4,5) by force
    then have zs: "remove_ref p zs = zs" by (rule rest)
    have "remove_ref p ls = xs @ (if lvl_price_ticks y = p \<and> lvl_total_quantity y = 0
        then zs else y # zs)"
      using xs zs by (simp add: split(1) Cons remove_ref_def)
    moreover have "remove_if_empty p ls = xs @ (if lvl_price_ticks y = p \<and>
        lvl_total_quantity y = 0 then zs else y # zs)"
      using split(2) by (simp add: split(1) Cons remove_if_empty_def Let_def)
    ultimately show ?thesis by simp
  qed
qed

lemma ladder_find_level:
  assumes "ladder_inv ls"
  shows "map_option (\<lambda>i. ls ! i) (ladder_find p ls) = level_at ls p"
proof -
  obtain xs ys where split: "ls = xs @ ys" "lower_bound (level_below p) ls = length xs"
    "\<forall>x \<in> set xs. lvl_price_ticks x < p" "\<forall>y \<in> set ys. p \<le> lvl_price_ticks y"
    "ladder_inv ys"
    using ladder_split [OF assms] .
  have xs: "find (\<lambda>l. lvl_price_ticks l = p) xs = None"
    using split(3) by (auto simp: find_None_iff)
  have skip: "find P (xs @ ys) = find P ys" if "find P xs = None" for P :: "price_level \<Rightarrow> bool"
    using that by (induction xs) (auto split: if_splits)
  have ys: "find (\<lambda>l. lvl_price_ticks l = p) ys =
      (if ys \<noteq> [] \<and> lvl_price_ticks (hd ys) = p then Some (hd ys) else None)"
  proof (cases ys)
    case (Cons y zs)
    have "find (\<lambda>l. lvl_price_ticks l = p) zs = None" if "lvl_price_ticks y \<noteq> p"
      using that split(4,5) by (force simp: Cons find_None_iff)
    then show ?thesis by (simp add: Cons)
  qed simp
  have "level_at ls p = find (\<lambda>l. lvl_price_ticks l = p) ys"
    unfolding level_at_def split(1) by (rule skip [OF xs])
  moreover have "map_option (\<lambda>i. ls ! i) (ladder_find p ls) =
      (if ys \<noteq> [] \<and> lvl_price_ticks (hd ys) = p then Some (hd ys) else None)"
    using split(2) unfolding split(1) by (cases ys) (simp_all add: ladder_find_def Let_def)
  ultimately show ?thesis using ys by simp
qed

subsection \<open>The contract: a finite map from prices to levels\<close>

definition add_to_level :: "int \<Rightarrow> u32 \<Rightarrow> price_level option \<Rightarrow> price_level" where
  "add_to_level p q old = (case old of
     None \<Rightarrow> \<lparr>lvl_price_ticks = p, lvl_total_quantity = ucast q, lvl_order_count = 1,
              lvl_padding = 0\<rparr>
   | Some l \<Rightarrow> l\<lparr>lvl_total_quantity := lvl_total_quantity l + ucast q,
                 lvl_order_count := lvl_order_count l + 1\<rparr>)"

locale price_ladder =
  fixes none :: 'l
    and ups :: "int \<Rightarrow> u32 \<Rightarrow> 'l \<Rightarrow> 'l"
    and rem :: "int \<Rightarrow> 'l \<Rightarrow> 'l"
    and hi :: "'l \<Rightarrow> price_level option"
    and lo :: "'l \<Rightarrow> price_level option"
    and look :: "'l \<Rightarrow> int \<Rightarrow> price_level option"
    and inv :: "'l \<Rightarrow> bool"
  assumes look_none: "look none p = None"
    and look_keyed: "look l p = Some v \<Longrightarrow> lvl_price_ticks v = p"
    and look_ups: "inv l \<Longrightarrow> look (ups p q l) = (look l)(p \<mapsto> add_to_level p q (look l p))"
    and look_rem: "inv l \<Longrightarrow> look (rem p l) =
      (if \<exists>v. look l p = Some v \<and> lvl_total_quantity v = 0 then (look l)(p := None) else look l)"
    and hi_Some: "inv l \<Longrightarrow> hi l = Some v \<longleftrightarrow> look l (lvl_price_ticks v) = Some v \<and>
      (\<forall>p \<in> dom (look l). p \<le> lvl_price_ticks v)"
    and lo_Some: "inv l \<Longrightarrow> lo l = Some v \<longleftrightarrow> look l (lvl_price_ticks v) = Some v \<and>
      (\<forall>p \<in> dom (look l). lvl_price_ticks v \<le> p)"
    and hi_None: "hi l = None \<longleftrightarrow> dom (look l) = {}"
    and lo_None: "lo l = None \<longleftrightarrow> dom (look l) = {}"
    and inv_none: "inv none"
    and inv_ups: "inv l \<Longrightarrow> inv (ups p q l)"
    and inv_rem: "inv l \<Longrightarrow> inv (rem p l)"
begin

lemma prices_ups: "inv l \<Longrightarrow> dom (look (ups p q l)) = insert p (dom (look l))"
  by (simp add: look_ups)

lemma prices_rem: "inv l \<Longrightarrow> dom (look (rem p l)) \<subseteq> dom (look l)"
  by (auto simp: look_rem)

text \<open>The two ends of the ladder after an insertion.\<close>

lemma hi_ups_price:
  assumes "inv l" and "hi (ups p q l) = Some v"
  shows "lvl_price_ticks v = (case hi l of None \<Rightarrow> p | Some w \<Rightarrow> max p (lvl_price_ticks w))"
proof -
  have "lvl_price_ticks v \<in> dom (look (ups p q l))"
    "\<forall>x \<in> dom (look (ups p q l)). x \<le> lvl_price_ticks v"
    using assms(2) hi_Some [OF inv_ups [OF assms(1)]] by auto
  then have v: "lvl_price_ticks v \<in> insert p (dom (look l))"
    "\<forall>x \<in> insert p (dom (look l)). x \<le> lvl_price_ticks v"
    by (simp_all only: prices_ups [OF assms(1)])
  show ?thesis
  proof (cases "hi l")
    case None
    then show ?thesis using v hi_None [of l] by simp
  next
    case (Some w)
    then have w: "lvl_price_ticks w \<in> dom (look l)" "\<forall>x \<in> dom (look l). x \<le> lvl_price_ticks w"
      using hi_Some [OF assms(1)] by auto
    have "lvl_price_ticks v = max p (lvl_price_ticks w)"
    proof (rule antisym)
      show "lvl_price_ticks v \<le> max p (lvl_price_ticks w)"
        using v(1) w(2) by (auto simp: le_max_iff_disj)
      show "max p (lvl_price_ticks w) \<le> lvl_price_ticks v"
        using v(2) w(1) by simp
    qed
    then show ?thesis by (simp add: Some)
  qed
qed

lemma qty_fold_ups:
  assumes "inv l"
  shows "(case look (fold (\<lambda>(p, q). ups p q) xs l) x of None \<Rightarrow> 0 | Some v \<Rightarrow> lvl_total_quantity v) =
    (case look l x of None \<Rightarrow> 0 | Some v \<Rightarrow> lvl_total_quantity v) +
    sum_list (map (\<lambda>(p, q). if p = x then ucast q else 0) xs)"
  using assms
proof (induction xs arbitrary: l)
  case Nil
  then show ?case by simp
next
  case (Cons y xs)
  obtain p q where y: "y = (p, q)" by fastforce
  show ?case
    using Cons.IH [OF inv_ups [OF Cons.prems], of p q] look_ups [OF Cons.prems, of p q]
    by (simp add: y add_to_level_def add.assoc split: option.splits)
qed

end

lemma level_at_simps [simp]:
  "level_at [] p = None"
  "level_at (l # ls) p = (if lvl_price_ticks l = p then Some l else level_at ls p)"
  by (simp_all add: level_at_def)

lemma level_at_None_iff: "level_at ls p = None \<longleftrightarrow> p \<notin> lvl_price_ticks ` set ls"
  by (induction ls) auto

lemma level_at_SomeD: "level_at ls p = Some l \<Longrightarrow> l \<in> set ls \<and> lvl_price_ticks l = p"
  by (induction ls) (auto split: if_splits)

lemma dom_level_at: "dom (level_at ls) = lvl_price_ticks ` set ls"
  by (simp add: dom_def level_at_None_iff)

lemma level_at_in_set: "ladder_inv ls \<Longrightarrow> l \<in> set ls \<Longrightarrow> level_at ls (lvl_price_ticks l) = Some l"
  by (induction ls) force+

lemma set_upsert_ref_prices:
  "lvl_price_ticks ` set (upsert_ref p q ls) = insert p (lvl_price_ticks ` set ls)"
  by (induction ls) auto

lemma upsert_ref_inv: "ladder_inv ls \<Longrightarrow> ladder_inv (upsert_ref p q ls)"
proof (induction ls)
  case (Cons l ls)
  have "\<forall>x \<in> lvl_price_ticks ` set (upsert_ref p q ls). lvl_price_ticks l < x"
    if "lvl_price_ticks l < p"
    using that Cons.prems by (auto simp: set_upsert_ref_prices)
  then show ?case using Cons by force
qed simp

lemma level_at_upsert_ref:
  assumes "ladder_inv ls"
  shows "level_at (upsert_ref p q ls) = (level_at ls)(p \<mapsto> add_to_level p q (level_at ls p))"
  using assms
proof (induction ls)
  case Nil
  then show ?case by (auto simp: add_to_level_def)
next
  case (Cons l ls)
  have fresh: "level_at ls p = None" if "p < lvl_price_ticks l"
    using that Cons.prems by (force simp: level_at_None_iff)
  show ?case
    using Cons fresh by (auto simp: fun_eq_iff add_to_level_def)
qed

lemma level_at_remove_ref:
  assumes "ladder_inv ls"
  shows "level_at (remove_ref p ls) =
    (if \<exists>v. level_at ls p = Some v \<and> lvl_total_quantity v = 0 then (level_at ls)(p := None)
     else level_at ls)"
  using assms
proof (induction ls)
  case Nil
  then show ?case by (simp add: remove_ref_def)
next
  case (Cons l ls)
  have fresh: "level_at ls (lvl_price_ticks l) = None"
    using Cons.prems by (force simp: level_at_None_iff)
  show ?case
    using Cons fresh by (auto simp: remove_ref_def fun_eq_iff)
qed

lemma remove_ref_inv: "ladder_inv ls \<Longrightarrow> ladder_inv (remove_ref p ls)"
  by (auto simp: ladder_inv_def remove_ref_def sorted_wrt_map intro: sorted_wrt_filter)

lemma ladder_upsert_inv: "ladder_inv ls \<Longrightarrow> ladder_inv (snd (ladder_upsert p q ls))"
  by (simp add: ladder_upsert_ref upsert_ref_inv)

lemma remove_if_empty_inv: "ladder_inv ls \<Longrightarrow> ladder_inv (remove_if_empty p ls)"
  by (simp add: remove_if_empty_ref remove_ref_inv)

lemma ladder_best_Some:
  assumes "ladder_inv ls"
  shows "ladder_best ls = Some v \<longleftrightarrow>
    level_at ls (lvl_price_ticks v) = Some v \<and> (\<forall>l \<in> set ls. lvl_price_ticks l \<le> lvl_price_ticks v)"
proof (cases ls rule: rev_cases)
  case (snoc xs w)
  have w: "level_at ls (lvl_price_ticks w) = Some w"
    "\<forall>l \<in> set ls. lvl_price_ticks l \<le> lvl_price_ticks w"
    using assms level_at_in_set [OF assms] by (auto simp: snoc ladder_inv_append)
  show ?thesis
  proof
    assume v: "level_at ls (lvl_price_ticks v) = Some v \<and>
      (\<forall>l \<in> set ls. lvl_price_ticks l \<le> lvl_price_ticks v)"
    then have "v \<in> set ls" by (blast dest: level_at_SomeD)
    moreover have "w \<in> set ls" by (simp add: snoc)
    ultimately have "lvl_price_ticks v = lvl_price_ticks w"
      using v w(2) by (intro antisym) blast+
    with w(1) have "level_at ls (lvl_price_ticks v) = Some w" by (simp only:)
    with v have "v = w" by (simp only: option.inject)
    then show "ladder_best ls = Some v" by (simp add: snoc ladder_best_def)
  qed (use w in \<open>simp add: snoc ladder_best_def\<close>)
qed (simp add: ladder_best_def)

lemma ladder_worst_Some:
  assumes "ladder_inv ls"
  shows "ladder_worst ls = Some v \<longleftrightarrow>
    level_at ls (lvl_price_ticks v) = Some v \<and> (\<forall>l \<in> set ls. lvl_price_ticks v \<le> lvl_price_ticks l)"
proof (cases ls)
  case (Cons w xs)
  have w: "level_at ls (lvl_price_ticks w) = Some w"
    "\<forall>l \<in> set ls. lvl_price_ticks w \<le> lvl_price_ticks l"
    using assms by (auto simp: Cons)
  show ?thesis
  proof
    assume v: "level_at ls (lvl_price_ticks v) = Some v \<and>
      (\<forall>l \<in> set ls. lvl_price_ticks v \<le> lvl_price_ticks l)"
    then have "v \<in> set ls" by (blast dest: level_at_SomeD)
    moreover have "w \<in> set ls" by (simp add: Cons)
    ultimately have "lvl_price_ticks v = lvl_price_ticks w"
      using v w(2) by (intro antisym) blast+
    with w(1) have "level_at ls (lvl_price_ticks v) = Some w" by (simp only:)
    with v have "v = w" by (simp only: option.inject)
    then show "ladder_worst ls = Some v" by (simp add: Cons ladder_worst_def)
  qed (use w in \<open>simp add: Cons ladder_worst_def\<close>)
qed (simp add: ladder_worst_def)

interpretation flat: price_ladder "[]" "\<lambda>p q ls. snd (ladder_upsert p q ls)" remove_if_empty
  ladder_best ladder_worst level_at ladder_inv
proof (unfold_locales, goal_cases)
  case (2 l p v)
  then show ?case by (simp add: level_at_SomeD)
next
  case (3 l p q)
  then show ?case by (simp add: ladder_upsert_ref level_at_upsert_ref)
next
  case (4 l p)
  then show ?case by (simp add: remove_if_empty_ref level_at_remove_ref)
next
  case (5 l v)
  then show ?case by (simp add: ladder_best_Some dom_level_at)
next
  case (6 l v)
  then show ?case by (simp add: ladder_worst_Some dom_level_at)
next
  case (10 l p q)
  then show ?case by (rule ladder_upsert_inv)
next
  case (11 l p)
  then show ?case by (rule remove_if_empty_inv)
qed (simp_all add: ladder_best_def ladder_worst_def dom_level_at)

subsection \<open>Properties\<close>

lemma ladder_upsert_points:
  assumes "ladder_inv ls"
  shows "fst (ladder_upsert p q ls) < length (snd (ladder_upsert p q ls)) \<and>
    snd (ladder_upsert p q ls) ! fst (ladder_upsert p q ls) = add_to_level p q (level_at ls p)"
proof -
  obtain xs ys where split: "ls = xs @ ys" "lower_bound (level_below p) ls = length xs"
    "\<forall>x \<in> set xs. lvl_price_ticks x < p" "\<forall>y \<in> set ys. p \<le> lvl_price_ticks y"
    using ladder_split [OF assms] by metis
  have skip: "level_at (xs @ zs) p = level_at zs p" for zs
    using split(3) by (induction xs) auto
  have behind: "level_at ys p = None" if "\<forall>y \<in> set ys. lvl_price_ticks y \<noteq> p"
    using that by (auto simp: level_at_None_iff)
  show ?thesis
  proof (cases ys)
    case Nil
    then show ?thesis using split(1,2) skip [of "[]"]
      by (simp add: ladder_upsert_def Let_def add_to_level_def)
  next
    case (Cons y zs)
    have "\<forall>z \<in> set zs. lvl_price_ticks y < lvl_price_ticks z"
      using assms by (simp add: split(1) Cons ladder_inv_append)
    then have "level_at ys p = (if lvl_price_ticks y = p then Some y else None)"
      using split(4) by (auto simp: Cons level_at_None_iff)
    moreover have "lower_bound (level_below p) (xs @ y # zs) = length xs"
      using split(1,2) Cons by simp
    ultimately show ?thesis
      using skip [of ys] by (simp add: ladder_upsert_def Let_def split(1) Cons add_to_level_def
          nth_append list_update_append)
  qed
qed

text \<open>
  C19. On a sorted ladder the binary search is a linear scan: \<^verbatim>\<open>find\<close> points to the level of that
  price if there is one, \<^verbatim>\<open>upsert\<close> and \<^verbatim>\<open>remove_if_empty\<close> compute the insertion into, and the
  deletion from, a sorted list, and the reference \<^verbatim>\<open>upsert\<close> returns is to the level it
  created or added to.
\<close>

theorem ladder_search_is_scan:
  assumes "ladder_inv ls"
  shows "map_option (\<lambda>i. ls ! i) (ladder_find p ls) = find (\<lambda>l. lvl_price_ticks l = p) ls \<and>
    snd (ladder_upsert p q ls) = upsert_ref p q ls \<and> remove_if_empty p ls = remove_ref p ls \<and>
    snd (ladder_upsert p q ls) ! fst (ladder_upsert p q ls) =
      add_to_level p q (find (\<lambda>l. lvl_price_ticks l = p) ls)"
  using ladder_find_level [OF assms, of p] ladder_upsert_ref [OF assms, of p q]
    remove_if_empty_ref [OF assms, of p] ladder_upsert_points [OF assms, of p q]
  by (simp add: level_at_def)

lemma ladder_search_is_scan_witness:
  "\<exists>ls. ladder_inv ls \<and> map lvl_price_ticks ls = [100, 300] \<and>
    map lvl_price_ticks (snd (ladder_upsert 200 5 ls)) = [100, 200, 300] \<and>
    map lvl_price_ticks (remove_if_empty 100 ls) = [300]"
proof -
  let ?ls = "[\<lparr>lvl_price_ticks = 100, lvl_total_quantity = 0, lvl_order_count = 1, lvl_padding = 0\<rparr>,
     \<lparr>lvl_price_ticks = 300, lvl_total_quantity = 7, lvl_order_count = 1, lvl_padding = 0\<rparr>]"
  have inv: "ladder_inv ?ls" by simp
  show ?thesis
    using ladder_search_is_scan [OF inv, of 200 5] ladder_search_is_scan [OF inv, of 100 5]
    by (intro exI [of _ ?ls]) (simp add: remove_ref_def)
qed

text \<open>
  C18. The ladder implements a finite map from prices to levels: both updates keep it sorted
  and change the map at that price only, by the level with the quantity added, or by
  dropping the level when its total is zero; \<^verbatim>\<open>best()\<close> is the level of the greatest price and
  \<^verbatim>\<open>worst()\<close> that of the least.
\<close>

theorem ladder_refines_map:
  assumes "ladder_inv ls"
  shows "ladder_inv (snd (ladder_upsert p q ls)) \<and> ladder_inv (remove_if_empty p ls) \<and>
    level_at (snd (ladder_upsert p q ls)) = (level_at ls)(p \<mapsto> add_to_level p q (level_at ls p)) \<and>
    level_at (remove_if_empty p ls) =
      (if map_option lvl_total_quantity (level_at ls p) = Some 0 then (level_at ls)(p := None)
       else level_at ls) \<and>
    (\<forall>v. ladder_best ls = Some v \<longleftrightarrow>
       level_at ls (lvl_price_ticks v) = Some v \<and> (\<forall>x \<in> dom (level_at ls). x \<le> lvl_price_ticks v)) \<and>
    (\<forall>v. ladder_worst ls = Some v \<longleftrightarrow>
       level_at ls (lvl_price_ticks v) = Some v \<and> (\<forall>x \<in> dom (level_at ls). lvl_price_ticks v \<le> x))"
proof -
  have "level_at (remove_if_empty p ls) =
      (if map_option lvl_total_quantity (level_at ls p) = Some 0 then (level_at ls)(p := None)
       else level_at ls)"
    using level_at_remove_ref [OF assms, of p] by (simp add: remove_if_empty_ref [OF assms])
  then show ?thesis
    using ladder_upsert_inv [OF assms] remove_if_empty_inv [OF assms]
      level_at_upsert_ref [OF assms, of p q] ladder_best_Some [OF assms] ladder_worst_Some [OF assms]
    by (simp add: ladder_upsert_ref [OF assms] dom_level_at)
qed

lemma ladder_refines_map_witness:
  "ladder_inv [] \<and> level_at (snd (ladder_upsert 100 5 [])) = [100 \<mapsto> add_to_level 100 5 None]"
  using ladder_refines_map [of "[]" 100 5] by (simp add: fun_eq_iff)

lemma distinct_prices: "ladder_inv ls \<Longrightarrow> distinct (map lvl_price_ticks ls)"
  by (simp add: ladder_inv_def strict_sorted_iff)

text \<open>
  Any sequence of \<^verbatim>\<open>upsert\<close> calls on an empty ladder gives one level per distinct price, in
  ascending order, and the total of the level is the sum of the quantities added at its
  price, modulo \<open>2 ^ 64\<close>.
\<close>

lemma ladder_aggregates_quantity:
  "let ls = fold (\<lambda>(p, q) ls. snd (ladder_upsert p q ls)) xs [] in
   ladder_inv ls \<and> lvl_price_ticks ` set ls = fst ` set xs \<and> ladder_size ls = card (fst ` set xs) \<and>
   (ladder_empty ls \<longleftrightarrow> xs = []) \<and>
   (\<forall>l \<in> set ls. lvl_total_quantity l =
      sum_list (map (\<lambda>(p, q). if p = lvl_price_ticks l then ucast q else 0) xs))"
proof -
  define ls where "ls = fold (\<lambda>(p, q) ls. snd (ladder_upsert p q ls)) xs []"
  have fold: "ladder_inv (fold (\<lambda>(p, q) ls. snd (ladder_upsert p q ls)) xs l) \<and>
      lvl_price_ticks ` set (fold (\<lambda>(p, q) ls. snd (ladder_upsert p q ls)) xs l) =
        fst ` set xs \<union> lvl_price_ticks ` set l" if "ladder_inv l" for l
    using that
  proof (induction xs arbitrary: l)
    case (Cons x xs)
    obtain p q where x: "x = (p, q)" by fastforce
    from Cons.IH [OF upsert_ref_inv [OF Cons.prems, of p q]] show ?case
      by (simp add: x ladder_upsert_ref [OF Cons.prems] set_upsert_ref_prices)
  qed simp
  have inv: "ladder_inv ls" and prices: "lvl_price_ticks ` set ls = fst ` set xs"
    using fold [of "[]"] by (simp_all add: ls_def)
  have "ladder_size ls = card (lvl_price_ticks ` set ls)"
    using distinct_card [OF distinct_prices [OF inv]] by (simp add: ladder_size_def)
  moreover have "lvl_total_quantity l =
      sum_list (map (\<lambda>(p, q). if p = lvl_price_ticks l then ucast q else 0) xs)" if "l \<in> set ls" for l
    using flat.qty_fold_ups [of "[]" xs "lvl_price_ticks l"] level_at_in_set [OF inv that]
    by (simp add: ls_def)
  moreover have "ladder_empty ls \<longleftrightarrow> xs = []"
    using prices by (auto simp: ladder_empty_def)
  ultimately show ?thesis
    using inv prices unfolding Let_def ls_def [symmetric] by (simp add: prices)
qed

end
