(* ===== verification/Matching_Spec.thy ===== *)
theory Matching_Spec
  imports Prelude "HOL-Library.While_Combinator"
begin

text \<open>
  What a sweep of one side of the book does, on natural numbers: \<open>sweep ok q levels\<close> fills
  a quantity \<open>q\<close> against the levels (price, quantity), best price first, as long as \<open>ok\<close>
  accepts the price. The result is the list of fills, the quantity left and the levels
  left, or \<open>None\<close> when the sweep does not end: the code reads only the low 32 bits of a
  level's 64-bit total, so a level of \<open>2 ^ 32\<close> or more whose low part is used up is filled
  with quantity zero again and again.

  The locale \<open>aggressive_side\<close> is the contract of one matching loop, by the effect of its
  guard and of one iteration on the levels it sees; the lemma \<open>loop_is_sweep\<close> proves from
  it that the loop computes \<open>sweep\<close>, and runs forever exactly when \<open>sweep\<close> is \<open>None\<close>.
\<close>

fun sweep ::
  "(int \<Rightarrow> bool) \<Rightarrow> nat \<Rightarrow> (int \<times> nat) list \<Rightarrow>
   ((int \<times> nat) list \<times> nat \<times> (int \<times> nat) list) option" where
  "sweep ok q [] = Some ([], q, [])"
| "sweep ok q ((p, n) # ls) =
     (if q = 0 \<or> \<not> ok p then Some ([], q, (p, n) # ls)
      else if q \<le> n mod 2 ^ 32 then
        Some ([(p, q)], 0, if n = q then ls else (p, n - q) # ls)
      else if n < 2 ^ 32 then
        map_option (\<lambda>(fs, r, rest). ((p, n) # fs, r, rest)) (sweep ok (q - n) ls)
      else None)"

abbreviation total_qty :: "(int \<times> nat) list \<Rightarrow> nat" where
  "total_qty ls \<equiv> sum_list (map snd ls)"

subsection \<open>Properties of a sweep\<close>

lemma sweep_conserve:
  "sweep ok q ls = Some (fs, r, rest) \<Longrightarrow>
   total_qty fs + r = q \<and> total_qty ls = total_qty fs + total_qty rest"
proof (induction ok q ls arbitrary: fs r rest rule: sweep.induct)
  case (2 ok q p n ls)
  then show ?case
    by (auto split: if_splits)
qed auto

lemma sweep_prefix:
  "sweep ok q ls = Some (fs, r, rest) \<Longrightarrow>
   (\<exists>k. map fst fs = take k (map fst ls)) \<and> (\<forall>p \<in> fst ` set fs. ok p) \<and>
   (\<forall>(p, x) \<in> set fs. x \<le> q) \<and> set (map fst rest) \<subseteq> set (map fst ls)"
proof (induction ok q ls arbitrary: fs r rest rule: sweep.induct)
  case (2 ok q p n ls)
  show ?case
  proof (cases "q = 0 \<or> \<not> ok p \<or> q \<le> n mod 2 ^ 32")
    case True
    then show ?thesis
      using "2.prems" by (auto split: if_splits intro: exI [of _ 0] exI [of _ 1])
  next
    case False
    then obtain fs' where rec: "sweep ok (q - n) ls = Some (fs', r, rest)"
      and fs: "fs = (p, n) # fs'" and n: "n < 2 ^ 32"
      using "2.prems" by (auto split: if_splits)
    from False n have "n < q" by simp
    have IH: "(\<exists>k. map fst fs' = take k (map fst ls)) \<and> (\<forall>p \<in> fst ` set fs'. ok p) \<and>
        (\<forall>(p, x) \<in> set fs'. x \<le> q - n) \<and> set (map fst rest) \<subseteq> set (map fst ls)"
      using "2.IH" False n rec by simp
    then obtain k where k: "map fst fs' = take k (map fst ls)" by blast
    have "map fst fs = take (Suc k) (map fst ((p, n) # ls))" by (simp add: fs k)
    moreover have "\<forall>(p, x) \<in> set fs. x \<le> q"
      using IH \<open>n < q\<close> by (fastforce simp: fs)
    moreover have "\<forall>p \<in> fst ` set fs. ok p" "set (map fst rest) \<subseteq> set (map fst ((p, n) # ls))"
      using IH False by (auto simp: fs)
    ultimately show ?thesis by blast
  qed
qed auto

lemma sweep_exhausts:
  "sweep ok q ls = Some (fs, r, rest) \<Longrightarrow> 0 < r \<Longrightarrow> rest = [] \<or> \<not> ok (fst (hd rest))"
proof (induction ok q ls arbitrary: fs r rest rule: sweep.induct)
  case (2 ok q p n ls)
  then show ?case by (auto split: if_splits)
qed auto

lemma sweep_amount:
  assumes "sweep ok q ls = Some (fs, r, rest)"
  shows "total_qty fs = min q (total_qty (takeWhile (\<lambda>l. ok (fst l)) ls))"
  using assms
proof (induction ok q ls arbitrary: fs r rest rule: sweep.induct)
  case (2 ok q p n ls)
  then show ?case
    by (auto split: if_splits)
qed auto

lemma sweep_defined:
  "\<forall>l \<in> set ls. ok (fst l) \<longrightarrow> snd l < 2 ^ 32 \<Longrightarrow> \<exists>fs r rest. sweep ok q ls = Some (fs, r, rest)"
proof (induction ok q ls rule: sweep.induct)
  case (2 ok q p n ls)
  then show ?case by (cases "q = 0 \<or> \<not> ok p \<or> q \<le> n mod 2 ^ 32") (auto split: if_splits)
qed auto

lemma sweep_positive:
  "sweep ok q ls = Some (fs, r, rest) \<Longrightarrow> \<forall>l \<in> set ls. 0 < snd l \<Longrightarrow>
   (\<forall>l \<in> set fs. 0 < snd l) \<and> (\<forall>l \<in> set rest. 0 < snd l)"
proof (induction ok q ls arbitrary: fs r rest rule: sweep.induct)
  case (2 ok q p n ls)
  have "n mod 2 ^ 32 \<le> n" by simp
  with 2 show ?case by (auto split: if_splits) fastforce+
qed auto

subsection \<open>The contract of a matching loop\<close>

locale aggressive_side =
  fixes guard :: "int \<Rightarrow> u32 \<times> 'b \<Rightarrow> bool"
    and body :: "u32 \<times> 'b \<Rightarrow> u32 \<times> 'b"
    and view :: "'b \<Rightarrow> (int \<times> nat) list"
    and fills :: "'b \<Rightarrow> (int \<times> nat) list"
    and crosses :: "int \<Rightarrow> int \<Rightarrow> bool"
    and inv :: "'b \<Rightarrow> bool"
    and frame :: "'b \<Rightarrow> 'f"
  assumes guard_Nil: "inv b \<Longrightarrow> view b = [] \<Longrightarrow> \<not> guard lim (q, b)"
    and guard_Cons: "inv b \<Longrightarrow> view b = (p, n) # ls \<Longrightarrow> guard lim (q, b) \<longleftrightarrow> q > 0 \<and> crosses lim p"
    and body_quantity: "inv b \<Longrightarrow> view b = (p, n) # ls \<Longrightarrow>
      unat (fst (body (q, b))) = unat q - min (unat q) (n mod 2 ^ 32)"
    and body_view: "inv b \<Longrightarrow> view b = (p, n) # ls \<Longrightarrow>
      view (snd (body (q, b))) =
        (let x = min (unat q) (n mod 2 ^ 32) in if n = x then ls else (p, n - x) # ls)"
    and body_fills: "inv b \<Longrightarrow> view b = (p, n) # ls \<Longrightarrow>
      fills (snd (body (q, b))) = fills b @ [(p, min (unat q) (n mod 2 ^ 32))]"
    and body_inv: "inv b \<Longrightarrow> view b = (p, n) # ls \<Longrightarrow> inv (snd (body (q, b)))"
    and body_frame: "inv b \<Longrightarrow> view b = (p, n) # ls \<Longrightarrow> frame (snd (body (q, b))) = frame b"
begin

abbreviation loop :: "int \<Rightarrow> u32 \<times> 'b \<Rightarrow> (u32 \<times> 'b) option" where
  "loop lim \<equiv> while_option (guard lim) body"

lemma loop_stop: "\<not> guard lim s \<Longrightarrow> loop lim s = Some s"
  by (subst while_option_unfold) simp

lemma loop_step: "guard lim s \<Longrightarrow> loop lim s = loop lim (body s)"
  by (subst while_option_unfold) simp

text \<open>A crossing level whose low 32 bits are zero, but not the whole, is never consumed.\<close>

lemma loop_stuck:
  assumes "inv b" and "view b = (p, n) # ls" and "q > 0" and "crosses lim p"
    and "n mod 2 ^ 32 = 0" and "2 ^ 32 \<le> n"
  shows "loop lim (q, b) = None"
proof (rule ccontr)
  define stuck where "stuck = (\<lambda>s :: u32 \<times> 'b. inv (snd s) \<and> view (snd s) = (p, n) # ls \<and> fst s > 0)"
  assume "loop lim (q, b) \<noteq> None"
  then obtain t where t: "loop lim (q, b) = Some t" by auto
  have "stuck t"
  proof (rule while_option_rule [OF _ t])
    show "stuck (q, b)" using assms by (simp add: stuck_def)
    fix s assume s: "stuck s"
    obtain q' b' where "s = (q', b')" by fastforce
    then show "stuck (body s)"
      using s body_quantity [of b' p n ls q'] body_view [of b' p n ls q'] body_inv [of b' p n ls q']
        assms(5,6) by (simp add: stuck_def word_gt_0 flip: unat_gt_0)
  qed
  then have "guard lim t"
    using guard_Cons [of "snd t" p n ls lim "fst t"] assms(4) by (simp add: stuck_def)
  moreover have "\<not> guard lim t" using while_option_stop [OF t] .
  ultimately show False by simp
qed

lemma loop_is_sweep:
  assumes "inv b"
  shows "case sweep (crosses lim) (unat q) (view b) of
      None \<Rightarrow> loop lim (q, b) = None
    | Some (fs, r, rest) \<Rightarrow> \<exists>q' b'. loop lim (q, b) = Some (q', b') \<and> unat q' = r \<and>
        view b' = rest \<and> fills b' = fills b @ fs \<and> inv b' \<and> frame b' = frame b"
  using assms
proof (induction "view b" arbitrary: q b)
  case Nil
  then show ?case using guard_Nil loop_stop by simp
next
  case (Cons l ls)
  obtain p n where l: "l = (p, n)" by fastforce
  have v: "view b = (p, n) # ls" using Cons.hyps(2) l by simp
  obtain q1 b1 where b1: "body (q, b) = (q1, b1)" by fastforce
  define x where "x = min (unat q) (n mod 2 ^ 32)"
  have q1: "unat q1 = unat q - x" and v1: "view b1 = (if n = x then ls else (p, n - x) # ls)"
    and f1: "fills b1 = fills b @ [(p, x)]" and i1: "inv b1" and fr1: "frame b1 = frame b"
    using body_quantity [OF Cons.prems v, of q] body_view [OF Cons.prems v, of q]
      body_fills [OF Cons.prems v, of q] body_inv [OF Cons.prems v, of q]
      body_frame [OF Cons.prems v, of q] by (simp_all add: b1 x_def Let_def)
  consider (stop) "unat q = 0 \<or> \<not> crosses lim p"
    | (last) "unat q > 0" "crosses lim p" "unat q \<le> n mod 2 ^ 32"
    | (consumed) "crosses lim p" "n mod 2 ^ 32 < unat q" "n < 2 ^ 32"
    | (stuck) "crosses lim p" "n mod 2 ^ 32 < unat q" "2 ^ 32 \<le> n"
    by linarith
  then show ?case
  proof cases
    case stop
    then have "\<not> guard lim (q, b)"
      using guard_Cons [OF Cons.prems v] by (auto simp: unat_eq_0)
    then show ?thesis using stop v Cons.prems by (auto simp: loop_stop)
  next
    case last
    then have "guard lim (q, b)"
      using guard_Cons [OF Cons.prems v] by (simp add: word_gt_0 flip: unat_gt_0)
    moreover have "q1 = 0" using q1 last by (simp add: x_def unat_eq_0)
    moreover have "\<not> guard lim (0, b1)"
      using guard_Nil [OF i1] guard_Cons [OF i1] by (cases "view b1") auto
    ultimately have "loop lim (q, b) = Some (0, b1)"
      by (simp add: loop_step b1 loop_stop)
    then show ?thesis using last v v1 f1 i1 fr1 by (simp add: x_def min_def)
  next
    case consumed
    then have "guard lim (q, b)"
      using guard_Cons [OF Cons.prems v] by (simp add: word_gt_0 flip: unat_gt_0)
    then have loop: "loop lim (q, b) = loop lim (q1, b1)" by (simp add: loop_step b1)
    have x: "x = n" "n < unat q" using consumed by (simp_all add: x_def)
    then have v1': "ls = view b1" and q1': "unat q1 = unat q - n" using v1 q1 by simp_all
    have IH: "case sweep (crosses lim) (unat q1) (view b1) of
        None \<Rightarrow> loop lim (q1, b1) = None
      | Some (fs, r, rest) \<Rightarrow> \<exists>q' b'. loop lim (q1, b1) = Some (q', b') \<and> unat q' = r \<and>
          view b' = rest \<and> fills b' = fills b1 @ fs \<and> inv b' \<and> frame b' = frame b1"
      using Cons.hyps(1) [OF v1' i1] .
    have "sweep (crosses lim) (unat q) (view b) =
        map_option (\<lambda>(fs, r, rest). ((p, n) # fs, r, rest)) (sweep (crosses lim) (unat q1) (view b1))"
      using consumed x by (simp add: v q1' flip: v1')
    then show ?thesis
      using IH f1 fr1 loop x(1)
      by (cases "sweep (crosses lim) (unat q1) (view b1)") auto
  next
    case stuck
    then have "guard lim (q, b)"
      using guard_Cons [OF Cons.prems v] by (simp add: word_gt_0 flip: unat_gt_0)
    moreover have "view b1 = (p, n - n mod 2 ^ 32) # ls" "q1 > 0"
      using stuck v1 q1 mod_less_divisor [of "2 ^ 32" n]
      by (auto simp: x_def min_def word_gt_0 simp flip: unat_gt_0)
    moreover have "2 ^ 32 \<le> n - n mod 2 ^ 32" "(n - n mod 2 ^ 32) mod 2 ^ 32 = 0"
      using stuck(3) by (simp_all add: minus_mod_eq_mult_div div_greater_zero_iff)
    ultimately have "loop lim (q, b) = None"
      using loop_stuck [OF i1] stuck(1) by (simp add: loop_step b1)
    then show ?thesis using stuck v by simp
  qed
qed

end

end
