(* ===== verification/Order_Book.thy ===== *)
theory Order_Book
  imports Spsc_Queue Price_Ladder Matching_Spec
begin

text \<open>
  \<^verbatim>\<open>Order\<close>, \<^verbatim>\<open>MatchResult\<close> and \<^verbatim>\<open>OrderBook\<close> of \<^verbatim>\<open>1_orderbook/include/order.hpp\<close>,
  \<^verbatim>\<open>order_book.hpp\<close> and \<^verbatim>\<open>1_orderbook/src/order_book.cpp\<close>.

  The book is a record of the members of the class. Two fields stand for what the code
  does to the outside world: \<open>matches\<close> is the sequence of calls to the \<^verbatim>\<open>on_match_\<close>
  callback (an observer that does not call back into the book), and \<open>tsc_reads\<close> counts
  the reads of the time stamp counter, whose \<open>n\<close>-th value is \<open>tsc n\<close> for a parameter
  \<open>tsc\<close>. The order pool and the id table are functions of the index; the invariant keeps
  every slot below \<^verbatim>\<open>MAX_ORDERS\<close>. The matching loops may run forever, so they and
  \<^verbatim>\<open>add_order\<close> return an option, \<open>None\<close> meaning that the call does not return.
\<close>

datatype side = Buy | Sell

datatype order_type = Limit | Market | Cancel

record order =
  ord_order_id :: u64
  ord_timestamp_tsc :: u64
  ord_price_ticks :: int
  ord_quantity :: u32
  ord_filled_qty :: u32
  ord_symbol_id :: u32
  ord_side :: side
  ord_type :: order_type

record match_result =
  mr_aggressor_id :: u64
  mr_resting_id :: u64
  mr_price_ticks :: int
  mr_quantity :: u32
  mr_match_timestamp_tsc :: u64

definition MAX_ORDERS :: u64 where
  "MAX_ORDERS = push_bit 20 1"

record order_book =
  symbol_id :: u32
  bids :: ladder
  asks :: ladder
  order_pool :: "u32 \<Rightarrow> order"
  free_list :: "u32 spsc"
  order_id_to_slot :: "u64 \<Rightarrow> u32"
  next_order_id :: u64
  matches :: "match_result list"
  tsc_reads :: nat

text \<open>A value-initialised \<^verbatim>\<open>Order\<close>: every member zero, the enums at their zero value.\<close>

definition order_zero :: order where
  "order_zero = \<lparr>ord_order_id = 0, ord_timestamp_tsc = 0, ord_price_ticks = 0, ord_quantity = 0,
     ord_filled_qty = 0, ord_symbol_id = 0, ord_side = Buy, ord_type = Limit\<rparr>"

definition order_book_new :: "u32 \<Rightarrow> (u64 \<Rightarrow> u32) \<Rightarrow> order_book" where
  "order_book_new sid d =
     \<lparr>symbol_id = sid, bids = [], asks = [], order_pool = (\<lambda>_. order_zero),
      free_list = push_all (spsc_push MAX_ORDERS) (map of_nat [0..<unat MAX_ORDERS]) (spsc_new d),
      order_id_to_slot = (\<lambda>_. 0xFFFFFFFF), next_order_id = 1, matches = [], tsc_reads = 0\<rparr>"

subsection \<open>Matching\<close>

text \<open>
  Both loops leave at the same three points: nothing left to fill, no level on the other
  side, best level beyond the limit. The guard of the model is the conjunction of their
  negations; the body is the rest of the iteration. \<^verbatim>\<open>asks_.worst()\<close> points to the first
  level and \<^verbatim>\<open>bids_.best()\<close> to the last one, which the body updates in place.
\<close>

definition emit_match :: "(nat \<Rightarrow> u64) \<Rightarrow> int \<Rightarrow> u32 \<Rightarrow> order_book \<Rightarrow> order_book" where
  "emit_match tsc p q ob =
     ob\<lparr>matches := matches ob @ [\<lparr>mr_aggressor_id = 0, mr_resting_id = 0, mr_price_ticks = p,
          mr_quantity = q, mr_match_timestamp_tsc = tsc (tsc_reads ob)\<rparr>],
        tsc_reads := Suc (tsc_reads ob)\<rparr>"

definition buy_guard :: "int \<Rightarrow> u32 \<times> order_book \<Rightarrow> bool" where
  "buy_guard price_ticks = (\<lambda>(quantity, ob). quantity > 0 \<and>
     (case ladder_worst (asks ob) of None \<Rightarrow> False
      | Some ask \<Rightarrow> \<not> lvl_price_ticks ask > price_ticks))"

definition buy_body :: "(nat \<Rightarrow> u64) \<Rightarrow> u32 \<times> order_book \<Rightarrow> u32 \<times> order_book" where
  "buy_body tsc = (\<lambda>(quantity, ob).
     case ladder_worst (asks ob) of None \<Rightarrow> (quantity, ob)
     | Some ask \<Rightarrow>
        (let fill_qty = min quantity (ucast (lvl_total_quantity ask));
             ob1 = emit_match tsc (lvl_price_ticks ask) fill_qty ob;
             ask1 = ask\<lparr>lvl_total_quantity := lvl_total_quantity ask - ucast fill_qty\<rparr>
         in (quantity - fill_qty,
             ob1\<lparr>asks := remove_if_empty (lvl_price_ticks ask) ((asks ob1)[0 := ask1])\<rparr>)))"

definition match_aggressive_buy ::
  "(nat \<Rightarrow> u64) \<Rightarrow> u32 \<Rightarrow> int \<Rightarrow> order_book \<Rightarrow> (u64 \<times> order_book) option" where
  "match_aggressive_buy tsc quantity price_ticks ob =
     map_option (\<lambda>(q, ob'). (ucast q, ob'))
       (while_option (buy_guard price_ticks) (buy_body tsc) (quantity, ob))"

definition sell_guard :: "int \<Rightarrow> u32 \<times> order_book \<Rightarrow> bool" where
  "sell_guard price_ticks = (\<lambda>(quantity, ob). quantity > 0 \<and>
     (case ladder_best (bids ob) of None \<Rightarrow> False
      | Some bid \<Rightarrow> \<not> lvl_price_ticks bid < price_ticks))"

definition sell_body :: "(nat \<Rightarrow> u64) \<Rightarrow> u32 \<times> order_book \<Rightarrow> u32 \<times> order_book" where
  "sell_body tsc = (\<lambda>(quantity, ob).
     case ladder_best (bids ob) of None \<Rightarrow> (quantity, ob)
     | Some bid \<Rightarrow>
        (let fill_qty = min quantity (ucast (lvl_total_quantity bid));
             ob1 = emit_match tsc (lvl_price_ticks bid) fill_qty ob;
             bid1 = bid\<lparr>lvl_total_quantity := lvl_total_quantity bid - ucast fill_qty\<rparr>
         in (quantity - fill_qty,
             ob1\<lparr>bids := remove_if_empty (lvl_price_ticks bid)
                  ((bids ob1)[length (bids ob1) - 1 := bid1])\<rparr>)))"

definition match_aggressive_sell ::
  "(nat \<Rightarrow> u64) \<Rightarrow> u32 \<Rightarrow> int \<Rightarrow> order_book \<Rightarrow> (u64 \<times> order_book) option" where
  "match_aggressive_sell tsc quantity price_ticks ob =
     map_option (\<lambda>(q, ob'). (ucast q, ob'))
       (while_option (sell_guard price_ticks) (sell_body tsc) (quantity, ob))"

subsection \<open>Order entry and cancellation\<close>

definition cancel_order :: "u64 \<Rightarrow> order_book \<Rightarrow> bool \<times> order_book" where
  "cancel_order order_id ob =
     (let slot = order_id_to_slot ob (order_id AND (MAX_ORDERS - 1)) in
      if ucast slot \<ge> MAX_ORDERS then (False, ob)
      else let order = order_pool ob slot in
        if ord_order_id order \<noteq> order_id then (False, ob)
        else
          let ob1 = (if ord_side order = Buy
                     then ob\<lparr>bids := remove_if_empty (ord_price_ticks order) (bids ob)\<rparr>
                     else ob\<lparr>asks := remove_if_empty (ord_price_ticks order) (asks ob)\<rparr>)
          in (True, ob1\<lparr>free_list := snd (spsc_push MAX_ORDERS slot (free_list ob1))\<rparr>))"

text \<open>The members \<^verbatim>\<open>add_order\<close> writes into the slot it takes from the pool.\<close>

definition fill_slot ::
  "(nat \<Rightarrow> u64) \<Rightarrow> u64 \<Rightarrow> side \<Rightarrow> int \<Rightarrow> u32 \<Rightarrow> order_type \<Rightarrow> u32 \<Rightarrow> order_book \<Rightarrow> order_book" where
  "fill_slot tsc order_id sd price_ticks quantity typ slot ob =
     ob\<lparr>order_pool := (order_pool ob)(slot :=
          \<lparr>ord_order_id = order_id, ord_timestamp_tsc = tsc (tsc_reads ob),
           ord_price_ticks = price_ticks, ord_quantity = quantity, ord_filled_qty = 0,
           ord_symbol_id = symbol_id ob, ord_side = sd, ord_type = typ\<rparr>),
        tsc_reads := Suc (tsc_reads ob),
        order_id_to_slot := (order_id_to_slot ob)(order_id AND (MAX_ORDERS - 1) := slot)\<rparr>"

text \<open>What happens to an order after matching: the slot goes back to the pool when nothing
  remains, the remainder rests in the book otherwise.\<close>

definition rest_order :: "side \<Rightarrow> int \<Rightarrow> u32 \<Rightarrow> u32 \<Rightarrow> order_book \<Rightarrow> order_book" where
  "rest_order sd price_ticks remaining slot ob =
     (if remaining = 0 then ob\<lparr>free_list := snd (spsc_push MAX_ORDERS slot (free_list ob))\<rparr>
      else
        let ob1 = ob\<lparr>order_pool := (order_pool ob)(slot :=
                       (order_pool ob slot)\<lparr>ord_quantity := remaining\<rparr>)\<rparr>
        in if sd = Buy then ob1\<lparr>bids := snd (ladder_upsert price_ticks remaining (bids ob1))\<rparr>
           else ob1\<lparr>asks := snd (ladder_upsert price_ticks remaining (asks ob1))\<rparr>)"

definition add_order ::
  "(nat \<Rightarrow> u64) \<Rightarrow> side \<Rightarrow> int \<Rightarrow> u32 \<Rightarrow> order_type \<Rightarrow> order_book \<Rightarrow> (u64 \<times> order_book) option" where
  "add_order tsc sd price_ticks quantity typ ob =
     (let order_id = next_order_id ob; ob1 = ob\<lparr>next_order_id := next_order_id ob + 1\<rparr> in
      if typ = Cancel then Some (order_id, snd (cancel_order (word_of_int price_ticks) ob1))
      else case spsc_pop MAX_ORDERS (free_list ob1) of
        (None, fl) \<Rightarrow> Some (0, ob1\<lparr>free_list := fl\<rparr>)
      | (Some slot, fl) \<Rightarrow>
          let ob2 = fill_slot tsc order_id sd price_ticks quantity typ slot
                      (ob1\<lparr>free_list := fl\<rparr>)
          in map_option (\<lambda>(remaining, ob3).
                 (order_id, rest_order sd price_ticks (ucast remaining) slot ob3))
               (if sd = Buy then match_aggressive_buy tsc quantity price_ticks ob2
                else match_aggressive_sell tsc quantity price_ticks ob2))"

subsection \<open>Queries\<close>

definition best_bid :: "order_book \<Rightarrow> price_level option" where
  "best_bid ob = ladder_best (bids ob)"

definition best_ask :: "order_book \<Rightarrow> price_level option" where
  "best_ask ob = ladder_worst (asks ob)"

text \<open>The subtraction is signed: outside the 64-bit range its result is undefined, \<open>None\<close>.\<close>

definition spread_ticks :: "order_book \<Rightarrow> int option" where
  "spread_ticks ob = (case (best_bid ob, best_ask ob) of
     (Some bid, Some ask) \<Rightarrow>
       (if i64_ok (lvl_price_ticks ask - lvl_price_ticks bid)
        then Some (lvl_price_ticks ask - lvl_price_ticks bid) else None)
   | _ \<Rightarrow> Some INT64_MAX)"

definition total_orders :: "order_book \<Rightarrow> u64" where
  "total_orders ob = next_order_id ob - 1"

subsection \<open>The two loops meet the matching contract\<close>

definition level_pair :: "price_level \<Rightarrow> int \<times> nat" where
  "level_pair l = (lvl_price_ticks l, unat (lvl_total_quantity l))"

text \<open>Each side best price first, and the fills reported so far.\<close>

definition ask_view :: "order_book \<Rightarrow> (int \<times> nat) list" where
  "ask_view ob = map level_pair (asks ob)"

definition bid_view :: "order_book \<Rightarrow> (int \<times> nat) list" where
  "bid_view ob = rev (map level_pair (bids ob))"

definition reported_fills :: "order_book \<Rightarrow> (int \<times> nat) list" where
  "reported_fills ob = map (\<lambda>m. (mr_price_ticks m, unat (mr_quantity m))) (matches ob)"

abbreviation fill_of :: "u32 \<Rightarrow> price_level \<Rightarrow> u32" where
  "fill_of q l \<equiv> min q (ucast (lvl_total_quantity l))"

lemma unat_fill_of: "unat (fill_of q l) = min (unat q) (unat (lvl_total_quantity l) mod 2 ^ 32)"
  by (simp add: min_def word_le_nat_alt unat_ucast_mod)

lemma unat_level_left:
  "unat (lvl_total_quantity l - ucast (fill_of q l)) =
   unat (lvl_total_quantity l) - min (unat q) (unat (lvl_total_quantity l) mod 2 ^ 32)"
proof -
  have fill: "unat (ucast (fill_of q l) :: u64) =
      min (unat q) (unat (lvl_total_quantity l) mod 2 ^ 32)"
    using unat_fill_of [of q l] by (simp add: unat_ucast_mod)
  then have "ucast (fill_of q l) \<le> lvl_total_quantity l"
    by (simp add: word_le_nat_alt min_le_iff_disj)
  from unat_minus_word [OF this] show ?thesis by (simp only: fill)
qed

lemma unat_quantity_left:
  "unat (q - fill_of q l) = unat q - min (unat q) (unat (lvl_total_quantity l) mod 2 ^ 32)"
  using unat_fill_of [of q l] by (simp add: unat_minus_word)

lemma remove_if_empty_first:
  assumes "ladder_inv (l # ls)"
  shows "remove_if_empty (lvl_price_ticks l) (l # ls) =
    (if lvl_total_quantity l = 0 then ls else l # ls)"
proof -
  have "remove_ref (lvl_price_ticks l) ls = ls"
    using assms by (auto simp: remove_ref_def filter_id_conv)
  then show ?thesis using assms by (simp add: remove_if_empty_ref) (simp add: remove_ref_def)
qed

lemma remove_if_empty_last:
  assumes "ladder_inv (ls @ [l])"
  shows "remove_if_empty (lvl_price_ticks l) (ls @ [l]) =
    (if lvl_total_quantity l = 0 then ls else ls @ [l])"
proof -
  have "remove_ref (lvl_price_ticks l) ls = ls"
    using assms by (auto simp: remove_ref_def filter_id_conv ladder_inv_append)
  then show ?thesis using assms by (simp add: remove_if_empty_ref) (simp add: remove_ref_def)
qed

lemma buy_body_eq:
  fixes q :: u32
  assumes "ladder_inv (asks ob)" and "asks ob = l # ls"
  defines "l' \<equiv> l\<lparr>lvl_total_quantity := lvl_total_quantity l - ucast (fill_of q l)\<rparr>"
  shows "buy_body tsc (q, ob) = (q - fill_of q l,
    (emit_match tsc (lvl_price_ticks l) (fill_of q l) ob)
      \<lparr>asks := (if lvl_total_quantity l' = 0 then ls else l' # ls)\<rparr>)"
proof -
  have "remove_if_empty (lvl_price_ticks l) (l' # ls) =
      (if lvl_total_quantity l' = 0 then ls else l' # ls)"
    using remove_if_empty_first [of l' ls] assms(1,2) by (simp add: l'_def)
  then show ?thesis
    by (simp add: buy_body_def ladder_worst_def assms(2) emit_match_def Let_def flip: l'_def)
qed

lemma sell_body_eq:
  fixes q :: u32
  assumes "ladder_inv (bids ob)" and "bids ob = ls @ [l]"
  defines "l' \<equiv> l\<lparr>lvl_total_quantity := lvl_total_quantity l - ucast (fill_of q l)\<rparr>"
  shows "sell_body tsc (q, ob) = (q - fill_of q l,
    (emit_match tsc (lvl_price_ticks l) (fill_of q l) ob)
      \<lparr>bids := (if lvl_total_quantity l' = 0 then ls else ls @ [l'])\<rparr>)"
proof -
  have "remove_if_empty (lvl_price_ticks l) (ls @ [l']) =
      (if lvl_total_quantity l' = 0 then ls else ls @ [l'])"
    using remove_if_empty_last [of ls l'] assms(1,2) by (simp add: l'_def ladder_inv_append)
  then show ?thesis
    by (simp add: sell_body_def ladder_best_def assms(2) emit_match_def Let_def flip: l'_def)
qed

text \<open>What a sweep leaves alone.\<close>

abbreviation buy_frame where
  "buy_frame ob \<equiv> (symbol_id ob, bids ob, order_pool ob, free_list ob, order_id_to_slot ob,
     next_order_id ob, int (tsc_reads ob) - int (length (matches ob)))"

abbreviation sell_frame where
  "sell_frame ob \<equiv> (symbol_id ob, asks ob, order_pool ob, free_list ob, order_id_to_slot ob,
     next_order_id ob, int (tsc_reads ob) - int (length (matches ob)))"

lemma ask_view_ConsE:
  assumes "ask_view ob = (p, n) # vs"
  obtains l ls where "asks ob = l # ls" "p = lvl_price_ticks l"
    "n = unat (lvl_total_quantity l)" "vs = map level_pair ls"
  using assms by (auto simp: ask_view_def level_pair_def)

lemma bid_view_ConsE:
  assumes "bid_view ob = (p, n) # vs"
  obtains l ls where "bids ob = ls @ [l]" "p = lvl_price_ticks l"
    "n = unat (lvl_total_quantity l)" "vs = rev (map level_pair ls)"
  using assms by (cases "bids ob" rule: rev_cases) (auto simp: bid_view_def level_pair_def)

lemma level_gone_iff:
  "lvl_total_quantity l - ucast (fill_of q l) = 0 \<longleftrightarrow>
   unat (lvl_total_quantity l) = min (unat q) (unat (lvl_total_quantity l) mod 2 ^ 32)"
proof -
  have "lvl_total_quantity l - ucast (fill_of q l) = 0 \<longleftrightarrow>
      unat (lvl_total_quantity l - ucast (fill_of q l)) = 0"
    by (simp only: unat_eq_0)
  then show ?thesis
    unfolding unat_level_left by (auto simp: min_le_iff_disj intro: le_antisym)
qed

interpretation buy: aggressive_side buy_guard "buy_body tsc" ask_view reported_fills
  "\<lambda>lim p. p \<le> lim" "\<lambda>ob. ladder_inv (asks ob)" buy_frame for tsc
proof (unfold_locales, goal_cases)
  case (1 b lim q)
  then show ?case by (simp add: ask_view_def buy_guard_def ladder_worst_def)
next
  case (2 b p n vs lim q)
  from 2(2) show ?case
    by (rule ask_view_ConsE) (auto simp: buy_guard_def ladder_worst_def)
next
  case (3 b p n vs q)
  from 3(2) obtain l ls where a: "asks b = l # ls" "n = unat (lvl_total_quantity l)"
    by (rule ask_view_ConsE)
  show ?case by (simp add: buy_body_eq [OF 3(1) a(1)] unat_quantity_left a(2))
next
  case (4 b p n vs q)
  from 4(2) obtain l ls where a: "asks b = l # ls" "p = lvl_price_ticks l"
    "n = unat (lvl_total_quantity l)" "vs = map level_pair ls"
    by (rule ask_view_ConsE)
  show ?case
    using level_gone_iff [of l q] unat_level_left [of l q]
    by (simp add: buy_body_eq [OF 4(1) a(1)] a(2-4) ask_view_def level_pair_def Let_def)
next
  case (5 b p n vs q)
  from 5(2) obtain l ls where a: "asks b = l # ls" "p = lvl_price_ticks l"
    "n = unat (lvl_total_quantity l)"
    by (rule ask_view_ConsE)
  show ?case
    using unat_fill_of [of q l]
    by (simp add: buy_body_eq [OF 5(1) a(1)] a(2,3) reported_fills_def emit_match_def)
next
  case (6 b p n vs q)
  from 6(2) obtain l ls where a: "asks b = l # ls"
    by (rule ask_view_ConsE)
  show ?case using 6(1) by (simp add: buy_body_eq [OF 6(1) a] a)
next
  case (7 b p n vs q)
  from 7(2) obtain l ls where a: "asks b = l # ls"
    by (rule ask_view_ConsE)
  show ?case by (simp add: buy_body_eq [OF 7(1) a] emit_match_def)
qed

interpretation sell: aggressive_side sell_guard "sell_body tsc" bid_view reported_fills
  "\<lambda>lim p. lim \<le> p" "\<lambda>ob. ladder_inv (bids ob)" sell_frame for tsc
proof (unfold_locales, goal_cases)
  case (1 b lim q)
  then show ?case by (simp add: bid_view_def sell_guard_def ladder_best_def)
next
  case (2 b p n vs lim q)
  from 2(2) show ?case
    by (rule bid_view_ConsE) (auto simp: sell_guard_def ladder_best_def)
next
  case (3 b p n vs q)
  from 3(2) obtain l ls where a: "bids b = ls @ [l]" "n = unat (lvl_total_quantity l)"
    by (rule bid_view_ConsE)
  show ?case by (simp add: sell_body_eq [OF 3(1) a(1)] unat_quantity_left a(2))
next
  case (4 b p n vs q)
  from 4(2) obtain l ls where a: "bids b = ls @ [l]" "p = lvl_price_ticks l"
    "n = unat (lvl_total_quantity l)" "vs = rev (map level_pair ls)"
    by (rule bid_view_ConsE)
  show ?case
    using level_gone_iff [of l q] unat_level_left [of l q]
    by (simp add: sell_body_eq [OF 4(1) a(1)] a(2-4) bid_view_def level_pair_def Let_def)
next
  case (5 b p n vs q)
  from 5(2) obtain l ls where a: "bids b = ls @ [l]" "p = lvl_price_ticks l"
    "n = unat (lvl_total_quantity l)"
    by (rule bid_view_ConsE)
  show ?case
    using unat_fill_of [of q l]
    by (simp add: sell_body_eq [OF 5(1) a(1)] a(2,3) reported_fills_def emit_match_def)
next
  case (6 b p n vs q)
  from 6(2) obtain l ls where a: "bids b = ls @ [l]"
    by (rule bid_view_ConsE)
  show ?case using 6(1) by (simp add: sell_body_eq [OF 6(1) a] a ladder_inv_append)
next
  case (7 b p n vs q)
  from 7(2) obtain l ls where a: "bids b = ls @ [l]"
    by (rule bid_view_ConsE)
  show ?case by (simp add: sell_body_eq [OF 7(1) a] emit_match_def)
qed

end
