(* ===== verification/Book_Properties.thy ===== *)
theory Book_Properties
  imports Order_Book
begin

text \<open>
  What the order book guarantees: its invariant, the refinement of \<^verbatim>\<open>add_order\<close> by an
  abstract book of natural-number levels, conservation of quantity and price priority of
  the fills, when matching ends, what cancellation does, and how slots move between the
  pool and the book.
\<close>

subsection \<open>The loops, seen from \<^verbatim>\<open>add_order\<close>\<close>

lemma ucast_u32_u64 [simp]: "ucast (ucast (q :: u32) :: u64) = q"
proof -
  have "unat (ucast (ucast q :: u64) :: u32) = unat q"
    using unat_lt_u32 [of q] by (simp add: unat_ucast_mod [where 'b = 32])
  then show ?thesis by (simp only: word_unat_eq_iff)
qed

lemma match_buy_sweep:
  assumes "ladder_inv (asks ob)"
  shows "case sweep (\<lambda>x. x \<le> p) (unat q) (ask_view ob) of
      None \<Rightarrow> match_aggressive_buy tsc q p ob = None
    | Some (fs, r, rest) \<Rightarrow> \<exists>q' ob'. match_aggressive_buy tsc q p ob = Some (ucast (q' :: u32), ob') \<and>
        unat q' = r \<and> ask_view ob' = rest \<and> reported_fills ob' = reported_fills ob @ fs \<and>
        ladder_inv (asks ob') \<and> buy_frame ob' = buy_frame ob"
  using buy.loop_is_sweep [where lim = p and q = q and tsc = tsc, OF assms]
  by (auto simp: match_aggressive_buy_def split: option.splits)

lemma match_sell_sweep:
  assumes "ladder_inv (bids ob)"
  shows "case sweep (\<lambda>x. p \<le> x) (unat q) (bid_view ob) of
      None \<Rightarrow> match_aggressive_sell tsc q p ob = None
    | Some (fs, r, rest) \<Rightarrow> \<exists>q' ob'. match_aggressive_sell tsc q p ob = Some (ucast (q' :: u32), ob') \<and>
        unat q' = r \<and> bid_view ob' = rest \<and> reported_fills ob' = reported_fills ob @ fs \<and>
        ladder_inv (bids ob') \<and> sell_frame ob' = sell_frame ob"
  using sell.loop_is_sweep [where lim = p and q = q and tsc = tsc, OF assms]
  by (auto simp: match_aggressive_sell_def split: option.splits)

subsection \<open>Invariant\<close>

definition uncrossed :: "order_book \<Rightarrow> bool" where
  "uncrossed ob \<longleftrightarrow> (\<forall>b \<in> set (bids ob). \<forall>a \<in> set (asks ob). lvl_price_ticks b < lvl_price_ticks a)"

definition slot_ok :: "u32 \<Rightarrow> bool" where
  "slot_ok s \<longleftrightarrow> (ucast s :: u64) < MAX_ORDERS"

definition pool_inv :: "order_book \<Rightarrow> bool" where
  "pool_inv ob \<longleftrightarrow> spsc_inv MAX_ORDERS (free_list ob) \<and>
     (\<forall>s \<in> set (spsc_contents MAX_ORDERS (free_list ob)). slot_ok s) \<and>
     (\<forall>i. order_id_to_slot ob i = 0xFFFFFFFF \<or> slot_ok (order_id_to_slot ob i))"

definition book_inv :: "order_book \<Rightarrow> bool" where
  "book_inv ob \<longleftrightarrow> ladder_inv (bids ob) \<and> ladder_inv (asks ob) \<and> uncrossed ob \<and> pool_inv ob"

lemma MAX_ORDERS_eq: "MAX_ORDERS = 2 ^ 20" and unat_MAX_ORDERS: "unat MAX_ORDERS = 2 ^ 20"
  by (simp_all add: MAX_ORDERS_def)

lemma MAX_ORDERS_ok: "spsc_capacity_ok MAX_ORDERS"
  by (simp add: spsc_capacity_ok_def MAX_ORDERS_def)

text \<open>Prices present on a side, through its view.\<close>

lemma ask_prices: "lvl_price_ticks ` set (asks ob) = set (map fst (ask_view ob))"
  by (force simp: ask_view_def level_pair_def)

lemma bid_prices: "lvl_price_ticks ` set (bids ob) = set (map fst (bid_view ob))"
  by (force simp: bid_view_def level_pair_def)

lemma uncrossed_views:
  "uncrossed ob \<longleftrightarrow> (\<forall>b \<in> set (map fst (bid_view ob)). \<forall>a \<in> set (map fst (ask_view ob)). b < a)"
  by (simp only: uncrossed_def ball_simps flip: ask_prices bid_prices)

lemma ask_view_hd_least:
  assumes "ladder_inv (asks ob)" and "ask_view ob = v # vs"
  shows "\<forall>x \<in> set (map fst (ask_view ob)). fst v \<le> x"
proof -
  obtain l ls where l: "asks ob = l # ls" "v = level_pair l" "vs = map level_pair ls"
    using assms(2) by (auto simp: ask_view_def)
  show ?thesis using assms(1) by (auto simp: ask_view_def l level_pair_def less_imp_le)
qed

lemma bid_view_hd_greatest:
  assumes "ladder_inv (bids ob)" and "bid_view ob = v # vs"
  shows "\<forall>x \<in> set (map fst (bid_view ob)). x \<le> fst v"
proof -
  obtain l ls where l: "bids ob = ls @ [l]" "v = level_pair l"
    using assms(2) by (cases "bids ob" rule: rev_cases) (auto simp: bid_view_def)
  show ?thesis
    using assms(1) by (auto simp: bid_view_def l level_pair_def ladder_inv_append less_imp_le)
qed

text \<open>The paths through \<^verbatim>\<open>add_order\<close>.\<close>

abbreviation match_side ::
  "(nat \<Rightarrow> u64) \<Rightarrow> side \<Rightarrow> u32 \<Rightarrow> int \<Rightarrow> order_book \<Rightarrow> (u64 \<times> order_book) option" where
  "match_side tsc sd q p ob \<equiv>
     (if sd = Buy then match_aggressive_buy tsc q p ob else match_aggressive_sell tsc q p ob)"

abbreviation bump_id :: "order_book \<Rightarrow> order_book" where
  "bump_id ob \<equiv> ob\<lparr>next_order_id := next_order_id ob + 1\<rparr>"

lemma add_order_cases:
  assumes "add_order tsc sd p q typ ob = Some (oid, ob')"
  obtains (cancel) "typ = Cancel" "oid = next_order_id ob"
      "ob' = snd (cancel_order (word_of_int p) (bump_id ob))"
  | (exhausted) fl where "typ \<noteq> Cancel" "spsc_pop MAX_ORDERS (free_list ob) = (None, fl)"
      "oid = 0" "ob' = (bump_id ob)\<lparr>free_list := fl\<rparr>"
  | (matched) slot fl r ob3 where "typ \<noteq> Cancel"
      "spsc_pop MAX_ORDERS (free_list ob) = (Some slot, fl)"
      "match_side tsc sd q p (fill_slot tsc (next_order_id ob) sd p q typ slot
         ((bump_id ob)\<lparr>free_list := fl\<rparr>)) = Some (r, ob3)"
      "oid = next_order_id ob" "ob' = rest_order sd p (ucast r) slot ob3"
proof (cases "typ = Cancel")
  case True
  then show thesis using assms cancel by (auto simp: add_order_def Let_def)
next
  case False
  obtain s fl where pop: "spsc_pop MAX_ORDERS (free_list ob) = (s, fl)" by fastforce
  show thesis
  proof (cases s)
    case None
    then show thesis using assms False pop exhausted by (simp add: add_order_def Let_def)
  next
    case (Some slot)
    then show thesis
      using assms False pop matched by (auto simp: add_order_def Let_def split: if_splits)
  qed
qed

lemma views_fill_slot [simp]:
  "bids (fill_slot tsc i sd p q typ s ob) = bids ob"
  "asks (fill_slot tsc i sd p q typ s ob) = asks ob"
  "free_list (fill_slot tsc i sd p q typ s ob) = free_list ob"
  "next_order_id (fill_slot tsc i sd p q typ s ob) = next_order_id ob"
  "matches (fill_slot tsc i sd p q typ s ob) = matches ob"
  "symbol_id (fill_slot tsc i sd p q typ s ob) = symbol_id ob"
  by (simp_all add: fill_slot_def)

lemma ask_view_cong [simp]:
  "ask_view (ob\<lparr>next_order_id := i\<rparr>) = ask_view ob"
  "ask_view (ob\<lparr>free_list := fl\<rparr>) = ask_view ob"
  "ask_view (ob\<lparr>bids := b\<rparr>) = ask_view ob"
  "ask_view (ob\<lparr>order_pool := op\<rparr>) = ask_view ob"
  "ask_view (fill_slot tsc oid sd p q typ s ob) = ask_view ob"
  by (simp_all add: ask_view_def)

lemma bid_view_cong [simp]:
  "bid_view (ob\<lparr>next_order_id := i\<rparr>) = bid_view ob"
  "bid_view (ob\<lparr>free_list := fl\<rparr>) = bid_view ob"
  "bid_view (ob\<lparr>asks := a\<rparr>) = bid_view ob"
  "bid_view (ob\<lparr>order_pool := op\<rparr>) = bid_view ob"
  "bid_view (fill_slot tsc oid sd p q typ s ob) = bid_view ob"
  by (simp_all add: bid_view_def)

lemma reported_fills_cong [simp]:
  "reported_fills (ob\<lparr>next_order_id := i\<rparr>) = reported_fills ob"
  "reported_fills (ob\<lparr>free_list := fl\<rparr>) = reported_fills ob"
  "reported_fills (ob\<lparr>bids := b\<rparr>) = reported_fills ob"
  "reported_fills (ob\<lparr>asks := a\<rparr>) = reported_fills ob"
  "reported_fills (ob\<lparr>order_pool := op\<rparr>) = reported_fills ob"
  "reported_fills (fill_slot tsc oid sd p q typ s ob) = reported_fills ob"
  by (simp_all add: reported_fills_def)

text \<open>What a matching loop that returns has done, for both sides at once.\<close>

definition side_view :: "side \<Rightarrow> order_book \<Rightarrow> (int \<times> nat) list" where
  "side_view sd ob = (case sd of Buy \<Rightarrow> bid_view ob | Sell \<Rightarrow> ask_view ob)"

definition opposite :: "side \<Rightarrow> side" where
  "opposite sd = (case sd of Buy \<Rightarrow> Sell | Sell \<Rightarrow> Buy)"

definition within_limit :: "side \<Rightarrow> int \<Rightarrow> int \<Rightarrow> bool" where
  "within_limit sd lim x \<longleftrightarrow> (case sd of Buy \<Rightarrow> x \<le> lim | Sell \<Rightarrow> lim \<le> x)"

definition same_rest :: "side \<Rightarrow> order_book \<Rightarrow> order_book \<Rightarrow> bool" where
  "same_rest sd ob ob' \<longleftrightarrow>
     (case sd of Buy \<Rightarrow> buy_frame ob' = buy_frame ob | Sell \<Rightarrow> sell_frame ob' = sell_frame ob)"

lemma side_simps [simp]:
  "side_view Buy ob = bid_view ob" "side_view Sell ob = ask_view ob"
  "opposite Buy = Sell" "opposite Sell = Buy"
  "within_limit Buy lim x \<longleftrightarrow> x \<le> lim" "within_limit Sell lim x \<longleftrightarrow> lim \<le> x"
  by (simp_all add: side_view_def opposite_def within_limit_def)

lemma match_side_sweep:
  assumes "ladder_inv (bids ob)" and "ladder_inv (asks ob)"
  shows "case sweep (within_limit sd p) (unat q) (side_view (opposite sd) ob) of
      None \<Rightarrow> match_side tsc sd q p ob = None
    | Some (fs, r, rest) \<Rightarrow> \<exists>q' ob'. match_side tsc sd q p ob = Some (ucast (q' :: u32), ob') \<and>
        unat q' = r \<and> side_view (opposite sd) ob' = rest \<and>
        reported_fills ob' = reported_fills ob @ fs \<and>
        ladder_inv (bids ob') \<and> ladder_inv (asks ob') \<and> same_rest sd ob ob'"
proof (cases sd)
  case Buy
  have lim: "within_limit Buy p = (\<lambda>x. x \<le> p)" by (simp add: fun_eq_iff)
  show ?thesis
    using match_buy_sweep [where p = p and q = q and tsc = tsc, OF assms(2)] assms(1)
    by (auto simp: Buy lim same_rest_def split: option.splits)
next
  case Sell
  have lim: "within_limit Sell p = (\<lambda>x. p \<le> x)" by (simp add: fun_eq_iff)
  show ?thesis
    using match_sell_sweep [where p = p and q = q and tsc = tsc, OF assms(1)] assms(2)
    by (auto simp: Sell lim same_rest_def split: option.splits)
qed

lemma match_side_SomeD:
  assumes "ladder_inv (bids ob)" and "ladder_inv (asks ob)"
    and "match_side tsc sd q p ob = Some (r, ob')"
  obtains q' fs rest where "r = ucast (q' :: u32)"
    "sweep (within_limit sd p) (unat q) (side_view (opposite sd) ob) = Some (fs, unat q', rest)"
    "side_view (opposite sd) ob' = rest" "reported_fills ob' = reported_fills ob @ fs"
    "ladder_inv (bids ob')" "ladder_inv (asks ob')" "same_rest sd ob ob'"
  using match_side_sweep [OF assms(1,2), where sd = sd and p = p and q = q and tsc = tsc] assms(3) that
  by (auto split: option.splits)

subsection \<open>Every operation keeps the invariant\<close>

lemma spsc_pop_SomeD:
  assumes "spsc_inv cap q" and "spsc_pop cap q = (Some x, q')"
  shows "spsc_contents cap q = x # spsc_contents cap q'" and "spsc_inv cap q'"
  using spsc.pop_result [OF assms(1)] spsc.pop_elems [OF assms(1)] spsc_pop_inv [OF assms(1)] assms(2)
  by (auto split: list.splits)

lemma spsc_pop_NoneD:
  assumes "spsc_inv cap q" and "spsc_pop cap q = (None, q')"
  shows "spsc_contents cap q = []" and "q' = q"
  using spsc.pop_result [OF assms(1)] assms(2)
  by (auto simp: spsc_pop_def Let_def split: list.splits if_splits)

lemma free_push_ok:
  assumes "spsc_inv MAX_ORDERS fl" and "\<forall>x \<in> set (spsc_contents MAX_ORDERS fl). slot_ok x"
    and "slot_ok s"
  shows "spsc_inv MAX_ORDERS (snd (spsc_push MAX_ORDERS s fl)) \<and>
    (\<forall>x \<in> set (spsc_contents MAX_ORDERS (snd (spsc_push MAX_ORDERS s fl))). slot_ok x)"
  using assms spsc_push_inv [OF assms(1)] spsc.push_elems [OF assms(1)] by auto

lemma pool_inv_fill_slot:
  assumes "pool_inv ob" and "spsc_pop MAX_ORDERS (free_list ob) = (Some slot, fl)"
  shows "pool_inv (fill_slot tsc oid sd p q typ slot ((bump_id ob)\<lparr>free_list := fl\<rparr>)) \<and> slot_ok slot"
proof -
  have "spsc_inv MAX_ORDERS (free_list ob)" using assms(1) by (simp add: pool_inv_def)
  note pop = spsc_pop_SomeD [OF this assms(2)]
  have slot: "slot_ok slot" using assms(1) pop(1) by (simp add: pool_inv_def)
  have "order_id_to_slot (fill_slot tsc oid sd p q typ slot ((bump_id ob)\<lparr>free_list := fl\<rparr>)) i
      \<in> {slot, order_id_to_slot ob i}" for i
    by (simp add: fill_slot_def)
  with slot pop show ?thesis using assms(1) unfolding pool_inv_def by fastforce
qed

lemma pool_inv_same_rest:
  "pool_inv ob \<Longrightarrow> same_rest sd ob ob' \<Longrightarrow> pool_inv ob'"
  unfolding pool_inv_def same_rest_def by (cases sd) simp_all

lemma upsert_prices:
  "ladder_inv ls \<Longrightarrow>
   lvl_price_ticks ` set (snd (ladder_upsert p q ls)) = insert p (lvl_price_ticks ` set ls)"
  by (simp add: ladder_upsert_ref set_upsert_ref_prices)

lemma side_prices:
  "set (map fst (side_view Buy ob)) = lvl_price_ticks ` set (bids ob)"
  "set (map fst (side_view Sell ob)) = lvl_price_ticks ` set (asks ob)"
  by (simp_all only: side_simps ask_prices bid_prices)

lemma uncrossed_side:
  "uncrossed ob \<longleftrightarrow> (\<forall>x \<in> set (map fst (side_view sd ob)).
     \<forall>y \<in> set (map fst (side_view (opposite sd) ob)). \<not> within_limit sd x y)"
  by (cases sd) (auto simp: uncrossed_views not_le)

text \<open>After a loop that leaves some quantity, nothing on the other side is within the limit.\<close>

lemma no_crossing_left:
  assumes "ladder_inv (bids ob)" and "ladder_inv (asks ob)"
    and "side_view (opposite sd) ob = [] \<or>
      \<not> within_limit sd p (fst (hd (side_view (opposite sd) ob)))"
  shows "\<forall>y \<in> set (map fst (side_view (opposite sd) ob)). \<not> within_limit sd p y"
proof (cases "side_view (opposite sd) ob")
  case (Cons v vs)
  show ?thesis
  proof (cases sd)
    case Buy
    then show ?thesis
      using ask_view_hd_least [OF assms(2), of v vs] assms(3) Cons by fastforce
  next
    case Sell
    then show ?thesis
      using bid_view_hd_greatest [OF assms(1), of v vs] assms(3) Cons by fastforce
  qed
qed simp

lemma rest_order_simps:
  "side_view (opposite sd) (rest_order sd p r slot ob) = side_view (opposite sd) ob"
  "reported_fills (rest_order sd p r slot ob) = reported_fills ob"
  "next_order_id (rest_order sd p r slot ob) = next_order_id ob"
  by (cases sd; simp add: rest_order_def Let_def)+

lemma rest_order_ladders:
  assumes "ladder_inv (bids ob)" and "ladder_inv (asks ob)"
  shows "ladder_inv (bids (rest_order sd p r slot ob))" "ladder_inv (asks (rest_order sd p r slot ob))"
  using assms by (cases sd; simp add: rest_order_def Let_def ladder_upsert_inv)+

lemma rest_order_prices:
  assumes "ladder_inv (bids ob)" and "ladder_inv (asks ob)"
  shows "set (map fst (side_view sd (rest_order sd p r slot ob))) =
    (if r = 0 then set (map fst (side_view sd ob)) else insert p (set (map fst (side_view sd ob))))"
  using assms
  by (cases sd) (simp_all only: side_prices, simp_all add: rest_order_def Let_def upsert_prices)

lemma pool_inv_rest_order:
  assumes "pool_inv ob" and "slot_ok slot"
  shows "pool_inv (rest_order sd p r slot ob)"
  using assms free_push_ok [of "free_list ob" slot] unfolding pool_inv_def
  by (cases sd) (simp_all add: rest_order_def Let_def)

lemma remove_if_empty_subset:
  "ladder_inv ls \<Longrightarrow> set (remove_if_empty p ls) \<subseteq> set ls"
  by (auto simp: remove_if_empty_ref remove_ref_def)

lemma cancel_order_cases:
  obtains (refused) "cancel_order oid ob = (False, ob)"
  | (accepted) slot where "slot = order_id_to_slot ob (oid AND (MAX_ORDERS - 1))" "slot_ok slot"
      "ord_order_id (order_pool ob slot) = oid"
      "cancel_order oid ob = (True, ob
         \<lparr>bids := (if ord_side (order_pool ob slot) = Buy
             then remove_if_empty (ord_price_ticks (order_pool ob slot)) (bids ob) else bids ob),
          asks := (if ord_side (order_pool ob slot) = Buy then asks ob
             else remove_if_empty (ord_price_ticks (order_pool ob slot)) (asks ob)),
          free_list := snd (spsc_push MAX_ORDERS slot (free_list ob))\<rparr>)"
proof -
  define slot where "slot = order_id_to_slot ob (oid AND (MAX_ORDERS - 1))"
  show thesis
  proof (cases "slot_ok slot \<and> ord_order_id (order_pool ob slot) = oid")
    case True
    show thesis
      by (rule accepted [OF slot_def])
        (use True in \<open>simp_all add: cancel_order_def Let_def slot_ok_def not_le flip: slot_def\<close>)
  next
    case False
    then have "cancel_order oid ob = (False, ob)"
      by (auto simp: cancel_order_def Let_def slot_ok_def not_less simp flip: slot_def)
    then show thesis by (rule refused)
  qed
qed

lemma cancel_order_inv:
  assumes "book_inv ob"
  shows "book_inv (snd (cancel_order oid ob))"
proof (cases rule: cancel_order_cases [of oid ob])
  case refused
  then show ?thesis using assms by simp
next
  case (accepted slot)
  let ?o = "order_pool ob slot"
  have "pool_inv (snd (cancel_order oid ob))"
    using assms free_push_ok [of "free_list ob" slot] accepted(2)
    unfolding accepted(4) book_inv_def pool_inv_def by simp
  moreover have "ladder_inv (bids (snd (cancel_order oid ob)))"
    "ladder_inv (asks (snd (cancel_order oid ob)))"
    using assms unfolding accepted(4) book_inv_def by (simp_all add: remove_if_empty_inv)
  moreover have "set (bids (snd (cancel_order oid ob))) \<subseteq> set (bids ob)"
    "set (asks (snd (cancel_order oid ob))) \<subseteq> set (asks ob)"
    using assms remove_if_empty_subset unfolding accepted(4) book_inv_def by auto
  ultimately show ?thesis
    using assms unfolding book_inv_def uncrossed_def by blast
qed

lemma book_inv_matched:
  assumes "ladder_inv (bids ob)" "ladder_inv (asks ob)" "uncrossed ob" "pool_inv ob" "slot_ok slot"
    and "match_side tsc sd q p ob = Some (r, ob3)"
  shows "book_inv (rest_order sd p (ucast r) slot ob3)"
proof -
  obtain q' fs rest where r: "r = ucast (q' :: u32)"
    and sw: "sweep (within_limit sd p) (unat q) (side_view (opposite sd) ob) = Some (fs, unat q', rest)"
    and v3: "side_view (opposite sd) ob3 = rest"
    and inv3: "ladder_inv (bids ob3)" "ladder_inv (asks ob3)" and same: "same_rest sd ob ob3"
    using match_side_SomeD [OF assms(1,2,6)] .
  let ?ob' = "rest_order sd p (ucast r) slot ob3"
  have own: "side_view sd ob3 = side_view sd ob"
    using same by (cases sd) (auto simp: same_rest_def bid_view_def ask_view_def)
  have old: "\<forall>x \<in> set (map fst (side_view sd ob)). \<forall>y \<in> set (map fst rest). \<not> within_limit sd x y"
    using assms(3) sweep_prefix [OF sw] unfolding uncrossed_side [of ob sd] by blast
  have new: "\<forall>y \<in> set (map fst rest). \<not> within_limit sd p y" if "q' \<noteq> 0"
    using no_crossing_left [OF inv3, of sd p] sweep_exhausts [OF sw] that v3
    by (simp add: unat_gt_0)
  have views: "set (map fst (side_view sd ?ob')) =
      (if q' = 0 then set (map fst (side_view sd ob)) else insert p (set (map fst (side_view sd ob))))"
    "side_view (opposite sd) ?ob' = rest"
    using rest_order_prices [OF inv3, of sd p q' slot] by (simp_all only: own r rest_order_simps v3 ucast_u32_u64)
  have "uncrossed ?ob'"
    unfolding uncrossed_side [of ?ob' sd] views using old new by (auto split: if_splits)
  moreover have "pool_inv ?ob'"
    using pool_inv_rest_order pool_inv_same_rest [OF assms(4) same] assms(5) by simp
  ultimately show ?thesis
    using rest_order_ladders [OF inv3] by (simp add: book_inv_def)
qed

lemma add_order_inv:
  assumes "book_inv ob" and "add_order tsc sd p q typ ob = Some (oid, ob')"
  shows "book_inv ob'"
  using assms(2)
proof (cases rule: add_order_cases)
  case cancel
  have "book_inv (bump_id ob)"
    using assms(1) by (simp add: book_inv_def uncrossed_def pool_inv_def)
  then show ?thesis using cancel(3) by (simp add: cancel_order_inv)
next
  case (exhausted fl)
  have "fl = free_list ob"
    using spsc_pop_NoneD(2) [OF _ exhausted(2)] assms(1) by (simp add: book_inv_def pool_inv_def)
  then show ?thesis
    using assms(1) exhausted(4) by (simp add: book_inv_def uncrossed_def pool_inv_def)
next
  case (matched slot fl r ob3)
  have inv: "ladder_inv (bids ob)" "ladder_inv (asks ob)" "uncrossed ob" "pool_inv ob"
    using assms(1) by (simp_all add: book_inv_def)
  note pool = pool_inv_fill_slot [OF inv(4) matched(2)]
  show ?thesis
    unfolding matched(5)
    by (rule book_inv_matched [OF _ _ _ _ _ matched(3)])
      (use inv pool in \<open>simp_all add: uncrossed_def\<close>)
qed

subsection \<open>The fresh book\<close>

lemma slot_ok_of_nat: "i < 2 ^ 20 \<Longrightarrow> slot_ok (of_nat i)"
  by (simp add: slot_ok_def word_less_nat_alt unat_MAX_ORDERS unat_of_nat)

lemma new_free_list:
  "spsc_inv MAX_ORDERS (free_list (order_book_new sid d))"
  "spsc_contents MAX_ORDERS (free_list (order_book_new sid d)) = map of_nat [0..<2 ^ 20 - 1]"
proof -
  note inv = spsc_new_inv [OF MAX_ORDERS_ok, of d]
  show "spsc_inv MAX_ORDERS (free_list (order_book_new sid d))"
    unfolding order_book_new_def by (simp add: spsc.push_all_inv [OF inv])
  have "take (2 ^ 20 - 1) [0..<2 ^ 20] = [0..<2 ^ 20 - 1 :: nat]"
    by (simp only: take_upt) simp
  then show "spsc_contents MAX_ORDERS (free_list (order_book_new sid d)) =
      map of_nat [0..<2 ^ 20 - 1]"
    unfolding order_book_new_def
    by (simp only: order_book.simps spsc.push_all_elems [OF inv] spsc_new_contents
        unat_MAX_ORDERS take_map append_Nil list.size diff_zero)
qed

lemma new_book_simps [simp]:
  "bids (order_book_new sid d) = []" "asks (order_book_new sid d) = []"
  "matches (order_book_new sid d) = []" "next_order_id (order_book_new sid d) = 1"
  "order_id_to_slot (order_book_new sid d) i = 0xFFFFFFFF"
  "bid_view (order_book_new sid d) = []" "ask_view (order_book_new sid d) = []"
  "reported_fills (order_book_new sid d) = []"
  by (simp_all add: order_book_new_def bid_view_def ask_view_def reported_fills_def)

lemma book_inv_new: "book_inv (order_book_new sid d)"
  using new_free_list [of sid d] by (auto simp: book_inv_def uncrossed_def pool_inv_def slot_ok_of_nat)

subsection \<open>Runs\<close>

datatype book_op = Add side int u32 order_type | CancelOrder u64

definition book_step :: "(nat \<Rightarrow> u64) \<Rightarrow> book_op \<Rightarrow> order_book \<Rightarrow> order_book option" where
  "book_step tsc op ob = (case op of
     Add sd p q typ \<Rightarrow> map_option snd (add_order tsc sd p q typ ob)
   | CancelOrder oid \<Rightarrow> Some (snd (cancel_order oid ob)))"

fun run_ops :: "(nat \<Rightarrow> u64) \<Rightarrow> book_op list \<Rightarrow> order_book \<Rightarrow> order_book option" where
  "run_ops tsc [] ob = Some ob"
| "run_ops tsc (op # ops) ob =
     (case book_step tsc op ob of None \<Rightarrow> None | Some ob' \<Rightarrow> run_ops tsc ops ob')"

lemma book_step_inv: "book_inv ob \<Longrightarrow> book_step tsc op ob = Some ob' \<Longrightarrow> book_inv ob'"
  by (cases op) (auto simp: book_step_def intro: add_order_inv cancel_order_inv)

lemma run_ops_inv: "book_inv ob \<Longrightarrow> run_ops tsc ops ob = Some ob' \<Longrightarrow> book_inv ob'"
  by (induction ops arbitrary: ob) (auto split: option.splits intro: book_step_inv)

lemma run_ops_append:
  "run_ops tsc (xs @ ys) ob = (case run_ops tsc xs ob of None \<Rightarrow> None | Some ob' \<Rightarrow> run_ops tsc ys ob')"
  by (induction xs arbitrary: ob) (auto split: option.splits)

subsection \<open>The abstract book\<close>

text \<open>
  An abstract book gives each side its levels as (price, quantity) in natural numbers, best
  price first. An order is swept against the other side, and what is left joins its own
  side at its limit price.
\<close>

fun rest_level :: "side \<Rightarrow> int \<Rightarrow> nat \<Rightarrow> (int \<times> nat) list \<Rightarrow> (int \<times> nat) list" where
  "rest_level sd p q [] = [(p, q)]"
| "rest_level sd p q ((x, n) # ls) =
     (if x = p then (x, n + q) # ls
      else if within_limit sd p x then (p, q) # (x, n) # ls
      else (x, n) # rest_level sd p q ls)"

definition spec_add ::
  "side \<Rightarrow> int \<Rightarrow> nat \<Rightarrow> (side \<Rightarrow> (int \<times> nat) list) \<Rightarrow>
   ((int \<times> nat) list \<times> (side \<Rightarrow> (int \<times> nat) list)) option" where
  "spec_add sd p q bk =
     map_option (\<lambda>(fs, r, rest).
         (fs, bk(opposite sd := rest, sd := (if r = 0 then bk sd else rest_level sd p r (bk sd)))))
       (sweep (within_limit sd p) q (bk (opposite sd)))"

definition abs_book :: "order_book \<Rightarrow> side \<Rightarrow> (int \<times> nat) list" where
  "abs_book ob sd = side_view sd ob"

text \<open>\<^verbatim>\<open>upsert\<close> on the ladder is \<open>rest_level\<close> on the view, as long as the 64-bit total of the
  level does not overflow.\<close>

definition room_for :: "nat \<Rightarrow> ladder \<Rightarrow> bool" where
  "room_for q ls \<longleftrightarrow> (\<forall>l \<in> set ls. unat (lvl_total_quantity l) + q < 2 ^ 64)"

lemma level_pair_new [simp]:
  "level_pair \<lparr>lvl_price_ticks = p, lvl_total_quantity = ucast (r :: u32), lvl_order_count = c,
     lvl_padding = d\<rparr> = (p, unat r)"
  by (simp add: level_pair_def)

lemma level_pair_add:
  assumes "unat (lvl_total_quantity l) + unat r < 2 ^ 64"
  shows "level_pair (l\<lparr>lvl_total_quantity := lvl_total_quantity l + ucast (r :: u32),
      lvl_order_count := c\<rparr>) = (lvl_price_ticks l, unat (lvl_total_quantity l) + unat r)"
  using assms by (simp add: level_pair_def unat_plus_word)

lemma ask_upsert_view:
  assumes "ladder_inv ls" and "room_for (unat r) ls"
  shows "map level_pair (upsert_ref p r ls) = rest_level Sell p (unat r) (map level_pair ls)"
  using assms
proof (induction ls)
  case (Cons l ls)
  then have "level_pair (l\<lparr>lvl_total_quantity := lvl_total_quantity l + ucast r,
      lvl_order_count := lvl_order_count l + 1\<rparr>) =
      (lvl_price_ticks l, unat (lvl_total_quantity l) + unat r)"
    by (intro level_pair_add) (simp add: room_for_def)
  then show ?case
    using Cons by (auto simp: room_for_def) (auto simp: level_pair_def)
qed simp

lemma rest_level_snoc_behind:
  "y < p \<Longrightarrow> rest_level Buy p q (xs @ [(y, n)]) = rest_level Buy p q xs @ [(y, n)]"
  by (induction xs) auto

lemma rest_level_snoc_here:
  "\<forall>x \<in> fst ` set xs. p < x \<Longrightarrow> rest_level Buy p q (xs @ [(p, n)]) = xs @ [(p, n + q)]"
  by (induction xs) auto

lemma rest_level_end: "\<forall>x \<in> fst ` set xs. p < x \<Longrightarrow> rest_level Buy p q xs = xs @ [(p, q)]"
  by (induction xs) auto

lemma bid_upsert_view:
  assumes "ladder_inv ls" and "room_for (unat r) ls"
  shows "rev (map level_pair (upsert_ref p r ls)) = rest_level Buy p (unat r) (rev (map level_pair ls))"
  using assms
proof (induction ls)
  case (Cons l ls)
  have pair: "level_pair l = (lvl_price_ticks l, unat (lvl_total_quantity l))"
    by (simp add: level_pair_def)
  have above: "\<forall>x \<in> fst ` set (rev (map level_pair ls)). lvl_price_ticks l < x"
    using Cons.prems(1) by (auto simp: level_pair_def)
  consider "lvl_price_ticks l < p" | "lvl_price_ticks l = p" | "p < lvl_price_ticks l" by linarith
  then show ?case
  proof cases
    case 1
    then show ?thesis
      using Cons by (simp add: room_for_def pair rest_level_snoc_behind)
  next
    case 2
    then show ?thesis
      using rest_level_snoc_here [of "rev (map level_pair ls)" p] above Cons.prems(2)
      by (simp add: room_for_def level_pair_add pair)
  next
    case 3
    then have "\<forall>x \<in> fst ` set (rev (map level_pair (l # ls))). p < x"
      using above by (auto simp: pair)
    then show ?thesis using 3 rest_level_end [of "rev (map level_pair (l # ls))" p] by simp
  qed
qed simp

definition own_ladder :: "side \<Rightarrow> order_book \<Rightarrow> ladder" where
  "own_ladder sd ob = (case sd of Buy \<Rightarrow> bids ob | Sell \<Rightarrow> asks ob)"

lemma rest_order_view:
  assumes "ladder_inv (own_ladder sd ob)" and "room_for (unat r) (own_ladder sd ob)"
  shows "side_view sd (rest_order sd p r slot ob) =
    (if r = 0 then side_view sd ob else rest_level sd p (unat r) (side_view sd ob))"
proof (cases sd)
  case Buy
  then show ?thesis
    using bid_upsert_view [of "bids ob" r p] assms
    by (simp add: rest_order_def Let_def bid_view_def ladder_upsert_ref own_ladder_def)
next
  case Sell
  then show ?thesis
    using ask_upsert_view [of "asks ob" r p] assms
    by (simp add: rest_order_def Let_def ask_view_def ladder_upsert_ref own_ladder_def)
qed

lemma room_for_mono: "room_for q ls \<Longrightarrow> r \<le> q \<Longrightarrow> room_for r ls"
  by (force simp: room_for_def)

lemma own_side_unchanged:
  assumes "same_rest sd ob ob'"
  shows "own_ladder sd ob' = own_ladder sd ob" "side_view sd ob' = side_view sd ob"
  using assms by (cases sd; auto simp: same_rest_def own_ladder_def bid_view_def ask_view_def)+

lemma add_order_pool:
  assumes "typ \<noteq> Cancel" and "spsc_inv MAX_ORDERS (free_list ob)"
    and "spsc_contents MAX_ORDERS (free_list ob) \<noteq> []"
  obtains slot fl where "spsc_pop MAX_ORDERS (free_list ob) = (Some slot, fl)"
    "add_order tsc sd p q typ ob =
       map_option (\<lambda>(r, ob3). (next_order_id ob, rest_order sd p (ucast r) slot ob3))
         (match_side tsc sd q p (fill_slot tsc (next_order_id ob) sd p q typ slot
            ((bump_id ob)\<lparr>free_list := fl\<rparr>)))"
proof -
  obtain slot fl where pop: "spsc_pop MAX_ORDERS (free_list ob) = (Some slot, fl)"
    using spsc.pop_result [OF assms(2)] assms(3)
    by (cases "spsc_pop MAX_ORDERS (free_list ob)") (auto split: list.splits)
  show thesis
    by (rule that [OF pop]) (use pop assms(1) in \<open>simp add: add_order_def Let_def\<close>)
qed

lemma add_order_spec:
  assumes "book_inv ob" and "typ \<noteq> Cancel" and "spsc_contents MAX_ORDERS (free_list ob) \<noteq> []"
    and "room_for (unat q) (own_ladder sd ob)"
  shows "case spec_add sd p (unat q) (abs_book ob) of
      None \<Rightarrow> add_order tsc sd p q typ ob = None
    | Some (fs, bk) \<Rightarrow> \<exists>ob'. add_order tsc sd p q typ ob = Some (next_order_id ob, ob') \<and>
        abs_book ob' = bk \<and> reported_fills ob' = reported_fills ob @ fs"
proof -
  have inv: "ladder_inv (bids ob)" "ladder_inv (asks ob)" "spsc_inv MAX_ORDERS (free_list ob)"
    using assms(1) by (simp_all add: book_inv_def pool_inv_def)
  obtain slot fl where
    add: "add_order tsc sd p q typ ob =
       map_option (\<lambda>(r, ob3). (next_order_id ob, rest_order sd p (ucast r) slot ob3))
         (match_side tsc sd q p (fill_slot tsc (next_order_id ob) sd p q typ slot
            ((bump_id ob)\<lparr>free_list := fl\<rparr>)))"
    using add_order_pool [OF assms(2) inv(3) assms(3), of tsc sd p q] by metis
  define ob2 where "ob2 = fill_slot tsc (next_order_id ob) sd p q typ slot
      ((bump_id ob)\<lparr>free_list := fl\<rparr>)"
  have ob2: "ladder_inv (bids ob2)" "ladder_inv (asks ob2)" "side_view s ob2 = side_view s ob"
    "own_ladder s ob2 = own_ladder s ob" "reported_fills ob2 = reported_fills ob" for s
    using inv(1,2) by (cases s; simp add: ob2_def own_ladder_def)+
  note add2 = add [folded ob2_def]
  show ?thesis
  proof (cases "sweep (within_limit sd p) (unat q) (side_view (opposite sd) ob)")
    case None
    then have "match_side tsc sd q p ob2 = None"
      using match_side_sweep [OF ob2(1,2), where sd = sd and p = p and q = q and tsc = tsc]
      by (simp add: ob2(3))
    then show ?thesis
      using None by (simp add: add2 spec_add_def abs_book_def)
  next
    case (Some res)
    then obtain fs r rest where sw:
      "sweep (within_limit sd p) (unat q) (side_view (opposite sd) ob) = Some (fs, r, rest)"
      by (metis prod_cases3)
    obtain q' ob3 where m: "match_side tsc sd q p ob2 = Some (ucast (q' :: u32), ob3)"
      "unat q' = r" "side_view (opposite sd) ob3 = rest"
      "reported_fills ob3 = reported_fills ob @ fs"
      "ladder_inv (bids ob3)" "ladder_inv (asks ob3)" "same_rest sd ob2 ob3"
      using match_side_sweep [OF ob2(1,2), where sd = sd and p = p and q = q and tsc = tsc]
      by (auto simp: ob2(3,5) sw)
    have own: "own_ladder sd ob3 = own_ladder sd ob" "side_view sd ob3 = side_view sd ob"
      using own_side_unchanged [OF m(7)] ob2(3,4) by simp_all
    have "r \<le> unat q" using sweep_conserve [OF sw] by simp
    then have room: "room_for (unat q') (own_ladder sd ob3)"
      using room_for_mono [OF assms(4)] by (simp add: own m(2))
    have linv: "ladder_inv (own_ladder sd ob3)"
      using m(5,6) by (cases sd) (simp_all add: own_ladder_def)
    let ?ob' = "rest_order sd p q' slot ob3"
    have "abs_book ?ob' = (abs_book ob)(opposite sd := rest,
        sd := (if r = 0 then abs_book ob sd else rest_level sd p r (abs_book ob sd)))"
    proof
      fix s
      show "abs_book ?ob' s = ((abs_book ob)(opposite sd := rest,
          sd := (if r = 0 then abs_book ob sd else rest_level sd p r (abs_book ob sd)))) s"
        using rest_order_view [OF linv room, of p slot] rest_order_simps(1) [of sd p q' slot ob3]
          m(2,3) own(2)
        by (cases s; cases sd) (auto simp: abs_book_def unat_eq_0)
    qed
    then show ?thesis
      using m(1,4) rest_order_simps(2) [of sd p q' slot ob3]
      by (simp add: add2 spec_add_def sw abs_book_def)
  qed
qed

subsection \<open>Best prices\<close>

lemma book_inv_best_prices:
  assumes "book_inv ob"
  shows "ladder_inv (bids ob) \<and> ladder_inv (asks ob) \<and>
    (\<forall>b. best_bid ob = Some b \<longrightarrow> (\<forall>l \<in> set (bids ob). lvl_price_ticks l \<le> lvl_price_ticks b)) \<and>
    (\<forall>a. best_ask ob = Some a \<longrightarrow> (\<forall>l \<in> set (asks ob). lvl_price_ticks a \<le> lvl_price_ticks l)) \<and>
    (\<forall>b a. best_bid ob = Some b \<longrightarrow> best_ask ob = Some a \<longrightarrow> lvl_price_ticks b < lvl_price_ticks a) \<and>
    (\<forall>s. spread_ticks ob = Some s \<longrightarrow> 0 < s)"
proof -
  have inv: "ladder_inv (bids ob)" "ladder_inv (asks ob)" "uncrossed ob"
    using assms by (simp_all add: book_inv_def)
  have bid: "b \<in> set (bids ob) \<and> (\<forall>l \<in> set (bids ob). lvl_price_ticks l \<le> lvl_price_ticks b)"
    if "best_bid ob = Some b" for b
    using ladder_best_Some [OF inv(1), of b] that
    by (auto simp: best_bid_def ladder_best_def split: if_splits)
  have ask: "a \<in> set (asks ob) \<and> (\<forall>l \<in> set (asks ob). lvl_price_ticks a \<le> lvl_price_ticks l)"
    if "best_ask ob = Some a" for a
    using ladder_worst_Some [OF inv(2), of a] that
    by (auto simp: best_ask_def ladder_worst_def split: if_splits)
  have cross: "lvl_price_ticks b < lvl_price_ticks a"
    if "best_bid ob = Some b" "best_ask ob = Some a" for b a
    using bid [OF that(1)] ask [OF that(2)] inv(3) by (simp add: uncrossed_def)
  moreover have "0 < s" if "spread_ticks ob = Some s" for s
    using that cross by (auto simp: spread_ticks_def INT64_MAX_def split: option.splits if_splits)
  ultimately show ?thesis using inv bid ask by blast
qed

end
