(* ===== verification/Book_Runs.thy ===== *)
theory Book_Runs
  imports Book_Properties
begin

text \<open>
  Lemmas on sequences of operations: how large a level can get, how the pool shrinks, the
  abstract run that a sequence of submissions refines, and the closed form of the fresh
  book on which runs are evaluated.
\<close>

subsection \<open>Level totals\<close>

text \<open>Every level of both sides holds something, and at most \<open>n\<close>.\<close>

definition levels_within :: "nat \<Rightarrow> (side \<Rightarrow> (int \<times> nat) list) \<Rightarrow> bool" where
  "levels_within n bk \<longleftrightarrow> (\<forall>sd. \<forall>l \<in> set (bk sd). 0 < snd l \<and> snd l \<le> n)"

lemma sweep_rest_bound:
  "sweep ok q ls = Some (fs, r, rest) \<Longrightarrow> \<forall>l \<in> set ls. snd l \<le> n \<Longrightarrow> \<forall>l \<in> set rest. snd l \<le> n"
proof (induction ok q ls arbitrary: fs r rest rule: sweep.induct)
  case (2 ok q p m ls)
  then show ?case by (auto split: if_splits)
qed auto

lemma rest_level_within:
  "\<forall>l \<in> set ls. 0 < snd l \<and> snd l \<le> n \<Longrightarrow> 0 < q \<Longrightarrow>
   \<forall>l \<in> set (rest_level sd p q ls). 0 < snd l \<and> snd l \<le> n + q"
  by (induction sd p q ls rule: rest_level.induct) (auto intro: trans_le_add1)

lemma spec_add_within:
  assumes "spec_add sd p q bk = Some (fs, bk')" and "levels_within n bk"
  shows "levels_within (n + q) bk'"
proof -
  obtain r rest where sw: "sweep (within_limit sd p) q (bk (opposite sd)) = Some (fs, r, rest)"
    and bk': "bk' = bk(opposite sd := rest, sd := (if r = 0 then bk sd else rest_level sd p r (bk sd)))"
    using assms(1) by (auto simp: spec_add_def)
  have old: "\<forall>l \<in> set (bk s). 0 < snd l \<and> snd l \<le> n" for s
    using assms(2) by (simp add: levels_within_def)
  have rest: "\<forall>l \<in> set rest. 0 < snd l \<and> snd l \<le> n"
    using sweep_positive [OF sw] sweep_rest_bound [OF sw] old by blast
  have r: "r \<le> q" using sweep_conserve [OF sw] by simp
  have own: "\<forall>l \<in> set (if r = 0 then bk sd else rest_level sd p r (bk sd)). 0 < snd l \<and> snd l \<le> n + q"
  proof (cases "r = 0")
    case True
    then show ?thesis using old [of sd] by (simp add: trans_le_add1)
  next
    case False
    then have "\<forall>l \<in> set (rest_level sd p r (bk sd)). 0 < snd l \<and> snd l \<le> n + r"
      using rest_level_within [OF old] by blast
    then show ?thesis using False r by (fastforce simp del: split_paired_All)
  qed
  show ?thesis
    unfolding levels_within_def
  proof
    fix s
    consider "s = sd" | "s = opposite sd" "s \<noteq> sd" by (cases s; cases sd) auto
    then show "\<forall>l \<in> set (bk' s). 0 < snd l \<and> snd l \<le> n + q"
      using own rest by cases (auto simp: bk')
  qed
qed

lemma own_ladder_within:
  assumes "levels_within n (abs_book ob)" and "l \<in> set (own_ladder sd ob)"
  shows "lvl_total_quantity l \<noteq> 0" "unat (lvl_total_quantity l) \<le> n"
proof -
  have "level_pair l \<in> set (abs_book ob sd)"
    using assms(2) by (cases sd) (auto simp: own_ladder_def abs_book_def bid_view_def ask_view_def)
  then have "0 < snd (level_pair l) \<and> snd (level_pair l) \<le> n"
    using assms(1) by (simp add: levels_within_def)
  then show "lvl_total_quantity l \<noteq> 0" "unat (lvl_total_quantity l) \<le> n"
    by (simp_all add: level_pair_def unat_gt_0)
qed

lemma room_for_within:
  "levels_within n (abs_book ob) \<Longrightarrow> n + q < 2 ^ 64 \<Longrightarrow> room_for q (own_ladder sd ob)"
  using own_ladder_within(2) [of n ob _ sd] by (fastforce simp: room_for_def)

lemma levels_within_mono: "levels_within n bk \<Longrightarrow> n \<le> m \<Longrightarrow> levels_within m bk"
  unfolding levels_within_def by (meson le_trans)

lemma remove_if_empty_positive:
  "ladder_inv ls \<Longrightarrow> \<forall>l \<in> set ls. lvl_total_quantity l \<noteq> 0 \<Longrightarrow> remove_if_empty p ls = ls"
  by (simp add: remove_if_empty_ref remove_ref_def filter_id_conv)

lemma cancel_order_ladders:
  assumes "book_inv ob" and "levels_within n (abs_book ob)"
  shows "bids (snd (cancel_order oid ob)) = bids ob" "asks (snd (cancel_order oid ob)) = asks ob"
proof -
  have same: "remove_if_empty p (bids ob) = bids ob" "remove_if_empty p (asks ob) = asks ob" for p
    using remove_if_empty_positive own_ladder_within(1) [OF assms(2), of _ Buy]
      own_ladder_within(1) [OF assms(2), of _ Sell] assms(1)
    by (auto simp: book_inv_def own_ladder_def)
  show "bids (snd (cancel_order oid ob)) = bids ob" "asks (snd (cancel_order oid ob)) = asks ob"
    by (cases rule: cancel_order_cases [of oid ob]; simp add: same)+
qed

lemma abs_book_cong:
  "bids ob' = bids ob \<Longrightarrow> asks ob' = asks ob \<Longrightarrow> abs_book ob' = abs_book ob"
  by (rule ext) (simp add: abs_book_def side_view_def bid_view_def ask_view_def split: side.split)

lemma add_order_exhausted:
  assumes "spsc_inv MAX_ORDERS (free_list ob)" and "typ \<noteq> Cancel"
    and "spsc_contents MAX_ORDERS (free_list ob) = []"
  shows "add_order tsc sd p q typ ob = Some (0, bump_id ob)"
proof -
  obtain s fl where pop: "spsc_pop MAX_ORDERS (free_list ob) = (s, fl)" by fastforce
  have "s = None" using spsc.pop_result [OF assms(1)] assms(3) pop by simp
  moreover from this have "fl = free_list ob" using spsc_pop_NoneD(2) [OF assms(1)] pop by simp
  ultimately show ?thesis using pop assms(2) by (simp add: add_order_def Let_def)
qed

subsection \<open>One step\<close>

text \<open>The quantity an operation submits, and what one step does to the bound.\<close>

primrec op_qty :: "book_op \<Rightarrow> nat" where
  "op_qty (Add sd p q typ) = unat q"
| "op_qty (CancelOrder oid) = 0"

lemma add_order_within:
  assumes "book_inv ob" and "levels_within n (abs_book ob)" and "n + unat q < 2 ^ 64"
    and "add_order tsc sd p q typ ob = Some (oid, ob')"
  shows "levels_within (n + unat q) (abs_book ob')"
proof -
  have free: "spsc_inv MAX_ORDERS (free_list ob)"
    using assms(1) by (simp add: book_inv_def pool_inv_def)
  have bump: "book_inv (bump_id ob)" "abs_book (bump_id ob) = abs_book ob"
    using assms(1) abs_book_cong [of "bump_id ob" ob]
    by (simp_all add: book_inv_def uncrossed_def pool_inv_def)
  have weaken: "levels_within (n + unat q) (abs_book ob)"
    using levels_within_mono [OF assms(2)] by simp
  consider "typ = Cancel" | "typ \<noteq> Cancel" "spsc_contents MAX_ORDERS (free_list ob) = []"
    | "typ \<noteq> Cancel" "spsc_contents MAX_ORDERS (free_list ob) \<noteq> []" by blast
  then show ?thesis
  proof cases
    case 1
    then have "ob' = snd (cancel_order (word_of_int p) (bump_id ob))"
      using assms(4) by (auto simp: add_order_def Let_def)
    moreover have "levels_within n (abs_book (bump_id ob))" using assms(2) bump(2) by simp
    ultimately have "abs_book ob' = abs_book ob"
      using cancel_order_ladders [OF bump(1), of n] by (intro abs_book_cong) simp_all
    then show ?thesis using weaken by simp
  next
    case 2
    then have "ob' = bump_id ob" using add_order_exhausted [OF free 2, of tsc sd p q] assms(4) by simp
    then show ?thesis using weaken bump(2) by simp
  next
    case 3
    note spec = add_order_spec [OF assms(1) 3 room_for_within [OF assms(2,3)],
      where p = p and tsc = tsc and sd = sd]
    show ?thesis
    proof (cases "spec_add sd p (unat q) (abs_book ob)")
      case None
      then show ?thesis using spec assms(4) by simp
    next
      case (Some res)
      then obtain fs bk where bk: "spec_add sd p (unat q) (abs_book ob) = Some (fs, bk)"
        by (cases res) simp
      then obtain ob1 where "add_order tsc sd p q typ ob = Some (next_order_id ob, ob1)" "abs_book ob1 = bk"
        using spec by auto
      then have "abs_book ob' = bk" using assms(4) by simp
      then show ?thesis using spec_add_within [OF bk assms(2)] by simp
    qed
  qed
qed

lemma book_step_within:
  assumes "book_inv ob" and "levels_within n (abs_book ob)" and "n + op_qty op < 2 ^ 64"
    and "book_step tsc op ob = Some ob'"
  shows "levels_within (n + op_qty op) (abs_book ob')"
proof (cases op)
  case (Add sd p q t)
  then show ?thesis
    using add_order_within [OF assms(1,2), of q tsc sd p t] assms(3,4)
    by (auto simp: book_step_def)
next
  case (CancelOrder oid)
  then have "ob' = snd (cancel_order oid ob)" using assms(4) by (simp add: book_step_def)
  then have "abs_book ob' = abs_book ob"
    using cancel_order_ladders [OF assms(1,2)] by (intro abs_book_cong) simp_all
  then show ?thesis using assms(2) CancelOrder by simp
qed

lemma run_ops_within:
  assumes "book_inv ob" and "levels_within n (abs_book ob)"
    and "n + sum_list (map op_qty ops) < 2 ^ 64" and "run_ops tsc ops ob = Some ob'"
  shows "levels_within (n + sum_list (map op_qty ops)) (abs_book ob')"
  using assms
proof (induction ops arbitrary: ob n)
  case (Cons op ops)
  obtain ob1 where step: "book_step tsc op ob = Some ob1" and run: "run_ops tsc ops ob1 = Some ob'"
    using Cons.prems(4) by (auto split: option.splits)
  have "levels_within (n + op_qty op) (abs_book ob1)"
    using book_step_within [OF Cons.prems(1,2) _ step] Cons.prems(3) by simp
  then show ?case
    using Cons.IH [OF book_step_inv [OF Cons.prems(1) step] _ _ run, of "n + op_qty op"]
      Cons.prems(3) by (simp add: add.assoc)
qed simp

lemma abs_book_new: "abs_book (order_book_new sid d) = (\<lambda>sd. [])"
  by (rule ext) (simp add: abs_book_def side_view_def split: side.split)

lemma levels_within_new: "levels_within n (abs_book (order_book_new sid d))"
  by (simp add: levels_within_def abs_book_new)

lemma sum_op_qty_bound: "sum_list (map op_qty ops) \<le> length ops * (2 ^ 32 - 1)"
proof (induction ops)
  case (Cons op ops)
  have "op_qty op \<le> 2 ^ 32 - 1"
  proof (cases op)
    case (Add sd p q t)
    then show ?thesis using unat_lt_u32 [of q] by (simp add: del: unat_lt_u32)
  qed simp
  with Cons show ?case by simp
qed simp

subsection \<open>The pool\<close>

abbreviation free_slots :: "order_book \<Rightarrow> u32 list" where
  "free_slots ob \<equiv> spsc_contents MAX_ORDERS (free_list ob)"

lemma same_rest_pool:
  "same_rest sd ob ob' \<Longrightarrow> free_list ob' = free_list ob \<and> order_pool ob' = order_pool ob \<and>
   order_id_to_slot ob' = order_id_to_slot ob \<and> next_order_id ob' = next_order_id ob"
  by (cases sd) (auto simp: same_rest_def)

lemma free_push_after_pop:
  assumes "spsc_inv MAX_ORDERS fl" and "spsc_pop MAX_ORDERS fl = (Some slot, fl')"
  shows "spsc_contents MAX_ORDERS (snd (spsc_push MAX_ORDERS slot fl')) =
    spsc_contents MAX_ORDERS fl' @ [slot]"
proof -
  note pop = spsc_pop_SomeD [OF assms]
  have "length (spsc_contents MAX_ORDERS fl) \<le> unat MAX_ORDERS - 1"
    using spsc_size_bound [OF assms(1)] by simp
  then have "length (spsc_contents MAX_ORDERS fl') < unat MAX_ORDERS - 1"
    using pop(1) by simp
  then show ?thesis using spsc.push_elems [OF pop(2)] spsc.push_accepts [OF pop(2)] by simp
qed

text \<open>A submission takes the first free slot, and gives it back, last, when it was filled
  at once; no slot of an order that was resting comes back.\<close>

lemma add_order_free_slots:
  assumes "book_inv ob" and "typ \<noteq> Cancel" and "free_slots ob = slot # slots"
    and "sweep (within_limit sd p) (unat q) (abs_book ob (opposite sd)) = Some (fs, r, rest)"
    and "add_order tsc sd p q typ ob = Some (oid, ob')"
  shows "free_slots ob' = (if r = 0 then slots @ [slot] else slots)"
    "order_id_to_slot ob' (next_order_id ob AND (MAX_ORDERS - 1)) = slot"
    "ord_order_id (order_pool ob' slot) = next_order_id ob"
    "ord_price_ticks (order_pool ob' slot) = p" "ord_side (order_pool ob' slot) = sd"
    "r \<noteq> 0 \<Longrightarrow> unat (ord_quantity (order_pool ob' slot)) = r" "slot_ok slot"
proof -
  have inv: "spsc_inv MAX_ORDERS (free_list ob)" "ladder_inv (bids ob)" "ladder_inv (asks ob)"
    using assms(1) by (simp_all add: book_inv_def pool_inv_def)
  obtain s fl where pop: "spsc_pop MAX_ORDERS (free_list ob) = (Some s, fl)"
    and add: "add_order tsc sd p q typ ob =
       map_option (\<lambda>(r, ob3). (next_order_id ob, rest_order sd p (ucast r) s ob3))
         (match_side tsc sd q p (fill_slot tsc (next_order_id ob) sd p q typ s
            ((bump_id ob)\<lparr>free_list := fl\<rparr>)))"
    using add_order_pool [OF assms(2) inv(1), of tsc sd p q] assms(3) by (metis list.discI)
  have s: "s = slot" "spsc_contents MAX_ORDERS fl = slots"
    using spsc_pop_SomeD(1) [OF inv(1) pop] assms(3) by simp_all
  define ob2 where "ob2 = fill_slot tsc (next_order_id ob) sd p q typ s
      ((bump_id ob)\<lparr>free_list := fl\<rparr>)"
  have ob2: "ladder_inv (bids ob2)" "ladder_inv (asks ob2)" "side_view sd' ob2 = side_view sd' ob" for sd'
    using inv(2,3) by (cases sd'; simp add: ob2_def)+
  obtain x ob3 where m: "match_side tsc sd q p ob2 = Some (x, ob3)"
    and ob': "ob' = rest_order sd p (ucast x) s ob3"
    using assms(5) unfolding add ob2_def [symmetric] by auto
  obtain q' where q': "x = ucast (q' :: u32)" "unat q' = r" and same: "same_rest sd ob2 ob3"
    using match_side_SomeD [OF ob2(1,2) m] assms(4) ob2(3)
    by (metis abs_book_def option.inject prod.inject)
  note frame = same_rest_pool [OF same]
  note given = free_push_after_pop [OF inv(1) pop]
  have r: "q' = 0 \<longleftrightarrow> r = 0" using q'(2) [symmetric] by (simp add: unat_eq_0)
  show "free_slots ob' = (if r = 0 then slots @ [slot] else slots)"
    "order_id_to_slot ob' (next_order_id ob AND (MAX_ORDERS - 1)) = slot"
    "ord_order_id (order_pool ob' slot) = next_order_id ob"
    "ord_price_ticks (order_pool ob' slot) = p" "ord_side (order_pool ob' slot) = sd"
    "r \<noteq> 0 \<Longrightarrow> unat (ord_quantity (order_pool ob' slot)) = r"
    using frame given s q' r
    by (simp_all add: ob' rest_order_def Let_def ob2_def fill_slot_def)
  show "slot_ok slot"
    using assms(1,3) by (simp add: book_inv_def pool_inv_def)
qed

subsection \<open>Runs of submissions\<close>

primrec submission :: "book_op \<Rightarrow> bool" where
  "submission (Add sd p q typ) \<longleftrightarrow> typ \<noteq> Cancel"
| "submission (CancelOrder oid) \<longleftrightarrow> False"

fun spec_run :: "book_op list \<Rightarrow> (side \<Rightarrow> (int \<times> nat) list) \<Rightarrow>
    ((int \<times> nat) list \<times> (side \<Rightarrow> (int \<times> nat) list)) option" where
  "spec_run [] bk = Some ([], bk)"
| "spec_run (CancelOrder oid # ops) bk = spec_run ops bk"
| "spec_run (Add sd p q typ # ops) bk =
     (case spec_add sd p (unat q) bk of None \<Rightarrow> None
      | Some (fs, bk') \<Rightarrow> map_option (\<lambda>(gs, bk''). (fs @ gs, bk'')) (spec_run ops bk'))"

abbreviation resting :: "(side \<Rightarrow> (int \<times> nat) list) \<Rightarrow> nat" where
  "resting bk \<equiv> total_qty (bk Buy) + total_qty (bk Sell)"

lemma rest_level_total: "total_qty (rest_level sd p q ls) = total_qty ls + q"
  by (induction sd p q ls rule: rest_level.induct) auto

lemma spec_add_conserve:
  assumes "spec_add sd p q bk = Some (fs, bk')"
  shows "q + resting bk = resting bk' + 2 * total_qty fs"
proof -
  obtain r rest where sw: "sweep (within_limit sd p) q (bk (opposite sd)) = Some (fs, r, rest)"
    and bk': "bk' = bk(opposite sd := rest, sd := (if r = 0 then bk sd else rest_level sd p r (bk sd)))"
    using assms by (auto simp: spec_add_def)
  show ?thesis
    using sweep_conserve [OF sw] by (cases sd) (auto simp: bk' rest_level_total)
qed

lemma spec_run_conserve:
  "list_all submission ops \<Longrightarrow> spec_run ops bk = Some (fs, bk') \<Longrightarrow>
   sum_list (map op_qty ops) + resting bk = resting bk' + 2 * total_qty fs"
proof (induction ops bk arbitrary: fs bk' rule: spec_run.induct)
  case (3 sd p q t ops bk)
  then obtain gs bk1 hs where add: "spec_add sd p (unat q) bk = Some (gs, bk1)"
    and run: "spec_run ops bk1 = Some (hs, bk')" and fs: "fs = gs @ hs"
    by (auto split: option.splits)
  have "sum_list (map op_qty ops) + resting bk1 = resting bk' + 2 * total_qty hs"
    using "3.IH" [OF add] "3.prems"(1) run by simp
  then show ?case using spec_add_conserve [OF add] by (simp add: fs)
qed auto

lemma run_ops_spec:
  assumes "book_inv ob" and "list_all submission ops" and "length ops \<le> length (free_slots ob)"
    and "levels_within n (abs_book ob)" and "n + sum_list (map op_qty ops) < 2 ^ 64"
  shows "case spec_run ops (abs_book ob) of
      None \<Rightarrow> run_ops tsc ops ob = None
    | Some (fs, bk) \<Rightarrow> \<exists>ob'. run_ops tsc ops ob = Some ob' \<and> abs_book ob' = bk \<and>
        reported_fills ob' = reported_fills ob @ fs"
  using assms
proof (induction ops arbitrary: ob n)
  case (Cons op ops)
  obtain sd p q t where op: "op = Add sd p q t" and t: "t \<noteq> Cancel"
    using Cons.prems(2) by (cases op) auto
  obtain slot slots where free: "free_slots ob = slot # slots"
    using Cons.prems(3) by (cases "free_slots ob") auto
  have sum: "n + unat q + sum_list (map op_qty ops) < 2 ^ 64"
    using Cons.prems(5) by (simp add: op)
  have room: "room_for (unat q) (own_ladder sd ob)"
    using room_for_within [OF Cons.prems(4)] sum by simp
  have nonempty: "free_slots ob \<noteq> []" using free by simp
  note spec = add_order_spec [OF Cons.prems(1) t nonempty room, where p = p and tsc = tsc]
  show ?case
  proof (cases "spec_add sd p (unat q) (abs_book ob)")
    case None
    then show ?thesis using spec by (simp add: op book_step_def)
  next
    case (Some res)
    then obtain fs bk where sa: "spec_add sd p (unat q) (abs_book ob) = Some (fs, bk)"
      by (cases res) simp
    then obtain ob1 where ob1: "add_order tsc sd p q t ob = Some (next_order_id ob, ob1)"
        "abs_book ob1 = bk" "reported_fills ob1 = reported_fills ob @ fs"
      using spec by auto
    obtain r rest where sw:
      "sweep (within_limit sd p) (unat q) (abs_book ob (opposite sd)) = Some (fs, r, rest)"
      using sa by (auto simp: spec_add_def)
    have len: "length ops \<le> length (free_slots ob1)"
      using add_order_free_slots(1) [OF Cons.prems(1) t free sw ob1(1)] Cons.prems(3) free by simp
    have IH: "case spec_run ops (abs_book ob1) of None \<Rightarrow> run_ops tsc ops ob1 = None
      | Some (gs, bk') \<Rightarrow> \<exists>ob'. run_ops tsc ops ob1 = Some ob' \<and> abs_book ob' = bk' \<and>
          reported_fills ob' = reported_fills ob1 @ gs"
      using Cons.IH [OF add_order_inv [OF Cons.prems(1) ob1(1)] _ len
          add_order_within [OF Cons.prems(1,4) _ ob1(1)] sum] Cons.prems(2) sum by simp
    show ?thesis
      using IH ob1 sa by (auto simp: op book_step_def split: option.splits)
  qed
qed simp

lemma run_new_spec:
  assumes "list_all submission ops" and "length ops < 2 ^ 20"
  shows "case spec_run ops (\<lambda>sd. []) of
      None \<Rightarrow> run_ops tsc ops (order_book_new sid d) = None
    | Some (fs, bk) \<Rightarrow> \<exists>ob. run_ops tsc ops (order_book_new sid d) = Some ob \<and>
        abs_book ob = bk \<and> reported_fills ob = fs"
proof -
  have "length ops * (2 ^ 32 - 1) \<le> 2 ^ 20 * (2 ^ 32 - 1)"
    using assms(2) by (intro mult_right_mono) simp_all
  then have sum: "0 + sum_list (map op_qty ops) < 2 ^ 64"
    using sum_op_qty_bound [of ops] by simp
  have len: "length ops \<le> length (free_slots (order_book_new sid d))"
    using assms(2) by (simp add: new_free_list(2) del: length_spsc_contents)
  show ?thesis
    using run_ops_spec [OF book_inv_new assms(1) len levels_within_new sum, where tsc = tsc]
    by (auto simp: abs_book_new split: option.splits)
qed

subsection \<open>Termination\<close>

lemma add_order_returns:
  assumes "book_inv ob" and "levels_within n (abs_book ob)" and "n + unat q < 2 ^ 32"
  shows "\<exists>oid ob'. add_order tsc sd p q typ ob = Some (oid, ob')"
proof -
  have free: "spsc_inv MAX_ORDERS (free_list ob)"
    using assms(1) by (simp add: book_inv_def pool_inv_def)
  consider "typ = Cancel" | "typ \<noteq> Cancel" "free_slots ob = []" | "typ \<noteq> Cancel" "free_slots ob \<noteq> []"
    by blast
  then show ?thesis
  proof cases
    case 1
    then show ?thesis by (simp add: add_order_def Let_def)
  next
    case 2
    then show ?thesis using add_order_exhausted [OF free 2] by blast
  next
    case 3
    have small: "\<forall>l \<in> set (abs_book ob s). snd l < 2 ^ 32" for s
      using assms(2,3) unfolding levels_within_def by (meson le_less_trans trans_le_add1 le_add1)
    obtain fs r rest where
      "sweep (within_limit sd p) (unat q) (abs_book ob (opposite sd)) = Some (fs, r, rest)"
      using sweep_defined [of "abs_book ob (opposite sd)" "within_limit sd p" "unat q"] small by blast
    then obtain bk where "spec_add sd p (unat q) (abs_book ob) = Some (fs, bk)"
      by (simp add: spec_add_def)
    moreover have "room_for (unat q) (own_ladder sd ob)"
      using room_for_within [OF assms(2)] assms(3) by simp
    ultimately show ?thesis
      using add_order_spec [OF assms(1) 3, where p = p and tsc = tsc] by fastforce
  qed
qed

lemma run_ops_returns:
  assumes "book_inv ob" and "levels_within n (abs_book ob)" and "n + sum_list (map op_qty ops) < 2 ^ 32"
  shows "\<exists>ob'. run_ops tsc ops ob = Some ob'"
  using assms
proof (induction ops arbitrary: ob n)
  case (Cons op ops)
  have le: "n + op_qty op < 2 ^ 32" using Cons.prems(3) by simp
  obtain ob1 where step: "book_step tsc op ob = Some ob1"
  proof (cases op)
    case (Add sd p q t)
    then show thesis
      using add_order_returns [OF Cons.prems(1,2), of q tsc sd p t] le that
      by (auto simp: book_step_def)
  qed (auto simp: book_step_def that)
  have "levels_within (n + op_qty op) (abs_book ob1)"
    using book_step_within [OF Cons.prems(1,2) _ step] le by simp
  then show ?case
    using Cons.IH [OF book_step_inv [OF Cons.prems(1) step]] step Cons.prems(3)
    by (simp add: add.assoc)
qed simp

subsection \<open>The fresh book in closed form\<close>

lemma push_all_snoc: "push_all psh (xs @ [x]) q = snd (psh x (push_all psh xs q))"
  by (induction xs arbitrary: q) auto

lemma push_all_new:
  fixes d :: "u64 \<Rightarrow> u32"
  assumes "n < 2 ^ 20"
  shows "push_all (spsc_push MAX_ORDERS) (map of_nat [0..<n]) (spsc_new d) =
    \<lparr>q_head = of_nat n, q_tail = 0, q_data = (\<lambda>i. if unat i < n then ucast i else d i)\<rparr>"
  using assms
proof (induction n)
  case 0
  then show ?case by (simp add: spsc_new_def)
next
  case (Suc n)
  have n: "unat (of_nat n :: u64) = n" using Suc.prems by (simp add: unat_of_nat)
  have nxt: "(of_nat n + 1 :: u64) AND spsc_mask MAX_ORDERS = of_nat (Suc n)"
  proof -
    have "of_nat n < MAX_ORDERS"
      using Suc.prems by (simp add: word_less_nat_alt n unat_MAX_ORDERS)
    then have "unat ((of_nat n + 1 :: u64) AND spsc_mask MAX_ORDERS) = Suc n"
      using unat_next_index [OF MAX_ORDERS_ok] Suc.prems by (simp add: n unat_MAX_ORDERS)
    moreover have "unat (of_nat (Suc n) :: u64) = Suc n"
      using Suc.prems by (simp add: unat_of_nat del: of_nat_Suc)
    ultimately show ?thesis by (simp only: word_unat_eq_iff)
  qed
  have "(of_nat (Suc n) :: u64) \<noteq> 0"
    using Suc.prems by (simp add: word_unat_eq_iff unat_of_nat del: of_nat_Suc)
  moreover have "(\<lambda>i. if unat i < n then ucast i else d i)(of_nat n := of_nat n) =
      (\<lambda>i :: u64. if unat i < Suc n then ucast i else d i)"
  proof
    fix i :: u64
    show "((\<lambda>i. if unat i < n then ucast i else d i)(of_nat n := of_nat n)) i =
        (if unat i < Suc n then ucast i else d i :: u32)"
    proof (cases "i = of_nat n")
      case True
      have "(of_nat n :: u32) = ucast (of_nat n :: u64)"
        using Suc.prems by (simp add: word_unat_eq_iff unat_ucast_mod unat_of_nat)
      then show ?thesis using True n by simp
    next
      case False
      then have "unat i \<noteq> n" by auto
      then show ?thesis using False by simp
    qed
  qed
  ultimately show ?case
    using Suc nxt by (simp add: push_all_snoc spsc_push_def Let_def del: of_nat_Suc)
qed

lemma new_free_list_eval:
  "free_list (order_book_new sid d) =
     \<lparr>q_head = 0xFFFFF, q_tail = 0, q_data = (\<lambda>i. if unat i < 2 ^ 20 - 1 then ucast i else d i)\<rparr>"
proof -
  have upt: "[0..<2 ^ 20] = [0..<2 ^ 20 - 1] @ [2 ^ 20 - 1 :: nat]"
    using upt_Suc_append [of 0 "2 ^ 20 - 1"] by simp
  have "push_all (spsc_push MAX_ORDERS) (map of_nat [0..<2 ^ 20 - 1]) (spsc_new d) =
      \<lparr>q_head = of_nat (2 ^ 20 - 1), q_tail = 0,
       q_data = (\<lambda>i. if unat i < 2 ^ 20 - 1 then ucast i else d i)\<rparr>"
    by (rule push_all_new) simp
  then show ?thesis
    by (simp only: order_book_new_def unat_MAX_ORDERS order_book.simps upt map_append list.map push_all_snoc)
      (simp add: spsc_push_def Let_def spsc_mask_def MAX_ORDERS_def)
qed

lemma pop_new_free_list:
  "spsc_pop MAX_ORDERS (free_list (order_book_new sid d)) =
     (Some 0, (free_list (order_book_new sid d))\<lparr>q_tail := 1\<rparr>)"
  by (simp add: new_free_list_eval spsc_pop_def Let_def spsc_mask_def MAX_ORDERS_def)

definition fresh :: order_book where
  "fresh = order_book_new 1 (\<lambda>_. 0)"

lemma fresh_eval: "fresh = \<lparr>symbol_id = 1, bids = [], asks = [], order_pool = (\<lambda>_. order_zero),
      free_list = \<lparr>q_head = 0xFFFFF, q_tail = 0, q_data = (\<lambda>i. if unat i < 2 ^ 20 - 1 then ucast i else 0)\<rparr>,
      order_id_to_slot = (\<lambda>_. 0xFFFFFFFF), next_order_id = 1, matches = [], tsc_reads = 0\<rparr>"
  using new_free_list_eval [of 1 "\<lambda>_. 0"] by (simp add: fresh_def order_book_new_def)

text \<open>Rules that evaluate a run on the fresh book.\<close>

lemma while_option_step:
  "b s \<Longrightarrow> while_option b c s = while_option b c (c s)"
  "\<not> b s \<Longrightarrow> while_option b c s = Some s"
  by (subst while_option_unfold, simp)+

lemma lower_bound_loop_step:
  "lower_bound_loop lt xs first 0 = first"
  "0 < len \<Longrightarrow> lt (xs ! (first + len div 2)) \<Longrightarrow> lower_bound_loop lt xs first len =
     lower_bound_loop lt xs (first + len div 2 + 1) (len - len div 2 - 1)"
  "0 < len \<Longrightarrow> \<not> lt (xs ! (first + len div 2)) \<Longrightarrow> lower_bound_loop lt xs first len =
     lower_bound_loop lt xs first (len div 2)"
  by (subst lower_bound_loop.simps, simp add: Let_def)+

lemmas book_eval = fresh_eval book_step_def add_order_def cancel_order_def rest_order_def
  fill_slot_def Let_def spsc_pop_def spsc_push_def spsc_mask_def MAX_ORDERS_def
  match_aggressive_buy_def match_aggressive_sell_def buy_guard_def buy_body_def sell_guard_def
  sell_body_def emit_match_def ladder_upsert_def remove_if_empty_def lower_bound_def
  ladder_best_def ladder_worst_def while_option_step lower_bound_loop_step reported_fills_def
  abs_book_def bid_view_def ask_view_def level_pair_def

subsection \<open>One submission\<close>

lemma add_order_fills:
  assumes "book_inv ob" and "typ \<noteq> Cancel" and "free_slots ob \<noteq> []"
    and "add_order tsc sd p q typ ob = Some (oid, ob')"
  obtains fs r rest where
    "sweep (within_limit sd p) (unat q) (abs_book ob (opposite sd)) = Some (fs, r, rest)"
    "reported_fills ob' = reported_fills ob @ fs" "oid = next_order_id ob"
    "abs_book ob' (opposite sd) = rest" "r = 0 \<Longrightarrow> abs_book ob' sd = abs_book ob sd"
proof -
  have inv: "ladder_inv (bids ob)" "ladder_inv (asks ob)" "spsc_inv MAX_ORDERS (free_list ob)"
    using assms(1) by (simp_all add: book_inv_def pool_inv_def)
  obtain slot fl where
    add: "add_order tsc sd p q typ ob =
       map_option (\<lambda>(r, ob3). (next_order_id ob, rest_order sd p (ucast r) slot ob3))
         (match_side tsc sd q p (fill_slot tsc (next_order_id ob) sd p q typ slot
            ((bump_id ob)\<lparr>free_list := fl\<rparr>)))"
    using add_order_pool [OF assms(2) inv(3) assms(3), of tsc sd p q] by metis
  define ob2 where "ob2 = fill_slot tsc (next_order_id ob) sd p q typ slot
      ((bump_id ob)\<lparr>free_list := fl\<rparr>)"
  have ob2: "ladder_inv (bids ob2)" "ladder_inv (asks ob2)" "side_view s ob2 = side_view s ob"
    "reported_fills ob2 = reported_fills ob" for s
    using inv(1,2) by (cases s; simp add: ob2_def)+
  obtain x ob3 where m: "match_side tsc sd q p ob2 = Some (x, ob3)"
    and ob': "ob' = rest_order sd p (ucast x) slot ob3" "oid = next_order_id ob"
    using assms(4) unfolding add ob2_def [symmetric] by auto
  obtain q' fs rest where d: "x = ucast (q' :: u32)"
    "sweep (within_limit sd p) (unat q) (side_view (opposite sd) ob2) = Some (fs, unat q', rest)"
    "side_view (opposite sd) ob3 = rest" "reported_fills ob3 = reported_fills ob2 @ fs"
    "same_rest sd ob2 ob3"
    using match_side_SomeD [OF ob2(1,2) m] by metis
  have own: "side_view sd ob3 = side_view sd ob" using own_side_unchanged [OF d(5)] ob2(3) by simp
  show thesis
  proof (rule that)
    show "sweep (within_limit sd p) (unat q) (abs_book ob (opposite sd)) = Some (fs, unat q', rest)"
      using d(2) ob2(3) by (simp add: abs_book_def)
    show "reported_fills ob' = reported_fills ob @ fs" "abs_book ob' (opposite sd) = rest"
      using d ob2(4) by (simp_all add: ob' rest_order_simps abs_book_def)
    show "abs_book ob' sd = abs_book ob sd" if "unat q' = 0"
    proof -
      have "ob' = ob3\<lparr>free_list := snd (spsc_push MAX_ORDERS slot (free_list ob3))\<rparr>"
        using that d(1) by (simp add: ob' rest_order_def unat_eq_0)
      then show ?thesis using own by (cases sd) (simp_all add: abs_book_def)
    qed
  qed (rule ob'(2))
qed

lemma add_order_stuck:
  assumes "book_inv ob" and "typ \<noteq> Cancel" and "free_slots ob \<noteq> []"
    and "sweep (within_limit sd p) (unat q) (abs_book ob (opposite sd)) = None"
  shows "add_order tsc sd p q typ ob = None"
proof (rule ccontr)
  assume "add_order tsc sd p q typ ob \<noteq> None"
  then obtain oid ob' where "add_order tsc sd p q typ ob = Some (oid, ob')" by auto
  from add_order_fills [OF assms(1,2,3) this] assms(4) show False by (metis option.distinct(1))
qed

lemma nonempty_free_slots: "book_inv ob \<Longrightarrow> \<not> spsc_empty (free_list ob) \<Longrightarrow> free_slots ob \<noteq> []"
  using spsc_size_0_iff [of MAX_ORDERS "free_list ob"]
  by (auto simp: book_inv_def pool_inv_def spsc_empty_def simp flip: length_0_conv)

subsection \<open>Order ids\<close>

lemma cancel_order_next_id: "next_order_id (snd (cancel_order oid ob)) = next_order_id ob"
  by (cases rule: cancel_order_cases [of oid ob]) simp_all

lemma add_order_next_id:
  assumes "book_inv ob" and "add_order tsc sd p q typ ob = Some (oid, ob')"
  shows "next_order_id ob' = next_order_id ob + 1"
  using assms(2)
proof (cases rule: add_order_cases)
  case (matched slot fl r ob3)
  define ob2 where "ob2 = fill_slot tsc (next_order_id ob) sd p q typ slot ((bump_id ob)\<lparr>free_list := fl\<rparr>)"
  have "ladder_inv (bids ob2)" "ladder_inv (asks ob2)"
    using assms(1) by (simp_all add: ob2_def book_inv_def)
  then have "same_rest sd ob2 ob3"
    using match_side_SomeD [OF _ _ matched(3) [folded ob2_def]] by metis
  then have "next_order_id ob3 = next_order_id ob2" by (simp add: same_rest_pool)
  then show ?thesis by (simp add: matched(5) rest_order_simps ob2_def)
qed (simp_all add: cancel_order_next_id)

primrec is_add :: "book_op \<Rightarrow> bool" where
  "is_add (Add sd p q typ) \<longleftrightarrow> True"
| "is_add (CancelOrder oid) \<longleftrightarrow> False"

lemma run_ops_next_id:
  assumes "book_inv ob" and "run_ops tsc ops ob = Some ob'"
  shows "next_order_id ob' = next_order_id ob + of_nat (length (filter is_add ops))"
  using assms
proof (induction ops arbitrary: ob)
  case (Cons op ops)
  obtain ob1 where step: "book_step tsc op ob = Some ob1" and run: "run_ops tsc ops ob1 = Some ob'"
    using Cons.prems(2) by (auto split: option.splits)
  have "next_order_id ob1 = next_order_id ob + (if is_add op then 1 else 0)"
    using step add_order_next_id [OF Cons.prems(1)]
    by (cases op) (auto simp: book_step_def cancel_order_next_id)
  then show ?case
    using Cons.IH [OF book_step_inv [OF Cons.prems(1) step] run] by simp
qed simp

subsection \<open>Cancellation and the pool\<close>

lemma cancel_order_accepted:
  assumes "slot_ok (order_id_to_slot ob (oid AND (MAX_ORDERS - 1)))"
    and "ord_order_id (order_pool ob (order_id_to_slot ob (oid AND (MAX_ORDERS - 1)))) = oid"
  shows "fst (cancel_order oid ob)"
    "order_id_to_slot (snd (cancel_order oid ob)) = order_id_to_slot ob"
    "order_pool (snd (cancel_order oid ob)) = order_pool ob"
    "free_list (snd (cancel_order oid ob)) =
       snd (spsc_push MAX_ORDERS (order_id_to_slot ob (oid AND (MAX_ORDERS - 1))) (free_list ob))"
  using assms by (simp_all add: cancel_order_def Let_def slot_ok_def not_le)

lemma free_push_take:
  assumes "spsc_inv MAX_ORDERS fl"
  shows "spsc_contents MAX_ORDERS (snd (spsc_push MAX_ORDERS x fl)) =
    take (2 ^ 20 - 1) (spsc_contents MAX_ORDERS fl @ [x])"
  using spsc.push_take [OF assms, of x] by (simp only: unat_MAX_ORDERS)

text \<open>A resting order that a later one fills completely leaves the book, but its slot does
  not come back: each round of the two submissions uses up one slot.\<close>

abbreviation cross_round :: "u32 \<Rightarrow> int \<times> int \<Rightarrow> book_op list" where
  "cross_round q \<equiv> \<lambda>(p, p'). [Add Sell p q Limit, Add Buy p' q Limit]"

abbreviation fill_round :: "int \<Rightarrow> u32 \<Rightarrow> book_op list" where
  "fill_round p q \<equiv> [Add Sell p q Limit, Add Buy p q Limit]"

lemma sell_rests_on_empty:
  assumes "book_inv ob" and "abs_book ob = (\<lambda>sd. [])" and "free_slots ob = s1 # slots" and "0 < q"
  obtains ob1 where "add_order tsc Sell p q Limit ob = Some (next_order_id ob, ob1)" "book_inv ob1"
    "abs_book ob1 = (\<lambda>sd. [])(Sell := [(p, unat q)])" "reported_fills ob1 = reported_fills ob"
    "free_slots ob1 = slots" "levels_within (unat q) (abs_book ob1)"
proof -
  have q: "0 < unat q" "0 + unat q < 2 ^ 64"
    using assms(4) unat_lt_u32 [of q] by (simp_all add: unat_gt_0 word_gt_0 del: unat_lt_u32)
  have lim: "Limit \<noteq> Cancel" by simp
  have sw: "sweep (within_limit Sell p) (unat q) (abs_book ob (opposite Sell)) = Some ([], unat q, [])"
    by (simp add: assms(2))
  have sp: "spec_add Sell p (unat q) (abs_book ob) = Some ([], (\<lambda>sd. [])(Sell := [(p, unat q)]))"
    using q(1) sw by (simp add: spec_add_def assms(2) fun_upd_idem)
  have within: "levels_within 0 (abs_book ob)" by (simp add: assms(2) levels_within_def)
  have ne: "free_slots ob \<noteq> []" using assms(3) by simp
  obtain ob1 where ob1: "add_order tsc Sell p q Limit ob = Some (next_order_id ob, ob1)"
    "abs_book ob1 = (\<lambda>sd. [])(Sell := [(p, unat q)])" "reported_fills ob1 = reported_fills ob"
    using add_order_spec [OF assms(1) lim ne room_for_within [OF within q(2)], where p = p and tsc = tsc and sd = Sell]
    by (auto simp: sp)
  show thesis
  proof (rule that [OF ob1(1) _ ob1(2,3)])
    show "book_inv ob1" using add_order_inv [OF assms(1) ob1(1)] .
    show "free_slots ob1 = slots"
      using add_order_free_slots(1) [OF assms(1) lim assms(3) sw ob1(1)] q(1) by simp
    show "levels_within (unat q) (abs_book ob1)"
      using add_order_within [OF assms(1) within q(2) ob1(1)] by simp
  qed
qed

lemma cross_round_leak:
  assumes "book_inv ob" and "abs_book ob = (\<lambda>sd. [])" and "2 \<le> length (free_slots ob)" and "0 < q" and "p \<le> p'"
  obtains ob' where "run_ops tsc (cross_round q (p, p')) ob = Some ob'" "book_inv ob'"
    "abs_book ob' = (\<lambda>sd. [])" "length (free_slots ob') = length (free_slots ob) - 1"
    "reported_fills ob' = reported_fills ob @ [(p, unat q)]"
proof -
  obtain s1 s2 slots where free: "free_slots ob = s1 # s2 # slots"
    using assms(3) by (metis Suc_le_length_iff numeral_2_eq_2)
  obtain ob1 where ob1: "add_order tsc Sell p q Limit ob = Some (next_order_id ob, ob1)" "book_inv ob1"
    "abs_book ob1 = (\<lambda>sd. [])(Sell := [(p, unat q)])" "reported_fills ob1 = reported_fills ob"
    "free_slots ob1 = s2 # slots" "levels_within (unat q) (abs_book ob1)"
    using sell_rests_on_empty [OF assms(1,2) free assms(4)] .
  have q: "0 < unat q" "unat q < 2 ^ 32" using assms(4) by (simp_all add: unat_gt_0 word_gt_0)
  have q64: "unat q + unat q < 2 ^ 64" using unat_lt_u32 [of q] by (simp del: unat_lt_u32)
  have lim: "Limit \<noteq> Cancel" by simp
  have sw2: "sweep (within_limit Buy p') (unat q) (abs_book ob1 (opposite Buy)) = Some ([(p, unat q)], 0, [])"
    using q assms(5) by (simp add: ob1(3))
  have sp2: "spec_add Buy p' (unat q) (abs_book ob1) = Some ([(p, unat q)], \<lambda>sd. [])"
    using sw2 by (auto simp: spec_add_def ob1(3) fun_eq_iff)
  have ne1: "free_slots ob1 \<noteq> []" using ob1(5) by simp
  obtain ob2 where ob2: "add_order tsc Buy p' q Limit ob1 = Some (next_order_id ob1, ob2)"
    "abs_book ob2 = (\<lambda>sd. [])" "reported_fills ob2 = reported_fills ob1 @ [(p, unat q)]"
    using add_order_spec [OF ob1(2) lim ne1 room_for_within [OF ob1(6) q64], where p = p' and tsc = tsc and sd = Buy]
    by (auto simp: sp2)
  have free2: "free_slots ob2 = slots @ [s2]"
    using add_order_free_slots(1) [OF ob1(2) lim ob1(5) sw2 ob2(1)] by simp
  show thesis
  proof (rule that)
    show "run_ops tsc (cross_round q (p, p')) ob = Some ob2" by (simp add: book_step_def ob1(1) ob2(1))
    show "book_inv ob2" using add_order_inv [OF ob1(2) ob2(1)] .
    show "length (free_slots ob2) = length (free_slots ob) - 1"
      by (simp only: free free2) simp
    show "reported_fills ob2 = reported_fills ob @ [(p, unat q)]" by (simp add: ob2(3) ob1(4))
  qed (rule ob2(2))
qed

lemma fill_round_leak:
  assumes "book_inv ob" and "abs_book ob = (\<lambda>sd. [])" and "2 \<le> length (free_slots ob)" and "0 < q"
  obtains ob' where "run_ops tsc (fill_round p q) ob = Some ob'" "book_inv ob'"
    "abs_book ob' = (\<lambda>sd. [])" "length (free_slots ob') = length (free_slots ob) - 1"
  using cross_round_leak [OF assms order_refl, where p = p and tsc = tsc] by auto

text \<open>Once no slot is free every submission is refused, and a run of submissions changes
  neither the levels nor the fills.\<close>

lemma run_ops_exhausted:
  assumes "book_inv ob" and "free_slots ob = []" and "list_all submission ops"
  shows "\<exists>ob'. run_ops tsc ops ob = Some ob' \<and> book_inv ob' \<and> free_slots ob' = [] \<and>
    abs_book ob' = abs_book ob \<and> reported_fills ob' = reported_fills ob"
  using assms
proof (induction ops arbitrary: ob)
  case (Cons x ops)
  obtain sd p q ty where x: "x = Add sd p q ty" "ty \<noteq> Cancel"
    using Cons.prems(3) by (cases x) auto
  have fl: "spsc_inv MAX_ORDERS (free_list ob)" using Cons.prems(1) by (simp add: book_inv_def pool_inv_def)
  have add: "add_order tsc sd p q ty ob = Some (0, bump_id ob)"
    by (rule add_order_exhausted [OF fl x(2) Cons.prems(2)])
  have keep: "book_inv (bump_id ob)" "free_slots (bump_id ob) = []" "abs_book (bump_id ob) = abs_book ob"
    "reported_fills (bump_id ob) = reported_fills ob"
    using add_order_inv [OF Cons.prems(1) add] Cons.prems(2)
    by (auto simp: abs_book_def fun_eq_iff side_view_def split: side.split)
  from Cons.IH [OF keep(1,2)] Cons.prems(3) keep show ?case
    by (simp add: x(1) book_step_def add)
qed simp

text \<open>Rounds of a sell and a buy that crosses it, on an empty book: while two slots are free the
  buy takes the sell. The round that finds one slot leaves its sell in the book, and every
  submission after that is refused.\<close>

lemma cross_rounds:
  assumes "book_inv ob" and "abs_book ob = (\<lambda>sd. [])" and "0 < length (free_slots ob)" and "0 < q"
    and "list_all (\<lambda>(p, p'). p \<le> p') ps"
  shows "\<exists>ob'. run_ops tsc (concat (map (cross_round q) ps)) ob = Some ob' \<and>
    reported_fills ob' = reported_fills ob @ take (length (free_slots ob) - 1) (map (\<lambda>(p, p'). (p, unat q)) ps) \<and>
    abs_book ob' = (if length ps < length (free_slots ob) then \<lambda>sd. []
      else (\<lambda>sd. [])(Sell := [(fst (ps ! (length (free_slots ob) - 1)), unat q)]))"
  using assms(1-3,5)
proof (induction ps arbitrary: ob)
  case (Cons x ps)
  obtain p p' where x: "x = (p, p')" "p \<le> p'" using Cons.prems(4) by auto
  let ?rest = "concat (map (cross_round q) ps)"
  show ?case
  proof (cases "length (free_slots ob) = 1")
    case True
    then obtain s where free: "free_slots ob = [s]" by (metis One_nat_def length_0_conv length_Suc_conv)
    obtain ob1 where ob1: "add_order tsc Sell p q Limit ob = Some (next_order_id ob, ob1)" "book_inv ob1"
      "abs_book ob1 = (\<lambda>sd. [])(Sell := [(p, unat q)])" "reported_fills ob1 = reported_fills ob"
      "free_slots ob1 = []"
      using sell_rests_on_empty [OF Cons.prems(1,2) free assms(4)] .
    have "list_all submission (Add Buy p' q Limit # ?rest)"
      by (auto simp: list_all_iff)
    from run_ops_exhausted [OF ob1(2,5) this, of tsc] ob1 show ?thesis
      by (auto simp: x(1) book_step_def free simp del: length_spsc_contents)
  next
    case False
    then have two: "2 \<le> length (free_slots ob)" using Cons.prems(3) by linarith
    obtain ob1 where ob1: "run_ops tsc (cross_round q (p, p')) ob = Some ob1" "book_inv ob1"
      "abs_book ob1 = (\<lambda>sd. [])" "length (free_slots ob1) = length (free_slots ob) - 1"
      "reported_fills ob1 = reported_fills ob @ [(p, unat q)]"
      using cross_round_leak [OF Cons.prems(1,2) two assms(4) x(2)] .
    obtain k where k: "length (free_slots ob) = Suc (Suc k)" using two by (metis add_2_eq_Suc le_Suc_ex)
    have k1: "length (free_slots ob1) = Suc k" using ob1(4) k by linarith
    obtain ob' where ob': "run_ops tsc ?rest ob1 = Some ob'"
      "reported_fills ob' = reported_fills ob1 @ take k (map (\<lambda>(p, p'). (p, unat q)) ps)"
      "abs_book ob' = (if length ps < Suc k then \<lambda>sd. [] else (\<lambda>sd. [])(Sell := [(fst (ps ! k), unat q)]))"
      using Cons.IH [OF ob1(2,3)] Cons.prems(4) unfolding k1 by auto
    have "run_ops tsc (concat (map (cross_round q) (x # ps))) ob = Some ob'"
      using run_ops_append [of tsc "cross_round q (p, p')" ?rest ob] ob1(1) ob'(1) by (simp add: x(1))
    then show ?thesis unfolding k using ob'(2,3) ob1(5) by (simp add: x(1))
  qed
qed simp

lemma fill_rounds_leak:
  assumes "book_inv ob" and "abs_book ob = (\<lambda>sd. [])" and "n < length (free_slots ob)" and "0 < q"
  shows "\<exists>ob'. run_ops tsc (concat (replicate n (fill_round p q))) ob = Some ob' \<and> book_inv ob' \<and>
    abs_book ob' = (\<lambda>sd. []) \<and> length (free_slots ob') = length (free_slots ob) - n"
  using assms
proof (induction n arbitrary: ob)
  case (Suc n)
  have two: "2 \<le> length (free_slots ob)" using Suc.prems(3) by linarith
  obtain ob1 where ob1: "run_ops tsc (fill_round p q) ob = Some ob1" "book_inv ob1"
    "abs_book ob1 = (\<lambda>sd. [])" "length (free_slots ob1) = length (free_slots ob) - 1"
    using fill_round_leak [OF Suc.prems(1,2) two Suc.prems(4)] .
  have "n < length (free_slots ob1)" using Suc.prems(3) ob1(4) by linarith
  from Suc.IH [OF ob1(2,3) this Suc.prems(4)] obtain ob' where ob':
    "run_ops tsc (concat (replicate n (fill_round p q))) ob1 = Some ob'" "book_inv ob'"
    "abs_book ob' = (\<lambda>sd. [])" "length (free_slots ob') = length (free_slots ob1) - n" by blast
  have "run_ops tsc (concat (replicate (Suc n) (fill_round p q))) ob = Some ob'"
    using run_ops_append [of tsc "fill_round p q" "concat (replicate n (fill_round p q))" ob]
      ob1(1) ob'(1) by simp
  then show ?case using ob' ob1(4) by auto
qed simp

end
