(* ===== verification/Book_Theorems.thy ===== *)
theory Book_Theorems
  imports Book_Runs
begin

text \<open>
  The theorems about the order book, with a witness for each that has hypotheses. The
  witnesses run the model on the fresh book, whose free list is computed in closed form.
\<close>

text \<open>
  C1. A run of up to \<open>2 ^ 20 - 1\<close> submissions, without cancellations, on a fresh book computes exactly the run of the
  abstract book: it returns when the abstract run does, the two sides are the abstract
  ones, best price first, and the reported fills are the abstract fills in order. When the
  abstract run has no result, the code does not return.
\<close>

theorem run_refines_abstract_book:
  assumes "list_all submission ops" and "length ops < 2 ^ 20"
  shows "case spec_run ops (\<lambda>sd. []) of
      None \<Rightarrow> run_ops tsc ops (order_book_new sid d) = None
    | Some (fs, bk) \<Rightarrow> \<exists>ob. run_ops tsc ops (order_book_new sid d) = Some ob \<and>
        abs_book ob = bk \<and> reported_fills ob = fs"
  using assms by (rule run_new_spec)

lemma run_refines_abstract_book_witness:
  "\<exists>ob. run_ops (\<lambda>n. of_nat n)
      [Add Buy 10000 100 Limit, Add Buy 9500 100 Limit, Add Buy 9000 100 Limit, Add Sell 8500 250 Limit]
      (order_book_new 1 (\<lambda>_. 0)) = Some ob \<and>
    abs_book ob Buy = [(9000, 50)] \<and> abs_book ob Sell = [] \<and>
    reported_fills ob = [(10000, 100), (9500, 100), (9000, 50)]"
  using run_refines_abstract_book
    [of "[Add Buy 10000 100 Limit, Add Buy 9500 100 Limit, Add Buy 9000 100 Limit, Add Sell 8500 250 Limit]"
      "\<lambda>n. of_nat n" 1 "\<lambda>_. 0"]
  by (auto simp: spec_add_def)

text \<open>
  C3. Whatever sequence of submissions and cancellations has run on a fresh book, if it
  returned, both ladders are strictly increasing in price, the best bid is the highest bid
  and the best ask the lowest ask, the book is not crossed, and a spread that is defined is
  positive.
\<close>

theorem book_never_crossed:
  assumes "run_ops tsc ops (order_book_new sid d) = Some ob"
  shows "ladder_inv (bids ob) \<and> ladder_inv (asks ob) \<and>
    (\<forall>b. best_bid ob = Some b \<longrightarrow> (\<forall>l \<in> set (bids ob). lvl_price_ticks l \<le> lvl_price_ticks b)) \<and>
    (\<forall>a. best_ask ob = Some a \<longrightarrow> (\<forall>l \<in> set (asks ob). lvl_price_ticks a \<le> lvl_price_ticks l)) \<and>
    (\<forall>b a. best_bid ob = Some b \<longrightarrow> best_ask ob = Some a \<longrightarrow> lvl_price_ticks b < lvl_price_ticks a) \<and>
    (\<forall>s. spread_ticks ob = Some s \<longrightarrow> 0 < s)"
  by (rule book_inv_best_prices [OF run_ops_inv [OF book_inv_new assms]])

lemma book_never_crossed_witness:
  "\<exists>ob. run_ops (\<lambda>n. of_nat n) [Add Buy 10000 100 Limit, Add Sell 10100 100 Limit]
      (order_book_new 1 (\<lambda>_. 0)) = Some ob \<and>
    spread_ticks ob = Some 100 \<and> ladder_inv (bids ob) \<and> ladder_inv (asks ob)"
proof -
  have "\<exists>ob. run_ops (\<lambda>n. of_nat n) [Add Buy 10000 100 Limit, Add Sell 10100 100 Limit] fresh = Some ob \<and>
      spread_ticks ob = Some 100"
    by (simp add: book_eval spread_ticks_def best_bid_def best_ask_def i64_ok_def INT64_MAX_def
        INT64_MIN_def)
  then obtain ob where ob: "run_ops (\<lambda>n. of_nat n) [Add Buy 10000 100 Limit, Add Sell 10100 100 Limit]
      (order_book_new 1 (\<lambda>_. 0)) = Some ob" "spread_ticks ob = Some 100"
    unfolding fresh_def by blast
  show ?thesis using book_never_crossed [OF ob(1)] ob by blast
qed

text \<open>
  C11. Every index the book can use is in range, after any run: the slots the pool hands out
  and the slots the id table refers to lie in \<^verbatim>\<open>order_pool_\<close>, except for the mark of an unused entry,
  which \<^verbatim>\<open>cancel_order\<close> refuses; and the indices of the free list lie in its ring.
\<close>

theorem book_indices_in_range:
  assumes "run_ops tsc ops (order_book_new sid d) = Some ob"
  shows "list_all (\<lambda>s. unat s < 2 ^ 20) (free_slots ob) \<and>
    (unat (order_id_to_slot ob i) < 2 ^ 20 \<or> order_id_to_slot ob i = 0xFFFFFFFF \<and>
       (\<forall>oid. oid AND (MAX_ORDERS - 1) = i \<longrightarrow> cancel_order oid ob = (False, ob))) \<and>
    q_head (free_list ob) < MAX_ORDERS \<and> q_tail (free_list ob) < MAX_ORDERS"
proof -
  have pool: "pool_inv ob" using run_ops_inv [OF book_inv_new assms] by (simp add: book_inv_def)
  have slot: "slot_ok s \<longleftrightarrow> unat s < 2 ^ 20" for s
    by (simp add: slot_ok_def word_less_nat_alt unat_ucast_u32_u64 unat_MAX_ORDERS del: of_nat_unat)
  have "cancel_order oid ob = (False, ob)"
    if "order_id_to_slot ob i = 0xFFFFFFFF" and "oid AND (MAX_ORDERS - 1) = i" for oid
    using that by (simp add: cancel_order_def Let_def MAX_ORDERS_def)
  then show ?thesis
    using pool slot spsc_invD(2,3) unfolding pool_inv_def list_all_iff by metis
qed

lemma book_indices_in_range_witness:
  "\<exists>ob. run_ops (\<lambda>n. 0) [Add Sell 100 5 Limit, CancelOrder 1, Add Buy 100 9 Market] (order_book_new 1 (\<lambda>_. 0)) = Some ob \<and>
    list_all (\<lambda>s. unat s < 2 ^ 20) (free_slots ob) \<and> q_head (free_list ob) < MAX_ORDERS"
proof -
  have "sum_list (map op_qty [Add Sell 100 5 Limit, CancelOrder 1, Add Buy 100 9 Market]) < 2 ^ 32" by simp
  with run_ops_returns [OF book_inv_new levels_within_new, of 0] obtain ob where
    ob: "run_ops (\<lambda>n. 0) [Add Sell 100 5 Limit, CancelOrder 1, Add Buy 100 9 Market] (order_book_new 1 (\<lambda>_. 0)) = Some ob"
    by (metis add_0)
  show ?thesis using book_indices_in_range [OF ob] ob by blast
qed

text \<open>
  C8. Nothing is lost or created by matching: over a run of fewer than \<open>2 ^ 20\<close> submissions,
  without cancellations, on a fresh book, the total quantity submitted is the quantity resting on both sides plus twice the quantity
  reported in fills (each fill takes from the incoming and from the resting side).
\<close>

theorem quantity_conserved:
  assumes "list_all submission ops" and "length ops < 2 ^ 20"
    and "run_ops tsc ops (order_book_new sid d) = Some ob"
  shows "sum_list (map op_qty ops) = resting (abs_book ob) + 2 * total_qty (reported_fills ob)"
proof -
  obtain fs bk where run: "spec_run ops (\<lambda>sd. []) = Some (fs, bk)"
    and ob: "abs_book ob = bk" "reported_fills ob = fs"
    using run_new_spec [OF assms(1,2), of tsc sid d] assms(3) by (fastforce split: option.splits)
  show ?thesis using spec_run_conserve [OF assms(1) run] by (simp add: ob)
qed

lemma quantity_conserved_witness:
  "\<exists>ob. run_ops (\<lambda>n. of_nat n) [Add Buy 10000 100 Limit, Add Sell 9500 60 Limit]
      (order_book_new 1 (\<lambda>_. 0)) = Some ob \<and>
    160 = resting (abs_book ob) + 2 * total_qty (reported_fills ob)"
proof -
  have "\<exists>ob. run_ops (\<lambda>n. of_nat n) [Add Buy 10000 100 Limit, Add Sell 9500 60 Limit] fresh = Some ob"
    by (simp add: book_eval)
  then obtain ob where ob: "run_ops (\<lambda>n. of_nat n) [Add Buy 10000 100 Limit, Add Sell 9500 60 Limit]
      (order_book_new 1 (\<lambda>_. 0)) = Some ob"
    unfolding fresh_def by blast
  show ?thesis using quantity_conserved [OF _ _ ob] ob by simp
qed

text \<open>
  C10. Price priority: the fills of a submission are taken from the best levels of the other
  side on, in order of price, each at the price of the resting level and within the limit
  of the order; together they are the smaller of the order's quantity and of what the other
  side offers within the limit.
\<close>

theorem fills_follow_price_priority:
  assumes "book_inv ob" and "typ \<noteq> Cancel" and "free_slots ob \<noteq> []"
    and "add_order tsc sd p q typ ob = Some (oid, ob')"
  shows "\<exists>fs. reported_fills ob' = reported_fills ob @ fs \<and>
    (\<exists>k. map fst fs = take k (map fst (abs_book ob (opposite sd)))) \<and>
    (\<forall>f \<in> set fs. within_limit sd p (fst f)) \<and>
    total_qty fs =
      min (unat q) (total_qty (takeWhile (\<lambda>l. within_limit sd p (fst l)) (abs_book ob (opposite sd))))"
proof -
  obtain fs r rest where
    sw: "sweep (within_limit sd p) (unat q) (abs_book ob (opposite sd)) = Some (fs, r, rest)"
    and fs: "reported_fills ob' = reported_fills ob @ fs"
    using add_order_fills [OF assms] by metis
  show ?thesis
    using fs sweep_prefix [OF sw] sweep_amount [OF sw] by (intro exI [of _ fs]) simp
qed

lemma fills_follow_price_priority_witness:
  "\<exists>ob ob'. run_ops (\<lambda>n. of_nat n) [Add Sell 10500 100 Limit, Add Sell 10000 100 Limit]
      (order_book_new 1 (\<lambda>_. 0)) = Some ob \<and>
    add_order (\<lambda>n. of_nat n) Buy 10200 150 Limit ob = Some (3, ob') \<and>
    (\<exists>fs. reported_fills ob' = reported_fills ob @ fs \<and> total_qty fs = 100)"
proof -
  have "\<exists>ob ob'. run_ops (\<lambda>n. of_nat n) [Add Sell 10500 100 Limit, Add Sell 10000 100 Limit] fresh = Some ob \<and>
      add_order (\<lambda>n. of_nat n) Buy 10200 150 Limit ob = Some (3, ob') \<and>
      abs_book ob Sell = [(10000, 100), (10500, 100)] \<and> \<not> spsc_empty (free_list ob)"
    by (simp add: book_eval spsc_empty_def)
  then obtain ob ob' where ob: "run_ops (\<lambda>n. of_nat n)
        [Add Sell 10500 100 Limit, Add Sell 10000 100 Limit] (order_book_new 1 (\<lambda>_. 0)) = Some ob"
      "add_order (\<lambda>n. of_nat n) Buy 10200 150 Limit ob = Some (3, ob')"
      "abs_book ob Sell = [(10000, 100), (10500, 100)]" "\<not> spsc_empty (free_list ob)"
    unfolding fresh_def by blast
  note inv = run_ops_inv [OF book_inv_new ob(1)]
  have free: "free_slots ob \<noteq> []" using nonempty_free_slots [OF inv ob(4)] .
  show ?thesis
    using fills_follow_price_priority [OF inv _ free ob(2)] ob by auto
qed

text \<open>
  C12. Submissions and cancellations on a fresh book all return, as long as the quantities
  submitted add up to less than \<open>2 ^ 32\<close>.
\<close>

theorem run_returns:
  assumes "sum_list (map op_qty ops) < 2 ^ 32"
  shows "\<exists>ob. run_ops tsc ops (order_book_new sid d) = Some ob"
  using run_ops_returns [OF book_inv_new levels_within_new, of 0 ops tsc sid d] assms by simp

lemma run_returns_witness:
  "\<exists>ob. run_ops (\<lambda>n. 0) [Add Sell 100 0x7FFFFFFF Limit, Add Sell 100 0x7FFFFFFF Market, CancelOrder 1,
      Add Buy 100 1 Limit] (order_book_new 7 (\<lambda>_. 3)) = Some ob"
  by (rule run_returns) simp

text \<open>
  C13. When the best level of the other side is within the limit of the order and the low 32
  bits of its total are zero, \<^verbatim>\<open>add_order\<close> does not return: every iteration fills quantity
  zero and leaves the level in place.
\<close>

theorem add_order_can_diverge:
  assumes "book_inv ob" and "typ \<noteq> Cancel" and "free_slots ob \<noteq> []" and "0 < q"
    and "abs_book ob (opposite sd) = (x, n) # ls" and "within_limit sd p x"
    and "n mod 2 ^ 32 = 0" and "0 < n"
  shows "add_order tsc sd p q typ ob = None"
proof (rule add_order_stuck [OF assms(1-3)])
  have "2 ^ 32 \<le> n" using assms(7,8) by (intro leI notI) simp
  then show "sweep (within_limit sd p) (unat q) (abs_book ob (opposite sd)) = None"
    using assms(4-7) by (simp add: unat_gt_0 word_gt_0)
qed

lemma add_order_can_diverge_witness:
  "run_ops (\<lambda>n. 0) [Add Sell 100 0x80000000 Limit, Add Sell 100 0x80000000 Limit, Add Buy 100 1 Limit]
     (order_book_new 1 (\<lambda>_. 0)) = None"
proof -
  have "\<exists>ob. run_ops (\<lambda>n. 0) [Add Sell 100 0x80000000 Limit, Add Sell 100 0x80000000 Limit] fresh = Some ob \<and>
      abs_book ob Sell = [(100, 4294967296)] \<and> \<not> spsc_empty (free_list ob)"
    by (simp add: book_eval spsc_empty_def)
  then obtain ob where ob: "run_ops (\<lambda>n. 0) [Add Sell 100 0x80000000 Limit, Add Sell 100 0x80000000 Limit]
        (order_book_new 1 (\<lambda>_. 0)) = Some ob"
      "abs_book ob Sell = [(100, 4294967296)]" "\<not> spsc_empty (free_list ob)"
    unfolding fresh_def by blast
  note inv = run_ops_inv [OF book_inv_new ob(1)]
  have "add_order (\<lambda>n. 0) Buy 100 1 Limit ob = None"
    by (rule add_order_can_diverge [OF inv _ nonempty_free_slots [OF inv ob(3)], where x = 100
          and n = 4294967296 and ls = "[]"]) (use ob(2) in simp_all)
  then show ?thesis
    using ob(1) run_ops_append [of "\<lambda>n. 0" "[Add Sell 100 0x80000000 Limit, Add Sell 100 0x80000000 Limit]"
        "[Add Buy 100 1 Limit]" "order_book_new 1 (\<lambda>_. 0)"]
    by (simp add: book_step_def)
qed

text \<open>
  An exhausted pool refuses the order: \<^verbatim>\<open>add_order\<close> returns 0 and changes nothing but the
  id counter. Otherwise a submission that returns yields the next id.
\<close>

lemma add_order_ids:
  assumes "book_inv ob" and "typ \<noteq> Cancel"
  shows "if free_slots ob = [] then add_order tsc sd p q typ ob = Some (0, bump_id ob)
    else (\<forall>oid ob'. add_order tsc sd p q typ ob = Some (oid, ob') \<longrightarrow>
      oid = next_order_id ob \<and> next_order_id ob' = next_order_id ob + 1)"
proof (cases "free_slots ob = []")
  case True
  have "spsc_inv MAX_ORDERS (free_list ob)" using assms(1) by (simp add: book_inv_def pool_inv_def)
  from add_order_exhausted [OF this assms(2) True] show ?thesis unfolding if_P [OF True] .
next
  case False
  have "oid = next_order_id ob \<and> next_order_id ob' = next_order_id ob + 1"
    if "add_order tsc sd p q typ ob = Some (oid, ob')" for oid ob'
  proof
    show "oid = next_order_id ob" by (rule add_order_fills [OF assms False that])
    show "next_order_id ob' = next_order_id ob + 1" by (rule add_order_next_id [OF assms(1) that])
  qed
  then show ?thesis unfolding if_not_P [OF False] by blast
qed

text \<open>
  The counter behind \<^verbatim>\<open>total_orders()\<close> counts every call of \<^verbatim>\<open>add_order\<close> of a run,
  cancellation requests and refused orders included.
\<close>

lemma total_orders_counts_calls:
  assumes "run_ops tsc ops (order_book_new sid d) = Some ob"
  shows "total_orders ob = of_nat (length (filter is_add ops))"
  using run_ops_next_id [OF book_inv_new assms] by (simp add: total_orders_def)

text \<open>
  The constructor offers \<open>2 ^ 20\<close> slots to a ring that holds one less: the pool of a
  fresh book is the slots \<open>0 .. 2 ^ 20 - 2\<close> in order, and the push of the last one was
  refused.
\<close>

lemma fresh_pool:
  "free_slots (order_book_new sid d) = map of_nat [0..<2 ^ 20 - 1] \<and>
   of_nat (2 ^ 20 - 1) \<notin> set (free_slots (order_book_new sid d)) \<and>
   \<not> fst (spsc_push MAX_ORDERS x (free_list (order_book_new sid d)))"
proof -
  have "(of_nat (2 ^ 20 - 1) :: u32) \<notin> of_nat ` {0..<2 ^ 20 - 1}"
  proof
    assume "(of_nat (2 ^ 20 - 1) :: u32) \<in> of_nat ` {0..<2 ^ 20 - 1}"
    then obtain i where i: "i < 2 ^ 20 - 1" "(of_nat (2 ^ 20 - 1) :: u32) = of_nat i" by auto
    then have "unat (of_nat (2 ^ 20 - 1) :: u32) = unat (of_nat i :: u32)" by simp
    then show False using i(1) by (simp add: unat_of_nat)
  qed
  moreover have "\<not> fst (spsc_push MAX_ORDERS x (free_list (order_book_new sid d)))"
    by (simp add: new_free_list_eval spsc_push_def Let_def spsc_mask_def MAX_ORDERS_def)
  ultimately show ?thesis by (simp only: new_free_list(2) set_map set_upt) simp
qed

text \<open>
  C33. Cancelling never takes liquidity out of the book: after any run of fewer than \<open>2 ^ 32\<close>
  operations on a fresh book, \<^verbatim>\<open>cancel_order\<close> leaves both ladders as they were, whether it
  accepts the id or not, because it only removes a level that is empty already.
\<close>

theorem cancel_keeps_liquidity:
  assumes "run_ops tsc ops (order_book_new sid d) = Some ob" and "length ops < 2 ^ 32"
  shows "bids (snd (cancel_order oid ob)) = bids ob \<and> asks (snd (cancel_order oid ob)) = asks ob"
proof -
  have "length ops * (2 ^ 32 - 1) \<le> 2 ^ 32 * (2 ^ 32 - 1)"
    using assms(2) by (intro mult_right_mono) simp_all
  then have sum: "0 + sum_list (map op_qty ops) < 2 ^ 64"
    using sum_op_qty_bound [of ops] by simp
  have within: "levels_within (0 + sum_list (map op_qty ops)) (abs_book ob)"
    by (rule run_ops_within [OF book_inv_new levels_within_new sum assms(1)])
  have inv: "book_inv ob" by (rule run_ops_inv [OF book_inv_new assms(1)])
  show ?thesis using cancel_order_ladders [OF inv within] by simp
qed

lemma cancel_keeps_liquidity_witness:
  "\<exists>ob. run_ops (\<lambda>n. 0) [Add Buy 10000 100 Limit] (order_book_new 1 (\<lambda>_. 0)) = Some ob \<and>
    fst (cancel_order 1 ob) \<and> bid_view (snd (cancel_order 1 ob)) = [(10000, 100)]"
proof -
  have "\<exists>ob. run_ops (\<lambda>n. 0) [Add Buy 10000 100 Limit] fresh = Some ob \<and>
      fst (cancel_order 1 ob) \<and> bid_view ob = [(10000, 100)]"
    by (simp add: book_eval)
  then obtain ob where ob: "run_ops (\<lambda>n. 0) [Add Buy 10000 100 Limit] (order_book_new 1 (\<lambda>_. 0)) = Some ob"
      "fst (cancel_order 1 ob)" "bid_view ob = [(10000, 100)]"
    unfolding fresh_def by blast
  show ?thesis
    using cancel_keeps_liquidity [OF ob(1), of 1] ob by (auto simp: bid_view_def)
qed

lemma take_take_snoc: "take m (take m xs @ ys) = take m (xs @ ys)"
  by (cases "length xs \<le> m") simp_all

text \<open>
  C34. An order that \<^verbatim>\<open>add_order\<close> accepted can be found under its id, in the slot taken from
  the front of the pool, with its price and its side; and it can be cancelled twice, even
  when it was filled at once. Each cancellation puts its slot at the end of the pool unless
  the pool, which holds at most \<open>2 ^ 20 - 1\<close> slots, is full. So with room for two the pool holds
  the slot twice afterwards, and two later orders will share it. There is room for one only
  when no other slot is missing from the pool, as after the first resting order of a fresh
  book; the second cancellation is accepted all the same.
\<close>

theorem accepted_order_cancels_twice:
  assumes "book_inv ob" and "typ \<noteq> Cancel" and "free_slots ob = slot # slots"
    and "add_order tsc sd p q typ ob = Some (oid, ob')"
  shows "order_id_to_slot ob' (oid AND (MAX_ORDERS - 1)) = slot \<and>
    ord_order_id (order_pool ob' slot) = oid \<and> ord_price_ticks (order_pool ob' slot) = p \<and>
    ord_side (order_pool ob' slot) = sd \<and>
    (let (ok1, ob1) = cancel_order oid ob'; (ok2, ob2) = cancel_order oid ob1
     in ok1 \<and> ok2 \<and> free_slots ob2 = take (2 ^ 20 - 1) (free_slots ob' @ [slot, slot]))"
proof -
  have ne: "free_slots ob \<noteq> []" by (simp add: assms(3))
  obtain fs r rest where
    sw: "sweep (within_limit sd p) (unat q) (abs_book ob (opposite sd)) = Some (fs, r, rest)"
    and oid: "oid = next_order_id ob"
    using add_order_fills [OF assms(1,2) ne assms(4)] by metis
  note slot = add_order_free_slots [OF assms(1-3) sw assms(4)]
  define ob1 where "ob1 = snd (cancel_order oid ob')"
  define ob2 where "ob2 = snd (cancel_order oid ob1)"
  have found: "order_id_to_slot ob' (oid AND (MAX_ORDERS - 1)) = slot"
    "ord_order_id (order_pool ob' slot) = oid" using slot oid by simp_all
  note c1 = cancel_order_accepted [of ob' oid, unfolded found, OF slot(7) refl, folded ob1_def]
  have found1: "order_id_to_slot ob1 (oid AND (MAX_ORDERS - 1)) = slot"
    "ord_order_id (order_pool ob1 slot) = oid" using c1 found by simp_all
  note c2 = cancel_order_accepted [of ob1 oid, unfolded found1, OF slot(7) refl, folded ob2_def]
  have inv': "book_inv ob'" using add_order_inv [OF assms(1,4)] .
  have inv1: "book_inv ob1" unfolding ob1_def by (rule cancel_order_inv [OF inv'])
  have fl': "spsc_inv MAX_ORDERS (free_list ob')" "spsc_inv MAX_ORDERS (free_list ob1)"
    using inv' inv1 by (simp_all add: book_inv_def pool_inv_def)
  have "free_slots ob2 = take (2 ^ 20 - 1) (take (2 ^ 20 - 1) (free_slots ob' @ [slot]) @ [slot])"
    unfolding c2(4) free_push_take [OF fl'(2)] unfolding c1(4) free_push_take [OF fl'(1)] ..
  then have "free_slots ob2 = take (2 ^ 20 - 1) (free_slots ob' @ [slot, slot])"
    by (simp only: take_take_snoc append_assoc append.simps)
  then show ?thesis
    using found slot(4,5) c1(1) c2(1) unfolding Let_def case_prod_unfold ob2_def ob1_def by blast
qed

lemma accepted_order_cancels_twice_witness:
  "(\<exists>ob ob'. run_ops (\<lambda>n. 0) [Add Buy 100 1 Limit, Add Buy 100 1 Limit] (order_book_new 1 (\<lambda>_. 0)) = Some ob \<and>
     add_order (\<lambda>n. 0) Sell 100 2 Limit ob = Some (3, ob') \<and>
     fst (cancel_order 3 ob') \<and> fst (cancel_order 3 (snd (cancel_order 3 ob'))) \<and>
     2 \<le> count_list (free_slots (snd (cancel_order 3 (snd (cancel_order 3 ob'))))) (hd (free_slots ob))) \<and>
   (\<exists>ob'. add_order (\<lambda>n. 0) Sell 100 2 Limit (order_book_new 1 (\<lambda>_. 0)) = Some (1, ob') \<and>
     fst (cancel_order 1 ob') \<and> fst (cancel_order 1 (snd (cancel_order 1 ob'))) \<and>
     free_slots (snd (cancel_order 1 (snd (cancel_order 1 ob')))) = map of_nat [1..<2 ^ 20 - 1] @ [0])"
proof (rule conjI)
  have "\<exists>ob ob'. run_ops (\<lambda>n. 0) [Add Buy 100 1 Limit, Add Buy 100 1 Limit] fresh = Some ob \<and>
      add_order (\<lambda>n. 0) Sell 100 2 Limit ob = Some (3, ob') \<and>
      spsc_size MAX_ORDERS (free_list ob) = 0xFFFFD \<and> spsc_size MAX_ORDERS (free_list ob') = 0xFFFFD"
    by (simp add: book_eval spsc_size_def)
  then obtain ob ob' where ob:
      "run_ops (\<lambda>n. 0) [Add Buy 100 1 Limit, Add Buy 100 1 Limit] (order_book_new 1 (\<lambda>_. 0)) = Some ob"
      "add_order (\<lambda>n. 0) Sell 100 2 Limit ob = Some (3, ob')"
      "spsc_size MAX_ORDERS (free_list ob) = 0xFFFFD" "spsc_size MAX_ORDERS (free_list ob') = 0xFFFFD"
    unfolding fresh_def by blast
  have len: "length (free_slots ob) = 0xFFFFD" "length (free_slots ob') = 0xFFFFD" using ob(3,4) by simp_all
  then obtain slot slots where free: "free_slots ob = slot # slots"
    by (cases "free_slots ob") (simp_all del: length_spsc_contents)
  have "fst (cancel_order 3 ob') \<and> fst (cancel_order 3 (snd (cancel_order 3 ob'))) \<and>
      free_slots (snd (cancel_order 3 (snd (cancel_order 3 ob')))) = free_slots ob' @ [slot, slot]"
    using accepted_order_cancels_twice [OF run_ops_inv [OF book_inv_new ob(1)] _ free ob(2)] len(2)
    by (simp add: case_prod_unfold Let_def del: length_spsc_contents)
  then show "\<exists>ob ob'. run_ops (\<lambda>n. 0) [Add Buy 100 1 Limit, Add Buy 100 1 Limit] (order_book_new 1 (\<lambda>_. 0)) = Some ob \<and>
     add_order (\<lambda>n. 0) Sell 100 2 Limit ob = Some (3, ob') \<and>
     fst (cancel_order 3 ob') \<and> fst (cancel_order 3 (snd (cancel_order 3 ob'))) \<and>
     2 \<le> count_list (free_slots (snd (cancel_order 3 (snd (cancel_order 3 ob'))))) (hd (free_slots ob))"
    using ob(1,2) free by auto
next
  let ?new = "order_book_new 1 (\<lambda>_. 0)" and ?slots = "map of_nat [1..<2 ^ 20 - 1] :: u32 list"
  have free: "free_slots ?new = 0 # ?slots"
    unfolding new_free_list(2) by (subst upt_conv_Cons) (simp_all del: upt_rec_numeral upt_Suc)
  obtain ob' where ob': "add_order (\<lambda>n. 0) Sell 100 2 Limit ?new = Some (next_order_id ?new, ob')"
    "free_slots ob' = ?slots"
  proof (rule sell_rests_on_empty [OF book_inv_new abs_book_new free, where q = 2 and p = 100 and tsc = "\<lambda>n. 0"])
    show "0 < (2 :: u32)" by simp
  qed (rule that)
  have oid: "next_order_id ?new = 1" by (simp add: order_book_new_def)
  have cut: "take (2 ^ 20 - 1) (?slots @ [0, 0]) = ?slots @ [0]"
    by (simp del: upt_rec_numeral upt_Suc)
  show "\<exists>ob'. add_order (\<lambda>n. 0) Sell 100 2 Limit ?new = Some (1, ob') \<and>
     fst (cancel_order 1 ob') \<and> fst (cancel_order 1 (snd (cancel_order 1 ob'))) \<and>
     free_slots (snd (cancel_order 1 (snd (cancel_order 1 ob')))) = ?slots @ [0]"
    using accepted_order_cancels_twice [OF book_inv_new _ free ob'(1)] ob'(1)
    unfolding oid ob'(2) cut by (auto simp: case_prod_unfold Let_def simp del: upt_rec_numeral upt_Suc)
qed

text \<open>
  C35. The slot of a resting order is not returned when a later order fills it: after \<open>n\<close>
  rounds of a sell and a buy of the same price and quantity, the book is empty again but
  the pool has lost \<open>n\<close> slots, up to the \<open>2 ^ 20 - 2\<close> rounds after which a single slot is left.
\<close>

theorem filled_orders_leak_slots:
  assumes "0 < q" and "n \<le> 2 ^ 20 - 2"
  shows "\<exists>ob. run_ops tsc (concat (replicate n (fill_round p q))) (order_book_new sid d) = Some ob \<and>
    abs_book ob = (\<lambda>sd. []) \<and> length (free_slots ob) = 2 ^ 20 - 1 - n"
proof -
  have len: "length (free_slots (order_book_new sid d)) = 2 ^ 20 - 1"
    by (simp only: new_free_list(2) length_map length_upt diff_zero)
  then have "n < length (free_slots (order_book_new sid d))"
    unfolding len using assms(2) by simp
  from fill_rounds_leak [OF book_inv_new abs_book_new this assms(1)] show ?thesis
    unfolding len by blast
qed

lemma filled_orders_leak_slots_witness:
  "\<exists>ob. run_ops (\<lambda>n. 0) (concat (replicate (2 ^ 20 - 2) (fill_round 100 1))) (order_book_new 1 (\<lambda>_. 0)) = Some ob \<and>
    abs_book ob = (\<lambda>sd. []) \<and> length (free_slots ob) = 1"
  using filled_orders_leak_slots [of 1 "2 ^ 20 - 2" "\<lambda>n. 0" 100 1 "\<lambda>_. 0"]
  by (simp del: length_spsc_contents)

text \<open>
  C36. A book without a free slot refuses every submission with the id 0, and does so for
  ever: no sequence of submissions, whatever it contains, frees a slot, changes a level or
  reports a fill.
\<close>

theorem exhausted_book_refuses:
  assumes "book_inv ob" and "free_slots ob = []" and "list_all submission ops" and "ty \<noteq> Cancel"
  shows "\<exists>ob'. run_ops tsc ops ob = Some ob' \<and> abs_book ob' = abs_book ob \<and>
    reported_fills ob' = reported_fills ob \<and> free_slots ob' = [] \<and>
    (\<exists>ob''. add_order tsc sd p q ty ob' = Some (0, ob''))"
proof -
  obtain ob' where ob': "run_ops tsc ops ob = Some ob'" "book_inv ob'" "free_slots ob' = []"
    "abs_book ob' = abs_book ob" "reported_fills ob' = reported_fills ob"
    using run_ops_exhausted [OF assms(1-3), of tsc] by blast
  have "spsc_inv MAX_ORDERS (free_list ob')" using ob'(2) by (simp add: book_inv_def pool_inv_def)
  from add_order_exhausted [OF this assms(4) ob'(3)] ob' show ?thesis by blast
qed

lemma exhausted_book_refuses_witness:
  "\<exists>ob. run_ops (\<lambda>n. 0) (concat (replicate (2 ^ 20 - 2) (fill_round 100 1)) @ [Add Sell 105 7 Limit])
      (order_book_new 1 (\<lambda>_. 0)) = Some ob \<and> abs_book ob Sell = [(105, 7)] \<and>
    (\<exists>ob'. run_ops (\<lambda>n. 0) [Add Buy 200 7 Limit, Add Buy 90 3 Market] ob = Some ob' \<and>
      abs_book ob' = abs_book ob \<and> (\<exists>ob''. add_order (\<lambda>n. 0) Buy 105 7 Limit ob' = Some (0, ob'')))"
proof -
  let ?new = "order_book_new 1 (\<lambda>_. 0)" and ?rounds = "concat (replicate (2 ^ 20 - 2) (fill_round 100 1))"
  have len: "length (free_slots ?new) = 2 ^ 20 - 1"
    by (simp only: new_free_list(2) length_map length_upt diff_zero)
  obtain ob1 where ob1: "run_ops (\<lambda>n. 0) ?rounds ?new = Some ob1" "book_inv ob1" "abs_book ob1 = (\<lambda>sd. [])"
    "length (free_slots ob1) = 1"
    using fill_rounds_leak [OF book_inv_new abs_book_new, of "2 ^ 20 - 2" 1 "\<lambda>_. 0" 1 "\<lambda>n. 0" 100]
    unfolding len by auto
  obtain s where free: "free_slots ob1 = [s]" using ob1(4) by (metis One_nat_def length_0_conv length_Suc_conv)
  obtain ob where ob: "add_order (\<lambda>n. 0) Sell 105 7 Limit ob1 = Some (next_order_id ob1, ob)" "book_inv ob"
    "abs_book ob = (\<lambda>sd. [])(Sell := [(105, unat (7 :: u32))])" "free_slots ob = []"
  proof (rule sell_rests_on_empty [OF ob1(2,3) free, where q = 7 and p = 105 and tsc = "\<lambda>n. 0"])
    show "0 < (7 :: u32)" by simp
  qed (rule that)
  have run: "run_ops (\<lambda>n. 0) (?rounds @ [Add Sell 105 7 Limit]) ?new = Some ob"
    unfolding run_ops_append ob1(1) by (simp add: book_step_def ob(1))
  have "list_all submission [Add Buy 200 7 Limit, Add Buy 90 3 Market]" "Limit \<noteq> Cancel" by simp_all
  from exhausted_book_refuses [OF ob(2,4) this, of "\<lambda>n. 0" Buy 105 7] run ob(3) show ?thesis by auto
qed

text \<open>The recorded order type plays no part after a cancellation request has been told
  apart: forgetting it commutes with matching and resting.\<close>

definition forget_type :: "order_book \<Rightarrow> order_book" where
  "forget_type ob = ob\<lparr>order_pool := (\<lambda>s. (order_pool ob s)\<lparr>ord_type := Limit\<rparr>)\<rparr>"

lemma forget_type_simps [simp]:
  "bids (forget_type ob) = bids ob" "asks (forget_type ob) = asks ob"
  "free_list (forget_type ob) = free_list ob" "matches (forget_type ob) = matches ob"
  "tsc_reads (forget_type ob) = tsc_reads ob" "next_order_id (forget_type ob) = next_order_id ob"
  "symbol_id (forget_type ob) = symbol_id ob" "order_id_to_slot (forget_type ob) = order_id_to_slot ob"
  by (simp_all add: forget_type_def)

lemma forget_type_match:
  "map_option (map_prod id forget_type) (match_side tsc sd q p ob) = match_side tsc sd q p (forget_type ob)"
proof (cases sd)
  case Buy
  have "map_option (map_prod id forget_type) (while_option (buy_guard p) (buy_body tsc) (q, ob)) =
      while_option (buy_guard p) (buy_body tsc) (map_prod id forget_type (q, ob))"
    by (rule while_option_commute)
      (auto simp: buy_guard_def buy_body_def emit_match_def Let_def forget_type_def split: option.splits)
  from this [symmetric] show ?thesis
    by (simp add: Buy match_aggressive_buy_def option.map_comp o_def case_prod_unfold map_prod_def)
next
  case Sell
  have "map_option (map_prod id forget_type) (while_option (sell_guard p) (sell_body tsc) (q, ob)) =
      while_option (sell_guard p) (sell_body tsc) (map_prod id forget_type (q, ob))"
    by (rule while_option_commute)
      (auto simp: sell_guard_def sell_body_def emit_match_def Let_def forget_type_def split: option.splits)
  from this [symmetric] show ?thesis
    by (simp add: Sell match_aggressive_sell_def option.map_comp o_def case_prod_unfold map_prod_def)
qed

lemma forget_type_rest: "forget_type (rest_order sd p r slot ob) = rest_order sd p r slot (forget_type ob)"
  by (simp add: rest_order_def Let_def forget_type_def fun_eq_iff)

lemma forget_type_fill:
  "forget_type (fill_slot tsc oid sd p q t slot ob) = forget_type (fill_slot tsc oid sd p q t' slot ob)"
  by (simp add: fill_slot_def forget_type_def fun_eq_iff)

lemma forget_type_add_order:
  assumes "t \<noteq> Cancel"
  shows "map_option (map_prod id forget_type) (add_order tsc sd p q t ob) =
    (case spsc_pop MAX_ORDERS (free_list ob) of
       (None, fl) \<Rightarrow> Some (0, forget_type ((bump_id ob)\<lparr>free_list := fl\<rparr>))
     | (Some slot, fl) \<Rightarrow> map_option (\<lambda>(r, ob3). (next_order_id ob, rest_order sd p (ucast r) slot ob3))
         (match_side tsc sd q p (forget_type
            (fill_slot tsc (next_order_id ob) sd p q Limit slot ((bump_id ob)\<lparr>free_list := fl\<rparr>)))))"
proof -
  have comm: "map_option (map_prod id forget_type)
      (map_option (\<lambda>(r, ob3). (oid, rest_order sd p (ucast r) slot ob3)) (match_side tsc sd q p ob2)) =
      map_option (\<lambda>(r, ob3). (oid, rest_order sd p (ucast r) slot ob3))
        (match_side tsc sd q p (forget_type ob2))" for oid slot ob2
    using forget_type_match [where tsc = tsc and sd = sd and q = q and p = p and ob = ob2, symmetric]
    by (simp add: option.map_comp o_def case_prod_unfold map_prod_def forget_type_rest)
  obtain s fl where pop: "spsc_pop MAX_ORDERS (free_list ob) = (s, fl)" by fastforce
  show ?thesis
  proof (cases s)
    case None
    then show ?thesis using assms pop by (simp add: add_order_def Let_def)
  next
    case (Some slot)
    then have "add_order tsc sd p q t ob = map_option (\<lambda>(r, ob3). (next_order_id ob, rest_order sd p (ucast r) slot ob3))
        (match_side tsc sd q p (fill_slot tsc (next_order_id ob) sd p q t slot ((bump_id ob)\<lparr>free_list := fl\<rparr>)))"
      using assms pop by (simp add: add_order_def Let_def)
    then show ?thesis
      by (simp only: comm pop Some prod.case option.case forget_type_fill [where t = t and t' = Limit])
  qed
qed

text \<open>
  A market order is treated as a limit order at the price it carries: it returns the same
  id and leaves the same book, fills and pool, apart from the type recorded in its slot; in
  particular it does not cross that price, and its remainder rests in the book.
\<close>

lemma market_is_limit:
  "map_option (map_prod id forget_type) (add_order tsc sd p q Market ob) =
   map_option (map_prod id forget_type) (add_order tsc sd p q Limit ob)"
  by (simp only: forget_type_add_order order_type.distinct not_False_eq_True)

end
