(* ===== verification/Spsc_Concurrent.thy ===== *)
theory Spsc_Concurrent
  imports Spsc_Queue
begin

text \<open>
  \<^verbatim>\<open>SpscQueue\<close> of \<^verbatim>\<open>1_orderbook/include/spsc_queue.hpp\<close> used as it is meant to be: one thread
  pushes while another pops. A step is one load or store of the source; the program
  counters of the two threads remember what has been loaded. A call takes effect, and is
  reported by an event, at its store to \<^verbatim>\<open>head_\<close> or \<^verbatim>\<open>tail_\<close>, or at the load that makes it fail.
\<close>

text \<open>After the load of \<^verbatim>\<open>head_\<close>, after the test against \<^verbatim>\<open>tail_\<close>, after the store to \<^verbatim>\<open>data_\<close>.\<close>

datatype 'a pusher = PIdle | PLoaded 'a u64 | PChecked 'a u64 u64 | PWritten 'a u64

text \<open>After the load of \<^verbatim>\<open>tail_\<close>, after the test against \<^verbatim>\<open>head_\<close>, after the load of the element.\<close>

datatype 'a popper = CIdle | CLoaded u64 | CChecked u64 | CRead u64 'a

record 'a spsc_sys =
  ring :: "'a spsc"
  pusher :: "'a pusher"
  popper :: "'a popper"

datatype 'a spsc_event = Local | Pushed 'a | Refused 'a | Popped 'a | Found_empty

inductive spsc_step :: "u64 \<Rightarrow> 'a spsc_sys \<Rightarrow> 'a spsc_event \<Rightarrow> 'a spsc_sys \<Rightarrow> bool" for cap where
  push_load: "pusher s = PIdle \<Longrightarrow>
    spsc_step cap s Local (s\<lparr>pusher := PLoaded x (q_head (ring s))\<rparr>)"
| push_full: "pusher s = PLoaded x h \<Longrightarrow> (h + 1) AND spsc_mask cap = q_tail (ring s) \<Longrightarrow>
    spsc_step cap s (Refused x) (s\<lparr>pusher := PIdle\<rparr>)"
| push_check: "pusher s = PLoaded x h \<Longrightarrow> (h + 1) AND spsc_mask cap \<noteq> q_tail (ring s) \<Longrightarrow>
    spsc_step cap s Local (s\<lparr>pusher := PChecked x h ((h + 1) AND spsc_mask cap)\<rparr>)"
| push_write: "pusher s = PChecked x h n \<Longrightarrow>
    spsc_step cap s Local
      (s\<lparr>ring := (ring s)\<lparr>q_data := (q_data (ring s))(h := x)\<rparr>, pusher := PWritten x n\<rparr>)"
| push_publish: "pusher s = PWritten x n \<Longrightarrow>
    spsc_step cap s (Pushed x) (s\<lparr>ring := (ring s)\<lparr>q_head := n\<rparr>, pusher := PIdle\<rparr>)"
| pop_load: "popper s = CIdle \<Longrightarrow>
    spsc_step cap s Local (s\<lparr>popper := CLoaded (q_tail (ring s))\<rparr>)"
| pop_empty: "popper s = CLoaded t \<Longrightarrow> t = q_head (ring s) \<Longrightarrow>
    spsc_step cap s Found_empty (s\<lparr>popper := CIdle\<rparr>)"
| pop_check: "popper s = CLoaded t \<Longrightarrow> t \<noteq> q_head (ring s) \<Longrightarrow>
    spsc_step cap s Local (s\<lparr>popper := CChecked t\<rparr>)"
| pop_read: "popper s = CChecked t \<Longrightarrow>
    spsc_step cap s Local (s\<lparr>popper := CRead t (q_data (ring s) t)\<rparr>)"
| pop_publish: "popper s = CRead t x \<Longrightarrow>
    spsc_step cap s (Popped x)
      (s\<lparr>ring := (ring s)\<lparr>q_tail := (t + 1) AND spsc_mask cap\<rparr>, popper := CIdle\<rparr>)"

inductive spsc_run :: "u64 \<Rightarrow> 'a spsc_sys \<Rightarrow> 'a spsc_event list \<Rightarrow> 'a spsc_sys \<Rightarrow> bool" for cap where
  start: "spsc_run cap s [] s"
| snoc: "spsc_run cap s es s1 \<Longrightarrow> spsc_step cap s1 e s2 \<Longrightarrow> spsc_run cap s (es @ [e]) s2"

definition spsc_init :: "(u64 \<Rightarrow> 'a) \<Rightarrow> 'a spsc_sys" where
  "spsc_init d = \<lparr>ring = spsc_new d, pusher = PIdle, popper = CIdle\<rparr>"

text \<open>Both threads about to touch the same element, one of them writing.\<close>

definition data_race :: "'a spsc_sys \<Rightarrow> bool" where
  "data_race s \<longleftrightarrow> (case (pusher s, popper s) of (PChecked x h n, CChecked t) \<Rightarrow> h = t | _ \<Rightarrow> False)"

text \<open>The queue the threads believe they share: a list of at most \<open>b\<close> elements on which every
  event is legal at the moment it happens.\<close>

fun fifo_event :: "nat \<Rightarrow> 'a spsc_event \<Rightarrow> 'a list \<Rightarrow> 'a list option" where
  "fifo_event b Local xs = Some xs"
| "fifo_event b (Pushed x) xs = (if length xs < b then Some (xs @ [x]) else None)"
| "fifo_event b (Refused x) xs = (if length xs = b then Some xs else None)"
| "fifo_event b (Popped x) xs = (case xs of [] \<Rightarrow> None | y # ys \<Rightarrow> if y = x then Some ys else None)"
| "fifo_event b Found_empty xs = (if xs = [] then Some xs else None)"

fun fifo_events :: "nat \<Rightarrow> 'a spsc_event list \<Rightarrow> 'a list \<Rightarrow> 'a list option" where
  "fifo_events b [] xs = Some xs"
| "fifo_events b (e # es) xs = (case fifo_event b e xs of None \<Rightarrow> None | Some ys \<Rightarrow> fifo_events b es ys)"

lemma fifo_events_append:
  "fifo_events b (es @ es') xs =
     (case fifo_events b es xs of None \<Rightarrow> None | Some ys \<Rightarrow> fifo_events b es' ys)"
  by (induction es arbitrary: xs) (auto split: option.split)

subsection \<open>Invariant\<close>

definition pusher_ok :: "u64 \<Rightarrow> 'a spsc_sys \<Rightarrow> bool" where
  "pusher_ok cap s \<longleftrightarrow> (let q = ring s; n = (q_head q + 1) AND spsc_mask cap in
     case pusher s of PIdle \<Rightarrow> True
     | PLoaded x h \<Rightarrow> h = q_head q
     | PChecked x h n' \<Rightarrow> h = q_head q \<and> n' = n \<and> unat (spsc_size cap q) < unat cap - 1
     | PWritten x n' \<Rightarrow> n' = n \<and> q_data q (q_head q) = x \<and> unat (spsc_size cap q) < unat cap - 1)"

definition popper_ok :: "'a spsc_sys \<Rightarrow> bool" where
  "popper_ok s \<longleftrightarrow> (let q = ring s in
     case popper s of CIdle \<Rightarrow> True
     | CLoaded t \<Rightarrow> t = q_tail q
     | CChecked t \<Rightarrow> t = q_tail q \<and> q_tail q \<noteq> q_head q
     | CRead t x \<Rightarrow> t = q_tail q \<and> q_tail q \<noteq> q_head q \<and> q_data q t = x)"

definition spsc_sys_inv :: "u64 \<Rightarrow> 'a spsc_sys \<Rightarrow> bool" where
  "spsc_sys_inv cap s \<longleftrightarrow> spsc_inv cap (ring s) \<and> pusher_ok cap s \<and> popper_ok s"

abbreviation held :: "u64 \<Rightarrow> 'a spsc_sys \<Rightarrow> 'a list" where
  "held cap s \<equiv> spsc_contents cap (ring s)"

lemmas sys_inv_defs = spsc_sys_inv_def pusher_ok_def popper_ok_def Let_def

text \<open>The element is stored before it is published: the head slot is outside the queue.\<close>

lemma write_head_slot:
  assumes "spsc_inv cap q"
  shows "spsc_contents cap (q\<lparr>q_data := (q_data q)(q_head q := x)\<rparr>) = spsc_contents cap q"
    and "spsc_inv cap (q\<lparr>q_data := (q_data q)(q_head q := x)\<rparr>)"
    and "spsc_size cap (q\<lparr>q_data := (q_data q)(q_head q := x)\<rparr>) = spsc_size cap q"
  using nth_slot_eq_head_iff [OF assms] assms
  by (simp_all add: spsc_contents_def spsc_size_def spsc_inv_def)

text \<open>The two stores that publish are what the calls do when they run alone.\<close>

lemma publish_is_push:
  assumes "spsc_inv cap q" and "q_data q (q_head q) = x" and "unat (spsc_size cap q) < unat cap - 1"
  shows "spsc_push cap x q = (True, q\<lparr>q_head := (q_head q + 1) AND spsc_mask cap\<rparr>)"
proof -
  have "(q_head q + 1) AND spsc_mask cap \<noteq> q_tail q" using spsc_full_iff [OF assms(1)] assms(3) by simp
  moreover have "(q_data q)(q_head q := x) = q_data q" using assms(2) by auto
  ultimately show ?thesis by (simp add: spsc_push_def Let_def)
qed

lemma publish_is_pop:
  assumes "q_tail q \<noteq> q_head q"
  shows "spsc_pop cap q = (Some (q_data q (q_tail q)), q\<lparr>q_tail := (q_tail q + 1) AND spsc_mask cap\<rparr>)"
  using assms by (simp add: spsc_pop_def Let_def)

subsection \<open>Steps\<close>

lemma step_push_publish:
  assumes "spsc_sys_inv cap s" and "pusher s = PWritten x n"
  defines "s' \<equiv> s\<lparr>ring := (ring s)\<lparr>q_head := n\<rparr>, pusher := PIdle\<rparr>"
  shows "spsc_sys_inv cap s' \<and> fifo_event (unat cap - 1) (Pushed x) (held cap s) = Some (held cap s')"
proof -
  let ?q = "ring s" and ?q' = "ring s'"
  have q: "spsc_inv cap ?q" "q_data ?q (q_head ?q) = x" "unat (spsc_size cap ?q) < unat cap - 1"
    and n: "n = (q_head ?q + 1) AND spsc_mask cap" and pop: "popper_ok s"
    using assms(1,2) by (simp_all add: sys_inv_defs)
  have push: "spsc_push cap x ?q = (True, ?q')" using publish_is_push [OF q] by (simp add: s'_def n)
  have "spsc_inv cap ?q'" using spsc_push_inv [OF q(1), of x] push by simp
  moreover have "spsc_contents cap ?q' = spsc_contents cap ?q @ [x]"
    by (rule spsc_push_contents [OF q(1) push])
  moreover have "n \<noteq> q_tail ?q" using q(3) spsc_full_iff [OF q(1)] by (simp add: n)
  then have "popper_ok s'" using pop by (auto simp: popper_ok_def Let_def s'_def split: popper.splits)
  ultimately show ?thesis using q(3) by (simp add: spsc_sys_inv_def pusher_ok_def s'_def)
qed

lemma step_pop_publish:
  assumes "spsc_sys_inv cap s" and "popper s = CRead t x"
  defines "s' \<equiv> s\<lparr>ring := (ring s)\<lparr>q_tail := (t + 1) AND spsc_mask cap\<rparr>, popper := CIdle\<rparr>"
  shows "spsc_sys_inv cap s' \<and> fifo_event (unat cap - 1) (Popped x) (held cap s) = Some (held cap s')"
proof -
  let ?q = "ring s" and ?q' = "ring s'"
  have q: "spsc_inv cap ?q" "q_tail ?q \<noteq> q_head ?q" and t: "t = q_tail ?q" "q_data ?q t = x"
    and psh: "pusher_ok cap s"
    using assms(1,2) by (auto simp: sys_inv_defs)
  have pop: "spsc_pop cap ?q = (Some x, ?q')" using publish_is_pop [OF q(2), of cap] t by (simp add: s'_def)
  have inv': "spsc_inv cap ?q'" using spsc_pop_inv [OF q(1)] pop by simp
  moreover have "held cap s = x # held cap s'" using spsc_pop_contents [OF q] pop t by simp
  moreover have "unat (spsc_size cap ?q') < unat (spsc_size cap ?q)"
    using spsc_pop_size [OF q] pop by simp
  then have "pusher_ok cap s'" using psh
    by (auto simp: pusher_ok_def Let_def s'_def split: pusher.splits)
  ultimately show ?thesis by (simp add: spsc_sys_inv_def popper_ok_def s'_def)
qed

lemma step_push_write:
  assumes "spsc_sys_inv cap s" and "pusher s = PChecked x h n"
  defines "s' \<equiv> s\<lparr>ring := (ring s)\<lparr>q_data := (q_data (ring s))(h := x)\<rparr>, pusher := PWritten x n\<rparr>"
  shows "spsc_sys_inv cap s' \<and> held cap s' = held cap s"
proof -
  let ?q = "ring s"
  have q: "spsc_inv cap ?q" "h = q_head ?q" "popper_ok s"
    using assms(1,2) by (simp_all add: sys_inv_defs)
  then have "popper_ok s'" by (auto simp: popper_ok_def Let_def s'_def split: popper.splits)
  then show ?thesis using write_head_slot [OF q(1), of x] assms(1,2) q(2)
    by (simp add: spsc_sys_inv_def pusher_ok_def Let_def s'_def)
qed

lemma spsc_step_inv:
  assumes "spsc_step cap s e s'" and "spsc_sys_inv cap s"
  shows "spsc_sys_inv cap s' \<and> fifo_event (unat cap - 1) e (held cap s) = Some (held cap s')"
  using assms
proof (cases rule: spsc_step.cases)
  case (push_full x h)
  then show ?thesis using assms(2) spsc_full_iff [of cap "ring s"] by (simp add: sys_inv_defs)
next
  case (push_check x h)
  then show ?thesis using assms(2) spsc_full_iff [of cap "ring s"] spsc_size_bound [of cap "ring s"]
    by (auto simp: sys_inv_defs le_neq_implies_less)
next
  case (push_write x h n)
  then show ?thesis using step_push_write [OF assms(2)] by simp
next
  case (push_publish x n)
  then show ?thesis using step_push_publish [OF assms(2)] by simp
next
  case (pop_empty t)
  then show ?thesis using assms(2) spsc_size_0_iff [of cap "ring s"] length_spsc_contents [of cap "ring s"]
    by (auto simp: sys_inv_defs simp del: length_spsc_contents)
next
  case (pop_publish t x)
  then show ?thesis using step_pop_publish [OF assms(2)] by simp
qed (use assms(2) in \<open>auto simp: sys_inv_defs\<close>)

lemma spsc_run_inv:
  assumes "spsc_run cap s0 es s" and "spsc_sys_inv cap s0"
  shows "spsc_sys_inv cap s \<and> fifo_events (unat cap - 1) es (held cap s0) = Some (held cap s)"
  using assms
proof (induction rule: spsc_run.induct)
  case (snoc s0 es s1 e s2)
  then show ?case using spsc_step_inv [OF snoc.hyps(2)] by (simp add: fifo_events_append)
qed simp

lemma spsc_init_inv:
  assumes "spsc_capacity_ok cap"
  shows "spsc_sys_inv cap (spsc_init d)" and "held cap (spsc_init d) = []"
  using assms by (simp_all add: sys_inv_defs spsc_init_def spsc_new_def spsc_inv_def
      spsc_capacity_ok_def spsc_contents_def spsc_size_def)

subsection \<open>Calls that run alone\<close>

text \<open>The functions of the one-thread model are the runs in which the other thread is idle.\<close>

definition quiet :: "'a spsc \<Rightarrow> 'a spsc_sys" where
  "quiet q = \<lparr>ring = q, pusher = PIdle, popper = CIdle\<rparr>"

definition push_events :: "bool \<Rightarrow> 'a \<Rightarrow> 'a spsc_event list" where
  "push_events ok x = (if ok then [Local, Local, Local, Pushed x] else [Local, Refused x])"

definition pop_events :: "'a option \<Rightarrow> 'a spsc_event list" where
  "pop_events r = (case r of None \<Rightarrow> [Local, Found_empty] | Some x \<Rightarrow> [Local, Local, Local, Popped x])"

lemma spsc_run_append:
  "spsc_run cap s1 es' s2 \<Longrightarrow> spsc_run cap s0 es s1 \<Longrightarrow> spsc_run cap s0 (es @ es') s2"
proof (induction rule: spsc_run.induct)
  case (snoc s1 es' s2 e s3)
  then have "spsc_run cap s0 ((es @ es') @ [e]) s3" by (blast intro: spsc_run.snoc)
  then show ?case by simp
qed simp

lemma spsc_run_Cons:
  assumes "spsc_step cap s e s1" and "spsc_run cap s1 es s2"
  shows "spsc_run cap s (e # es) s2"
  using spsc_run_append [OF assms(2) spsc_run.snoc [OF spsc_run.start assms(1)]] by simp

lemma spsc_push_is_run:
  assumes "spsc_push cap x q = (ok, q')"
  shows "spsc_run cap (quiet q) (push_events ok x) (quiet q')"
proof -
  let ?n = "(q_head q + 1) AND spsc_mask cap"
  let ?s1 = "(quiet q)\<lparr>pusher := PLoaded x (q_head q)\<rparr>"
  have 1: "spsc_step cap (quiet q) Local ?s1"
    using push_load [of "quiet q" cap x] by (simp add: quiet_def)
  show ?thesis
  proof (cases "?n = q_tail q")
    case True
    have "spsc_step cap ?s1 (Refused x) (quiet q)"
      using push_full [of ?s1 x "q_head q" cap] True by (simp add: quiet_def)
    from spsc_run_Cons [OF 1 spsc_run_Cons [OF this start]] show ?thesis
      using assms True by (auto simp: spsc_push_def Let_def push_events_def)
  next
    case False
    let ?s2 = "(quiet q)\<lparr>pusher := PChecked x (q_head q) ?n\<rparr>"
    let ?s3 = "(quiet (q\<lparr>q_data := (q_data q)(q_head q := x)\<rparr>))\<lparr>pusher := PWritten x ?n\<rparr>"
    have 2: "spsc_step cap ?s1 Local ?s2"
      using push_check [of ?s1 x "q_head q" cap] False by (simp add: quiet_def)
    have 3: "spsc_step cap ?s2 Local ?s3"
      using push_write [of ?s2 x "q_head q" ?n cap] by (simp add: quiet_def)
    have 4: "spsc_step cap ?s3 (Pushed x) (quiet (q\<lparr>q_data := (q_data q)(q_head q := x), q_head := ?n\<rparr>))"
      using push_publish [of ?s3 x ?n cap] by (simp add: quiet_def)
    from spsc_run_Cons [OF 1 spsc_run_Cons [OF 2 spsc_run_Cons [OF 3 spsc_run_Cons [OF 4 start]]]]
    show ?thesis using assms False by (auto simp: spsc_push_def Let_def push_events_def)
  qed
qed

lemma spsc_pop_is_run:
  assumes "spsc_pop cap q = (r, q')"
  shows "spsc_run cap (quiet q) (pop_events r) (quiet q')"
proof -
  let ?s1 = "(quiet q)\<lparr>popper := CLoaded (q_tail q)\<rparr>"
  have 1: "spsc_step cap (quiet q) Local ?s1"
    using pop_load [of "quiet q" cap] by (simp add: quiet_def)
  show ?thesis
  proof (cases "q_tail q = q_head q")
    case True
    have "spsc_step cap ?s1 Found_empty (quiet q)"
      using pop_empty [of ?s1 "q_tail q" cap] True by (simp add: quiet_def)
    from spsc_run_Cons [OF 1 spsc_run_Cons [OF this start]] show ?thesis
      using assms True by (auto simp: spsc_pop_def Let_def pop_events_def)
  next
    case False
    let ?x = "q_data q (q_tail q)"
    let ?s2 = "(quiet q)\<lparr>popper := CChecked (q_tail q)\<rparr>"
    let ?s3 = "(quiet q)\<lparr>popper := CRead (q_tail q) ?x\<rparr>"
    have 2: "spsc_step cap ?s1 Local ?s2"
      using pop_check [of ?s1 "q_tail q" cap] False by (simp add: quiet_def)
    have 3: "spsc_step cap ?s2 Local ?s3"
      using pop_read [of ?s2 "q_tail q" cap] by (simp add: quiet_def)
    have 4: "spsc_step cap ?s3 (Popped ?x) (quiet (q\<lparr>q_tail := (q_tail q + 1) AND spsc_mask cap\<rparr>))"
      using pop_publish [of ?s3 "q_tail q" ?x cap] by (simp add: quiet_def)
    from spsc_run_Cons [OF 1 spsc_run_Cons [OF 2 spsc_run_Cons [OF 3 spsc_run_Cons [OF 4 start]]]]
    show ?thesis using assms False by (auto simp: spsc_pop_def Let_def pop_events_def)
  qed
qed

subsection \<open>Properties\<close>

text \<open>
  C5. One producer and one consumer, interleaved at every load and store: the events form a
  legal history of a FIFO queue of capacity - 1 elements, in which a push is refused only
  when the queue is full and a pop fails only when it is empty at that moment; the queue
  left is what the ring holds; and the two threads never touch the same element at once.
\<close>

theorem spsc_linearizable:
  assumes "spsc_capacity_ok cap" and "spsc_run cap (spsc_init d) es s"
  shows "fifo_events (unat cap - 1) es [] = Some (held cap s) \<and> \<not> data_race s"
proof -
  have inv: "spsc_sys_inv cap s" and hist: "fifo_events (unat cap - 1) es [] = Some (held cap s)"
    using spsc_run_inv [OF assms(2) spsc_init_inv(1) [OF assms(1)]] spsc_init_inv(2) [OF assms(1), of d]
    by simp_all
  then show ?thesis
    by (auto simp: data_race_def sys_inv_defs split: pusher.splits popper.splits)
qed

lemma spsc_linearizable_witness:
  "\<exists>s. spsc_run 4 (spsc_init (\<lambda>_. 0))
      (push_events True (5 :: nat) @ push_events True 6 @ pop_events (Some 5)) s \<and>
    held 4 s = [6]"
proof -
  let ?q0 = "spsc_new (\<lambda>_. 0) :: nat spsc"
  let ?q1 = "snd (spsc_push 4 5 ?q0)" and ?q2 = "snd (spsc_push 4 6 (snd (spsc_push 4 5 ?q0)))"
  let ?q3 = "snd (spsc_pop 4 ?q2)"
  have "spsc_push 4 5 ?q0 = (True, ?q1)" "spsc_push 4 6 ?q1 = (True, ?q2)" "spsc_pop 4 ?q2 = (Some 5, ?q3)"
    by (simp_all add: spsc_push_def spsc_pop_def spsc_new_def spsc_mask_def Let_def)
  then have run: "spsc_run 4 (quiet ?q0) (push_events True 5 @ push_events True 6 @ pop_events (Some 5)) (quiet ?q3)"
    by (blast intro: spsc_push_is_run spsc_pop_is_run spsc_run_append)
  have cap: "spsc_capacity_ok 4" by (simp add: spsc_capacity_ok_def)
  have "quiet ?q0 = spsc_init (\<lambda>_. 0)" by (simp add: quiet_def spsc_init_def)
  from spsc_linearizable [OF cap run [unfolded this]]
  have "fifo_events 3 (push_events True 5 @ push_events True 6 @ pop_events (Some 5)) [] =
      Some (held 4 (quiet ?q3))" by simp
  then have "held 4 (quiet ?q3) = [6]" by (simp add: push_events_def pop_events_def)
  with run show ?thesis by (intro exI [of _ "quiet ?q3"]) (simp add: quiet_def spsc_init_def)
qed

end
