(* ===== verification/Fix_Message.thy ===== *)
theory Fix_Message
  imports Prelude
begin

text \<open>
  The FIX parser of \<^verbatim>\<open>2_network/src/fix_message.cpp\<close>. A buffer is the list of its bytes, or
  \<open>None\<close> for a null pointer; the position \<^verbatim>\<open>pos\<close> of the code is the suffix of the buffer that
  starts there, and a \<^verbatim>\<open>string_view\<close> is the list of the bytes it spans. \<^verbatim>\<open>char\<close> is signed, as on
  the x86-64 targets of the build. Signed overflow while a price is accumulated is undefined
  behaviour, the result \<open>None\<close> of \<open>parse\<close>.
\<close>

type_synonym bytes = "u8 list"

definition SOH :: u8 where
  "SOH = 0x01"

text \<open>\<^verbatim>\<open>MsgType\<close> has the fixed underlying type \<^verbatim>\<open>uint8_t\<close>: every byte is a value of it, and
  the four enumerators name some of them.\<close>

type_synonym msg_type = u8

definition NewOrderSingle :: msg_type where "NewOrderSingle = 0x44"

definition OrderCancelReq :: msg_type where "OrderCancelReq = 0x46"

definition ExecutionReport :: msg_type where "ExecutionReport = 0x38"

definition Unknown :: msg_type where "Unknown = 0"

record fix_message =
  msg_type :: msg_type
  cl_ord_id :: bytes
  fix_symbol :: bytes
  fix_side :: u8
  order_qty :: u32
  price_ticks :: int
  ord_type :: u8
  fix_checksum :: u8
  valid :: bool

definition fix_message_default :: fix_message where
  "fix_message_default = \<lparr>msg_type = Unknown, cl_ord_id = [], fix_symbol = [], fix_side = 0,
     order_qty = 0, price_ticks = 0, ord_type = 0, fix_checksum = 0, valid = False\<rparr>"

subsection \<open>Helpers\<close>

definition is_digit :: "u8 \<Rightarrow> bool" where
  "is_digit c \<longleftrightarrow> c \<ge> 48 \<and> c \<le> 57"

definition ascii_to_digit :: "u8 \<Rightarrow> u8" where
  "ascii_to_digit c = (if c \<ge> 48 \<and> c \<le> 57 then c - 48 else 255)"

subsection \<open>Values\<close>

text \<open>\<^verbatim>\<open>c - '0'\<close> is an \<^verbatim>\<open>int\<close> that is converted to \<^verbatim>\<open>uint32_t\<close> before the addition.\<close>

primrec qty_loop :: "bytes \<Rightarrow> u32 \<Rightarrow> u32" where
  "qty_loop [] q = q"
| "qty_loop (c # cs) q = qty_loop cs (q * 10 + (scast c - 48))"

definition i32_ok :: "int \<Rightarrow> bool" where
  "i32_ok i \<longleftrightarrow> - (2 ^ 31) \<le> i \<and> i < 2 ^ 31"

primrec price_loop :: "bytes \<Rightarrow> int \<Rightarrow> int \<Rightarrow> bool \<Rightarrow> (int \<times> int) option" where
  "price_loop [] price_int decimal_places in_decimal = Some (price_int, decimal_places)"
| "price_loop (c # cs) price_int decimal_places in_decimal =
     (if c = 46 then price_loop cs price_int decimal_places True
      else if is_digit c then
        (let p = price_int * 10 + (uint c - 48);
             d = (if in_decimal then decimal_places + 1 else decimal_places)
         in if i64_ok (price_int * 10) \<and> i64_ok p \<and> i32_ok d then price_loop cs p d in_decimal
            else None)
      else price_loop cs price_int decimal_places in_decimal)"

function scale_loop :: "int \<Rightarrow> int \<Rightarrow> int option" where
  "scale_loop price_int decimal_places =
     (if decimal_places < 4 then
        (if i64_ok (price_int * 10) then scale_loop (price_int * 10) (decimal_places + 1) else None)
      else Some price_int)"
  by pat_completeness auto
termination by (relation "measure (\<lambda>(p, d). nat (4 - d))") auto

declare scale_loop.simps [simp del]

definition price_value :: "bytes \<Rightarrow> int option" where
  "price_value value = (case price_loop value 0 0 False of None \<Rightarrow> None
     | Some (price_int, decimal_places) \<Rightarrow> scale_loop price_int decimal_places)"

definition checksum_value :: "bytes \<Rightarrow> u8" where
  "checksum_value value =
     of_nat (unat (ascii_to_digit (value ! 0)) * 10 + unat (ascii_to_digit (value ! 1)))"

text \<open>The \<^verbatim>\<open>switch\<close> on the tag.\<close>

definition dispatch :: "u32 \<Rightarrow> bytes \<Rightarrow> fix_message \<Rightarrow> fix_message option" where
  "dispatch tag value msg =
     (if tag = 35 then
        Some (if length value = 1 then msg\<lparr>msg_type := value ! 0\<rparr> else msg)
      else if tag = 11 then Some (msg\<lparr>cl_ord_id := value\<rparr>)
      else if tag = 55 then Some (msg\<lparr>fix_symbol := value\<rparr>)
      else if tag = 54 then
        Some (if length value > 0 then msg\<lparr>fix_side := value ! 0 - 48\<rparr> else msg)
      else if tag = 38 then Some (msg\<lparr>order_qty := qty_loop value 0\<rparr>)
      else if tag = 44 then map_option (\<lambda>p. msg\<lparr>price_ticks := p\<rparr>) (price_value value)
      else if tag = 40 then
        Some (if length value > 0 then msg\<lparr>ord_type := value ! 0 - 48\<rparr> else msg)
      else if tag = 10 then
        Some (if length value \<ge> 2 then msg\<lparr>fix_checksum := checksum_value value\<rparr> else msg)
      else Some msg)"

subsection \<open>The parser\<close>

fun parse_tag :: "u32 \<Rightarrow> bytes \<Rightarrow> u32 \<times> bytes" where
  "parse_tag tag [] = (tag, [])"
| "parse_tag tag (c # cs) =
     (if is_digit c then parse_tag (tag * 10 + ucast (ascii_to_digit c)) cs else (tag, c # cs))"

fun parse_val :: "bytes \<Rightarrow> bytes \<times> bytes" where
  "parse_val [] = ([], [])"
| "parse_val (c # cs) =
     (if c \<noteq> SOH then (let (value, rest) = parse_val cs in (c # value, rest)) else ([], c # cs))"

definition finish :: "fix_message \<Rightarrow> fix_message" where
  "finish msg = msg\<lparr>valid := (msg_type msg \<noteq> Unknown)\<rparr>"

lemma parse_tag_length: "length (snd (parse_tag tag cs)) \<le> length cs"
  by (induction tag cs rule: parse_tag.induct) auto

lemma parse_val_length: "length (snd (parse_val cs)) \<le> length cs"
  by (induction cs rule: parse_val.induct) (auto simp: case_prod_unfold Let_def)

function parse_loop :: "fix_message \<Rightarrow> bytes \<Rightarrow> fix_message option" where
  "parse_loop msg [] = Some (finish msg)"
| "parse_loop msg (b # bs) =
     (let (tag, rest) = parse_tag 0 (b # bs) in
      case rest of
        [] \<Rightarrow> Some msg
      | c # rest1 \<Rightarrow>
         if c \<noteq> 0x3D then Some msg
         else let (value, rest2) = parse_val rest1 in
           case dispatch tag value msg of
             None \<Rightarrow> None
           | Some msg1 \<Rightarrow> (case rest2 of [] \<Rightarrow> Some (finish msg1) | _ # rest3 \<Rightarrow> parse_loop msg1 rest3))"
  by pat_completeness auto
termination
proof (relation "measure (\<lambda>(msg, bs). length bs)", goal_cases)
  case (2 msg b bs x tag rest c rest1 y v rest2 msg1 d rest3)
  then have "length rest \<le> length (b # bs)" "length rest2 \<le> length rest1"
    using parse_tag_length [of 0 "b # bs"] parse_val_length [of rest1] by (metis snd_conv)+
  then show ?case using 2 by (simp del: parse_tag.simps parse_val.simps)
qed simp

definition parse :: "bytes option \<Rightarrow> fix_message option" where
  "parse buf = (case buf of None \<Rightarrow> Some fix_message_default
     | Some bs \<Rightarrow> if bs = [] then Some fix_message_default else parse_loop fix_message_default bs)"

subsection \<open>Checksum verification\<close>

primrec checksum_field_end :: "bytes \<Rightarrow> nat \<Rightarrow> nat" where
  "checksum_field_end buf 0 = 0"
| "checksum_field_end buf (Suc n) = (if buf ! Suc n \<noteq> SOH then checksum_field_end buf n else Suc n)"

definition verify_checksum :: "bytes option \<Rightarrow> bool" where
  "verify_checksum b = (case b of None \<Rightarrow> False | Some buf \<Rightarrow>
     if length buf < 10 then False
     else
       let checksum_pos = checksum_field_end buf (length buf - 1);
           sum = foldl (+) 0 (take checksum_pos buf)
       in if checksum_pos < 4 then False
          else
            let start = checksum_pos - 3;
                stored = of_nat ((unat (ascii_to_digit (buf ! start)) * 100 +
                   unat (ascii_to_digit (buf ! (start + 1))) * 10 +
                   unat (ascii_to_digit (buf ! (start + 2)))) mod 256)
            in sum = stored)"

subsection \<open>Fields\<close>

text \<open>
  A well-formed message is a sequence of fields, each written as the decimal digits of its
  tag, an equals sign, the value and the delimiter. \<open>dec_digits\<close> is \<^verbatim>\<open>std::to_string\<close> on
  numbers that are not negative.
\<close>

fun dec_digits :: "nat \<Rightarrow> bytes" where
  "dec_digits n = (if n < 10 then [48 + of_nat n] else dec_digits (n div 10) @ [48 + of_nat (n mod 10)])"

declare dec_digits.simps [simp del]

definition field :: "nat \<Rightarrow> bytes \<Rightarrow> bytes" where
  "field tag v = dec_digits tag @ 0x3D # v @ [SOH]"

definition encode :: "(nat \<times> bytes) list \<Rightarrow> bytes" where
  "encode fs = concat (map (\<lambda>(tag, v). field tag v) fs)"

primrec dispatch_all :: "(nat \<times> bytes) list \<Rightarrow> fix_message \<Rightarrow> fix_message option" where
  "dispatch_all [] msg = Some msg"
| "dispatch_all (f # fs) msg =
     (case dispatch (of_nat (fst f)) (snd f) msg of None \<Rightarrow> None | Some msg1 \<Rightarrow> dispatch_all fs msg1)"

lemma unat_digit: "d < 10 \<Longrightarrow> unat (48 + of_nat d :: u8) = 48 + d"
  by (simp add: unat_plus_word unat_of_nat)

lemma is_digit_digit: "d < 10 \<Longrightarrow> is_digit (48 + of_nat d)"
  by (simp add: is_digit_def word_le_nat_alt unat_digit)

lemma unat_ascii_digit: "d < 10 \<Longrightarrow> unat (ascii_to_digit (48 + of_nat d)) = d"
  by (simp add: ascii_to_digit_def word_le_nat_alt unat_digit unat_of_nat)

lemma is_digit_obtain:
  assumes "is_digit c"
  obtains d where "d < 10" "c = 48 + of_nat d"
proof -
  have c: "48 \<le> unat c" "unat c \<le> 57" using assms by (simp_all add: is_digit_def word_le_nat_alt)
  have "unat (48 + of_nat (unat c - 48) :: u8) = unat c"
    using unat_digit [of "unat c - 48"] c by simp
  then have "c = 48 + of_nat (unat c - 48)" by (simp only: word_unat_eq_iff)
  moreover have "unat c - 48 < 10" using c by simp
  ultimately show thesis using that by blast
qed

text \<open>Digits as numbers, most significant first.\<close>

definition digits_nat :: "bytes \<Rightarrow> nat \<Rightarrow> nat" where
  "digits_nat cs n = foldl (\<lambda>n c. n * 10 + (unat c - 48)) n cs"

lemma digits_nat_simps [simp]:
  "digits_nat [] n = n" "digits_nat (c # cs) n = digits_nat cs (n * 10 + (unat c - 48))"
  "digits_nat (cs @ ds) n = digits_nat ds (digits_nat cs n)"
  by (simp_all add: digits_nat_def)

lemma digits_dec_digits: "digits_nat (dec_digits n) 0 = n"
proof (induction n rule: dec_digits.induct)
  case (1 n)
  then show ?case
    by (subst dec_digits.simps) (simp add: unat_digit)
qed

lemma all_digits: "c \<in> set (dec_digits n) \<Longrightarrow> is_digit c"
proof (induction n rule: dec_digits.induct)
  case (1 n)
  then show ?case
    by (subst (asm) (2) dec_digits.simps) (auto simp: is_digit_digit split: if_splits)
qed

lemma dec_digits_not_Nil [simp]: "dec_digits n \<noteq> []"
  by (subst dec_digits.simps) simp

lemma parse_tag_digits:
  assumes "\<forall>c \<in> set cs. is_digit c" and "\<not> is_digit e"
  shows "parse_tag (of_nat n) (cs @ e # rest) = (of_nat (digits_nat cs n), e # rest)"
  using assms(1)
proof (induction cs arbitrary: n)
  case (Cons c cs)
  obtain d where d: "d < 10" "c = 48 + of_nat d" using Cons.prems is_digit_obtain by auto
  have "(of_nat n :: u32) * 10 + ucast (ascii_to_digit c) = of_nat (n * 10 + (unat c - 48))"
  proof -
    have "(ucast (ascii_to_digit c) :: u32) = of_nat d"
      using unat_ascii_digit [OF d(1)] d(1)
      by (simp add: word_unat_eq_iff unat_ucast_mod unat_of_nat d(2))
    then show ?thesis using d by (simp add: unat_digit)
  qed
  then show ?case using Cons.IH [of "n * 10 + (unat c - 48)"] Cons.prems by simp
qed (use assms(2) in simp)

lemma parse_val_delim: "SOH \<notin> set v \<Longrightarrow> parse_val (v @ SOH # rest) = (v, SOH # rest)"
  by (induction v) auto

lemma parse_val_end: "SOH \<notin> set v \<Longrightarrow> parse_val v = (v, [])"
  by (induction v) auto

lemma equals_no_digit: "\<not> is_digit 0x3D"
  by (simp add: is_digit_def)

lemma parse_loop_field:
  assumes "SOH \<notin> set v"
  shows "parse_loop msg (field tag v @ rest) =
    (case dispatch (of_nat tag) v msg of None \<Rightarrow> None | Some msg1 \<Rightarrow> parse_loop msg1 rest)"
proof -
  have tag: "parse_tag 0 (dec_digits tag @ 0x3D # v @ SOH # rest) = (of_nat tag, 0x3D # v @ SOH # rest)"
    using parse_tag_digits [of "dec_digits tag" "0x3D" 0 "v @ SOH # rest"] all_digits equals_no_digit
    by (simp add: digits_dec_digits)
  obtain b bs where b: "dec_digits tag @ 0x3D # v @ SOH # rest = b # bs"
    by (metis append_is_Nil_conv dec_digits_not_Nil list.exhaust)
  show ?thesis
    using tag parse_val_delim [OF assms, of rest]
    by (simp add: field_def b split: option.split)
qed

lemma parse_loop_encode:
  assumes "\<forall>f \<in> set fs. SOH \<notin> set (snd f)"
  shows "parse_loop msg (encode fs @ rest) =
    (case dispatch_all fs msg of None \<Rightarrow> None | Some msg1 \<Rightarrow> parse_loop msg1 rest)"
  using assms
proof (induction fs arbitrary: msg)
  case (Cons f fs)
  then have "parse_loop msg (encode (f # fs) @ rest) = (case dispatch (of_nat (fst f)) (snd f) msg of
      None \<Rightarrow> None | Some msg1 \<Rightarrow> parse_loop msg1 (encode fs @ rest))"
    using parse_loop_field [of "snd f" msg "fst f" "encode fs @ rest"]
    by (simp add: encode_def case_prod_unfold)
  then show ?case using Cons by (simp split: option.split)
qed (simp add: encode_def)

lemma finish_default [simp]: "finish fix_message_default = fix_message_default"
  by (simp add: finish_def fix_message_default_def)

lemma parse_encode:
  assumes "\<forall>f \<in> set fs. SOH \<notin> set (snd f)"
  shows "parse (Some (encode fs)) = map_option finish (dispatch_all fs fix_message_default)"
proof (cases "encode fs = []")
  case True
  then have "fs = []" by (cases fs) (auto simp: encode_def field_def)
  then show ?thesis using True by (simp add: parse_def)
next
  case False
  then show ?thesis
    using parse_loop_encode [OF assms, of fix_message_default "[]"]
    by (simp add: parse_def split: option.split)
qed

subsection \<open>Numbers\<close>

lemma scast_digit:
  assumes "d < 10"
  shows "(scast (48 + of_nat d :: u8) :: u32) - 48 = of_nat d"
proof -
  have "d \<in> {0, 1, 2, 3, 4, 5, 6, 7, 8, 9}" using assms by (simp, arith)
  then show ?thesis by auto
qed

lemma qty_loop_digits:
  "\<forall>c \<in> set cs. is_digit c \<Longrightarrow> qty_loop cs (of_nat n) = of_nat (digits_nat cs n)"
proof (induction cs arbitrary: n)
  case (Cons c cs)
  obtain d where d: "d < 10" "c = 48 + of_nat d" using Cons.prems is_digit_obtain by auto
  have "qty_loop cs (of_nat (n * 10 + (unat c - 48))) = of_nat (digits_nat cs (n * 10 + (unat c - 48)))"
    using Cons.IH [of "n * 10 + (unat c - 48)"] Cons.prems by simp
  then show ?case
    using d scast_digit [OF d(1)] by (simp add: unat_digit)
qed simp

lemma digits_nat_mono: "n \<le> digits_nat cs n"
proof (induction cs arbitrary: n)
  case (Cons c cs)
  have "n \<le> n * 10 + (unat c - 48)" by simp
  also have "\<dots> \<le> digits_nat cs (n * 10 + (unat c - 48))" by (rule Cons.IH)
  finally show ?case by simp
qed simp

definition places :: "bool \<Rightarrow> bytes \<Rightarrow> nat" where
  "places in_decimal cs = length (filter is_digit (if in_decimal then cs else dropWhile (\<lambda>c. c \<noteq> 46) cs))"

lemma places_simps:
  "places b [] = 0" "places b (46 # cs) = places True cs"
  "c \<noteq> 46 \<Longrightarrow> places b (c # cs) = (if b \<and> is_digit c then 1 else 0) + places b cs"
proof -
  have "\<not> is_digit 46" by (simp add: is_digit_def)
  then show "places b [] = 0" "places b (46 # cs) = places True cs"
    "c \<noteq> 46 \<Longrightarrow> places b (c # cs) = (if b \<and> is_digit c then 1 else 0) + places b cs"
    by (simp_all add: places_def)
qed

lemma price_loop_value:
  assumes "int n \<le> INT64_MAX" and "d + length cs < 2 ^ 31"
  shows "price_loop cs (int n) (int d) b =
    (if int (digits_nat (filter is_digit cs) n) \<le> INT64_MAX
     then Some (int (digits_nat (filter is_digit cs) n), int (d + places b cs)) else None)"
  using assms
proof (induction cs arbitrary: n d b)
  case Nil
  then show ?case by (simp add: places_simps)
next
  case (Cons c cs)
  have dot: "\<not> is_digit 46" by (simp add: is_digit_def)
  consider "c = 46" | "c \<noteq> 46" "\<not> is_digit c" | "c \<noteq> 46" "is_digit c" by blast
  then show ?case
  proof cases
    case 1
    then show ?thesis
      using Cons.IH [OF Cons.prems(1), of d True] Cons.prems(2) dot by (simp add: places_simps)
  next
    case 2
    then show ?thesis
      using Cons.IH [OF Cons.prems(1), of d b] Cons.prems(2) by (simp add: places_simps)
  next
    case 3
    let ?n = "n * 10 + (unat c - 48)" and ?d = "if b then d + 1 else d"
    have c: "48 \<le> unat c" using 3 by (simp add: is_digit_def word_le_nat_alt)
    have n: "int n * 10 + (uint c - 48) = int ?n"
      using c by (simp add: of_nat_diff)
    have d: "(if b then int d + 1 else int d) = int ?d" "i32_ok (int ?d)"
      using Cons.prems(2) by (auto simp: i32_ok_def)
    have i64: "i64_ok (int n * 10) \<and> i64_ok (int ?n) \<longleftrightarrow> int ?n \<le> INT64_MAX"
      by (auto simp: i64_ok_def INT64_MIN_def)
    have step: "price_loop (c # cs) (int n) (int d) b =
        (if int ?n \<le> INT64_MAX then price_loop cs (int ?n) (int ?d) b else None)"
      using 3 i64 d(2) unfolding price_loop.simps Let_def n d(1) by auto
    show ?thesis
    proof (cases "int ?n \<le> INT64_MAX")
      case True
      have "price_loop cs (int ?n) (int ?d) b =
          (if int (digits_nat (filter is_digit cs) ?n) \<le> INT64_MAX
           then Some (int (digits_nat (filter is_digit cs) ?n), int (?d + places b cs)) else None)"
        using Cons.IH [OF True, of ?d b] Cons.prems(2) by simp
      then show ?thesis
        unfolding step using True 3 by (simp add: places_simps)
    next
      case False
      then have "\<not> int (digits_nat (filter is_digit cs) ?n) \<le> INT64_MAX"
        using digits_nat_mono [of ?n "filter is_digit cs"] by linarith
      then show ?thesis unfolding step using False 3 by simp
    qed
  qed
qed

lemma scale_loop_value:
  assumes "int n \<le> INT64_MAX"
  shows "scale_loop (int n) (int k) =
    (if int (n * 10 ^ (4 - k)) \<le> INT64_MAX then Some (int (n * 10 ^ (4 - k))) else None)"
  using assms
proof (induction "4 - k" arbitrary: n k)
  case 0
  then show ?case by (subst scale_loop.simps) simp
next
  case (Suc m)
  then have k: "k < 4" "m = 4 - Suc k" "4 - k = Suc (4 - Suc k)" by simp_all
  have step: "scale_loop (int n) (int k) =
      (if int (n * 10) \<le> INT64_MAX then scale_loop (int (n * 10)) (int (Suc k)) else None)"
    using k(1) by (subst scale_loop.simps) (simp add: i64_ok_def INT64_MIN_def add.commute)
  have pow: "n * 10 ^ (4 - k) = n * 10 * 10 ^ (4 - Suc k)" by (simp add: k(3))
  show ?case
  proof (cases "int (n * 10) \<le> INT64_MAX")
    case True
    then show ?thesis unfolding step pow using Suc.hyps(1) [OF k(2) True] by simp
  next
    case False
    have "n * 10 \<le> n * 10 * 10 ^ (4 - Suc k)" by simp
    then have "\<not> int (n * 10 * 10 ^ (4 - Suc k)) \<le> INT64_MAX" using False by linarith
    then show ?thesis unfolding step pow using False by simp
  qed
qed

lemma price_value_digits:
  assumes "length v < 2 ^ 31"
  shows "price_value v =
    (let n = digits_nat (filter is_digit v) 0 * 10 ^ (4 - places False v)
     in if int n \<le> INT64_MAX then Some (int n) else None)"
proof (cases "int (digits_nat (filter is_digit v) 0) \<le> INT64_MAX")
  case True
  have "price_loop v 0 0 False =
      Some (int (digits_nat (filter is_digit v) 0), int (places False v))"
    using price_loop_value [of 0 0 v False] assms True by (simp add: INT64_MAX_def)
  then show ?thesis
    using scale_loop_value [OF True, of "places False v"]
    by (simp add: price_value_def Let_def)
next
  case False
  have "digits_nat (filter is_digit v) 0 \<le> digits_nat (filter is_digit v) 0 * 10 ^ (4 - places False v)"
    by simp
  then have "\<not> int (digits_nat (filter is_digit v) 0 * 10 ^ (4 - places False v)) \<le> INT64_MAX"
    using False by linarith
  moreover have "price_loop v 0 0 False = None"
    using price_loop_value [of 0 0 v False] assms False by (simp add: INT64_MAX_def)
  ultimately show ?thesis by (simp add: price_value_def Let_def)
qed

end
