(* ===== verification/Fix_Theorems.thy ===== *)
theory Fix_Theorems
  imports Fix_Message
begin

text \<open>
  The theorems about the FIX parser and the checksum verification, with their witnesses.
\<close>

subsection \<open>Lemmas on dispatch\<close>

lemma dispatch_valid: "dispatch tag v msg = Some msg' \<Longrightarrow> valid msg' = valid msg"
  by (auto simp: dispatch_def split: if_splits)

lemma dispatch_all_valid: "dispatch_all fs msg = Some msg' \<Longrightarrow> valid msg' = valid msg"
  by (induction fs arbitrary: msg) (auto split: option.splits dest: dispatch_valid)

lemma dispatch_msg_type:
  "dispatch tag v msg = Some msg' \<Longrightarrow>
   msg_type msg' = (if tag = 35 \<and> length v = 1 then v ! 0 else msg_type msg)"
  by (auto simp: dispatch_def split: if_splits)

text \<open>The message type after all fields: that of the last field with tag 35 and one byte.\<close>

definition type_field :: "(nat \<times> bytes) list \<Rightarrow> msg_type \<Rightarrow> msg_type" where
  "type_field fs t =
     foldl (\<lambda>t (tag, v). if (of_nat tag :: u32) = 35 \<and> length v = 1 then v ! 0 else t) t fs"

lemma dispatch_all_msg_type:
  "dispatch_all fs msg = Some msg' \<Longrightarrow> msg_type msg' = type_field fs (msg_type msg)"
proof (induction fs arbitrary: msg)
  case (Cons f fs)
  then obtain msg1 where "dispatch (of_nat (fst f)) (snd f) msg = Some msg1"
    "dispatch_all fs msg1 = Some msg'" by (auto split: option.splits)
  then show ?case
    using Cons.IH [of msg1] dispatch_msg_type by (simp add: type_field_def case_prod_unfold)
qed (simp add: type_field_def)

lemma parse_loop_open_field:
  assumes "SOH \<notin> set v"
  shows "parse_loop msg (dec_digits tag @ 0x3D # v) =
    map_option finish (dispatch (of_nat tag) v msg)"
proof -
  have tag: "parse_tag 0 (dec_digits tag @ 0x3D # v) = (of_nat tag, 0x3D # v)"
    using parse_tag_digits [of "dec_digits tag" "0x3D" 0 v] all_digits equals_no_digit
    by (simp add: digits_dec_digits)
  obtain b bs where b: "dec_digits tag @ 0x3D # v = b # bs"
    by (metis append_is_Nil_conv dec_digits_not_Nil list.exhaust)
  show ?thesis
    using tag parse_val_end [OF assms] by (simp add: b split: option.split)
qed

lemma dispatch_all_append:
  "dispatch_all (fs @ gs) msg =
   (case dispatch_all fs msg of None \<Rightarrow> None | Some msg1 \<Rightarrow> dispatch_all gs msg1)"
  by (induction fs arbitrary: msg) (auto split: option.split)

subsection \<open>Properties\<close>

text \<open>
  C14. On a message made of fields, whatever their tags, whose values do not contain the
  delimiter, \<^verbatim>\<open>parse\<close> recovers exactly the fields: the result is the fields stored one after
  the other, then the validity flag. The delimiter of the last field may be missing. Tags
  are reduced modulo \<open>2 ^ 32\<close>.
\<close>

theorem parse_recovers_fields:
  assumes "\<forall>f \<in> set fs. SOH \<notin> set (snd f)" and "SOH \<notin> set v"
  shows "parse (Some (encode fs)) = map_option finish (dispatch_all fs fix_message_default) \<and>
    parse (Some (encode fs @ dec_digits tag @ 0x3D # v)) =
      map_option finish (dispatch_all (fs @ [(tag, v)]) fix_message_default)"
proof
  show "parse (Some (encode fs)) = map_option finish (dispatch_all fs fix_message_default)"
    by (rule parse_encode [OF assms(1)])
  have "parse (Some (encode fs @ dec_digits tag @ 0x3D # v)) =
      parse_loop fix_message_default (encode fs @ dec_digits tag @ 0x3D # v)"
    by (simp add: parse_def)
  then show "parse (Some (encode fs @ dec_digits tag @ 0x3D # v)) =
      map_option finish (dispatch_all (fs @ [(tag, v)]) fix_message_default)"
    by (simp add: parse_loop_encode [OF assms(1)] parse_loop_open_field [OF assms(2)]
        dispatch_all_append split: option.split)
qed

lemma parse_recovers_fields_witness:
  "\<exists>m. parse (Some (encode [(35, [0x44]), (38, [49, 48, 48])] @ dec_digits 54 @ 0x3D # [50])) = Some m \<and>
    valid m \<and> msg_type m = NewOrderSingle \<and> order_qty m = 100 \<and> fix_side m = 2"
  using parse_recovers_fields [of "[(35, [0x44]), (38, [49, 48, 48])]" "[50]" 54]
  by (auto simp: SOH_def dispatch_def finish_def fix_message_default_def NewOrderSingle_def Unknown_def)

text \<open>
  A message is reported valid exactly when its last one-byte field with tag 35 holds a byte
  other than zero; any such byte is accepted, known message type or not.
\<close>

lemma valid_iff_type_byte:
  assumes "\<forall>f \<in> set fs. SOH \<notin> set (snd f)" and "parse (Some (encode fs)) = Some m"
  shows "msg_type m = type_field fs Unknown \<and> (valid m \<longleftrightarrow> type_field fs Unknown \<noteq> Unknown)"
proof -
  obtain m1 where "dispatch_all fs fix_message_default = Some m1" "m = finish m1"
    using assms(2) by (auto simp: parse_encode [OF assms(1)])
  then show ?thesis
    using dispatch_all_msg_type [of fs fix_message_default m1]
    by (simp add: finish_def fix_message_default_def)
qed

text \<open>
  When the fields read so far are followed by something that is not a tag and an equals
  sign (digits with another byte after them, or with nothing after them), \<^verbatim>\<open>parse\<close> stops
  there: it returns what it has stored, not valid whatever the message type.
\<close>

lemma malformed_field_invalidates:
  assumes "\<forall>f \<in> set fs. SOH \<notin> set (snd f)"
    and "dispatch_all fs fix_message_default = Some msg"
    and "\<forall>c \<in> set ds. is_digit c" and "rest = [] \<or> \<not> is_digit (hd rest) \<and> hd rest \<noteq> 0x3D"
    and "ds @ rest \<noteq> []"
  shows "parse (Some (encode fs @ ds @ rest)) = Some msg \<and> \<not> valid msg"
proof
  have "\<exists>t'. parse_tag t (ds @ rest) = (t', rest)" for t
    using assms(3,4) by (induction ds arbitrary: t) (cases rest; auto)+
  then obtain t where tag: "parse_tag 0 (ds @ rest) = (t, rest)" by blast
  obtain b bs where b: "ds @ rest = b # bs" using assms(5) by (cases "ds @ rest") auto
  have "parse_loop msg (ds @ rest) = Some msg"
    using tag assms(4) unfolding b by (auto simp del: parse_tag.simps split: list.split)
  then show "parse (Some (encode fs @ ds @ rest)) = Some msg"
    using assms(2,5) by (auto simp: parse_def parse_loop_encode [OF assms(1)])
  show "\<not> valid msg"
    using dispatch_all_valid [OF assms(2)] by (simp add: fix_message_default_def)
qed

text \<open>
  C27. The price field: bytes other than digits and the point are skipped, the digits are read
  as one number, and it is multiplied by ten for each decimal place missing to four. With
  more than four decimal places the number is not scaled down. The result is undefined
  exactly when the scaled number exceeds the signed 64-bit range.
\<close>

theorem price_is_scaled_digits:
  assumes "length v < 2 ^ 31"
  shows "price_value v =
    (let n = digits_nat (filter is_digit v) 0 * 10 ^ (4 - places False v)
     in if int n \<le> INT64_MAX then Some (int n) else None)"
  using assms by (rule price_value_digits)

lemma price_is_scaled_digits_witness:
  "price_value [49, 50, 51, 46, 52, 53] = Some 1234500 \<and>
   price_value [45, 49, 46, 50, 51, 52, 53, 54] = Some 123456 \<and>
   price_value [57, 57, 57, 57, 57, 57, 57, 57, 57, 57, 57, 57, 57, 57, 57, 57] = None"
  using price_is_scaled_digits [of "[49, 50, 51, 46, 52, 53]"]
    price_is_scaled_digits [of "[45, 49, 46, 50, 51, 52, 53, 54]"]
    price_is_scaled_digits [of "[57, 57, 57, 57, 57, 57, 57, 57, 57, 57, 57, 57, 57, 57, 57, 57]"]
  by (simp add: places_def is_digit_def INT64_MAX_def)

lemma digits_nat_bound: "\<forall>c \<in> set cs. is_digit c \<Longrightarrow> n < 10 ^ k \<Longrightarrow> digits_nat cs n < 10 ^ (k + length cs)"
proof (induction cs arbitrary: n k)
  case (Cons c cs)
  obtain d where d: "d < 10" "c = 48 + of_nat d" using Cons.prems(1) is_digit_obtain by auto
  have "n * 10 + (unat c - 48) < 10 ^ Suc k"
    using Cons.prems(2) d by (simp add: unat_digit)
  then show ?case using Cons.IH [of _ "Suc k"] Cons.prems(1) by simp
qed simp

lemma price_value_short:
  assumes "length v \<le> 14"
  shows "\<exists>p. price_value v = Some p"
proof -
  let ?n = "digits_nat (filter is_digit v) 0"
  have "?n < 10 ^ (0 + length (filter is_digit v))"
    by (rule digits_nat_bound) auto
  also have "\<dots> \<le> 10 ^ 14"
    by (intro power_increasing) (simp_all add: le_trans [OF length_filter_le assms])
  finally have "?n * 10 ^ (4 - places False v) \<le> 10 ^ 14 * 10 ^ 4"
    by (intro mult_mono power_increasing) simp_all
  then have "int (?n * 10 ^ (4 - places False v)) \<le> int (10 ^ 14 * 10 ^ 4)"
    by (simp only: of_nat_le_iff)
  also have "\<dots> \<le> INT64_MAX" by (simp add: INT64_MAX_def)
  finally have "int (?n * 10 ^ (4 - places False v)) \<le> INT64_MAX" .
  moreover have "length v < 2 ^ 31" using assms by simp
  ultimately show ?thesis using price_value_digits [of v] unfolding Let_def by simp
qed

lemma dispatch_all_defined:
  assumes "\<forall>f \<in> set fs. (of_nat (fst f) :: u32) = 44 \<longrightarrow> length (snd f) \<le> 14"
  shows "\<exists>msg'. dispatch_all fs msg = Some msg'"
  using assms
proof (induction fs arbitrary: msg)
  case (Cons f fs)
  have "\<exists>msg1. dispatch (of_nat (fst f)) (snd f) msg = Some msg1"
    using Cons.prems price_value_short [of "snd f"]
    by (cases "(of_nat (fst f) :: u32) = 44") (auto simp: dispatch_def)
  then show ?case using Cons by auto
qed simp

text \<open>
  C28. Parsing is free of undefined behaviour on messages whose price fields have at most
  fourteen bytes, whatever the other fields hold.
\<close>

theorem parse_defined:
  assumes "\<forall>f \<in> set fs. SOH \<notin> set (snd f)"
    and "\<forall>f \<in> set fs. (of_nat (fst f) :: u32) = 44 \<longrightarrow> length (snd f) \<le> 14"
  shows "\<exists>m. parse (Some (encode fs)) = Some m"
  using dispatch_all_defined [OF assms(2)] by (auto simp: parse_encode [OF assms(1)])

lemma parse_defined_witness:
  "\<exists>m. parse (Some (encode [(35, [0x44]), (44, [49, 53, 48, 46, 53])])) = Some m"
  by (rule parse_defined) (simp_all add: SOH_def)

subsection \<open>Checksums\<close>

text \<open>A message closed by the checksum field of the FIX standard: three digits of the sum of
  all bytes before that field, modulo 256.\<close>

definition checksum_digits :: "nat \<Rightarrow> bytes" where
  "checksum_digits n = [48 + of_nat (n div 100), 48 + of_nat (n div 10 mod 10), 48 + of_nat (n mod 10)]"

definition sealed :: "bytes \<Rightarrow> bytes" where
  "sealed body = body @ field 10 (checksum_digits (sum_list (map unat body) mod 256))"

lemma foldl_plus: "foldl (+) (a :: u8) xs = a + sum_list xs"
  by (induction xs arbitrary: a) (auto simp: add.assoc)

lemma sum_list_bytes: "sum_list (xs :: u8 list) = of_nat (sum_list (map unat xs))"
  by (induction xs) auto

lemma three_digits: "n div 100 * 100 + n div 10 mod 10 * 10 + n mod 10 = (n :: nat)"
proof -
  have "n div 10 = n div 100 * 10 + n div 10 mod 10"
    using div_mult_mod_eq [of "n div 10" 10] by (simp add: div_mult2_eq [symmetric])
  then show ?thesis using div_mult_mod_eq [of n 10] by linarith
qed

lemma of_nat_mod_256: "(of_nat (m mod 256) :: u8) = of_nat m"
  by (simp only: word_unat_eq_iff unat_of_nat) simp

lemma zero_256: "(256 :: u8) = 0"
  using of_nat_mod_256 [of 256] by simp

lemma dec_digits_10: "dec_digits 10 = [49, 48]"
  by (simp add: dec_digits.simps)

text \<open>
  C37. \<^verbatim>\<open>verify_checksum\<close> rejects every message that carries a correct checksum: it adds the
  bytes of the checksum field itself to the sum, which shifts it by 46 plus the digits of
  the checksum.
\<close>

theorem correct_checksum_rejected: "\<not> verify_checksum (Some (sealed body))"
proof
  define n where "n = sum_list (map unat body) mod 256"
  define a b c where "a = n div 100" and "b = n div 10 mod 10" and "c = n mod 10"
  define buf where "buf = body @ [49, 48, 0x3D, 48 + of_nat a, 48 + of_nat b, 48 + of_nat c, SOH]"
  have n: "n < 256" by (simp add: n_def)
  then have abc: "a < 10" "b < 10" "c < 10" "a * 100 + b * 10 + c = n"
    using three_digits [of n] by (simp_all add: a_def b_def c_def)
  have buf: "sealed body = buf"
    by (simp add: buf_def sealed_def field_def checksum_digits_def dec_digits_10 a_def b_def c_def n_def)
  have pos: "checksum_field_end buf (length buf - 1) = length body + 6"
    by (simp add: buf_def nth_append)
  have stored: "buf ! (length body + 3) = 48 + of_nat a" "buf ! (length body + 4) = 48 + of_nat b"
    "buf ! (length body + 5) = 48 + of_nat c"
    by (simp_all add: buf_def nth_append)
  have sum: "foldl (+) 0 (take (length body + 6) buf) = of_nat n + 46 + of_nat (a + b + c)"
    unfolding buf_def foldl_plus using zero_256 by (simp add: sum_list_bytes n_def of_nat_mod_256)
  have idx: "length body + 6 - 3 = length body + 3" "length body + 3 + 1 = length body + 4"
    "length body + 3 + 2 = length body + 5" by simp_all
  assume "verify_checksum (Some (sealed body))"
  then have "foldl (+) 0 (take (length body + 6) buf) =
      of_nat ((unat (ascii_to_digit (buf ! (length body + 3))) * 100 +
        unat (ascii_to_digit (buf ! (length body + 4))) * 10 +
        unat (ascii_to_digit (buf ! (length body + 5)))) mod 256)"
    unfolding verify_checksum_def buf option.case Let_def pos idx by (simp only: split: if_splits)
  then have "(of_nat n + 46 + of_nat (a + b + c) :: u8) = of_nat n"
    unfolding sum stored using abc n by (simp add: unat_ascii_digit)
  then have "(46 + of_nat (a + b + c) :: u8) = 0" by (simp add: add.assoc)
  then have "unat (of_nat (46 + (a + b + c)) :: u8) = 0" by simp
  then have "(46 + (a + b + c)) mod 256 = 0" by (simp only: unat_of_nat) simp
  then show False using abc by simp
qed

end
