(* ===== verification/Fix_Pipeline.thy ===== *)
theory Fix_Pipeline
  imports Book_Runs Fix_Theorems "HOL-Library.Signed_Division"
begin

text \<open>
  The path from a FIX message to the order book, as \<^verbatim>\<open>2_network/bench/bench_fix_pipeline.cpp\<close>
  runs it: the message generator, and the handler that parses a buffer and submits a new
  order. A handler that has no defined result (undefined behaviour while parsing, or a
  matching loop that does not end) is \<open>None\<close>.
\<close>

subsection \<open>Message generation\<close>

definition text_bytes :: "string \<Rightarrow> bytes" where
  "text_bytes s = map of_char s"

text \<open>\<^verbatim>\<open>std::to_string\<close> on \<^verbatim>\<open>int\<close>.\<close>

definition to_string :: "int \<Rightarrow> bytes" where
  "to_string i = (if i < 0 then 45 # dec_digits (nat (- i)) else dec_digits (nat i))"

text \<open>Division and remainder of \<^verbatim>\<open>int\<close> truncate towards zero.\<close>

definition make_fix_message :: "int \<Rightarrow> int \<Rightarrow> int \<Rightarrow> u8 \<Rightarrow> bytes" where
  "make_fix_message order_id qty price side_char =
     text_bytes ''8=FIX.4.2'' @ [SOH] @ text_bytes ''9=65'' @ [SOH] @ text_bytes ''35=D'' @ [SOH] @
     text_bytes ''49=SENDER'' @ [SOH] @ text_bytes ''56=TARGET'' @ [SOH] @ text_bytes ''34='' @
     to_string order_id @
     [SOH] @ text_bytes ''11=ORDER'' @
     to_string order_id @
     [SOH] @ text_bytes ''55=AAPL'' @ [SOH] @ text_bytes ''54='' @
     [side_char] @
     [SOH] @ text_bytes ''38='' @
     to_string qty @
     [SOH] @ text_bytes ''44='' @
     to_string (price sdiv 10000) @
     text_bytes ''.'' @
     to_string ((price smod 10000) sdiv 1000) @
     to_string ((price smod 1000) sdiv 100) @
     to_string ((price smod 100) sdiv 10) @
     to_string (price smod 10) @
     [SOH] @ text_bytes ''40=2'' @ [SOH] @ text_bytes ''10=123'' @ [SOH]"

subsection \<open>The handler\<close>

definition submit_message :: "(nat \<Rightarrow> u64) \<Rightarrow> fix_message \<Rightarrow> order_book \<Rightarrow> order_book option" where
  "submit_message tsc msg ob =
     (if valid msg \<and> msg_type msg = NewOrderSingle then
        (let sd = (if fix_side msg = 1 then Buy else Sell)
         in map_option snd (add_order tsc sd (price_ticks msg) (order_qty msg) Limit ob))
      else Some ob)"

definition handle_message :: "(nat \<Rightarrow> u64) \<Rightarrow> bytes \<Rightarrow> order_book \<Rightarrow> order_book option" where
  "handle_message tsc buf ob =
     (case parse (Some buf) of None \<Rightarrow> None
      | Some msg \<Rightarrow> submit_message tsc msg ob)"

fun feed :: "(nat \<Rightarrow> u64) \<Rightarrow> bytes list \<Rightarrow> order_book \<Rightarrow> order_book option" where
  "feed tsc [] ob = Some ob"
| "feed tsc (buf # bufs) ob =
     (case handle_message tsc buf ob of None \<Rightarrow> None | Some ob' \<Rightarrow> feed tsc bufs ob')"

subsection \<open>A generated message is a sequence of fields\<close>

definition price_digits :: "nat \<Rightarrow> bytes" where
  "price_digits p = dec_digits (p div 10000) @ 46 #
     [48 + of_nat (p div 1000 mod 10), 48 + of_nat (p div 100 mod 10), 48 + of_nat (p div 10 mod 10),
      48 + of_nat (p mod 10)]"

lemma dec_digit: "n < 10 \<Longrightarrow> dec_digits n = [48 + of_nat n]"
  by (simp add: dec_digits.simps)

lemma dec_digits_2: "10 \<le> n \<Longrightarrow> n < 100 \<Longrightarrow> dec_digits n = [48 + of_nat (n div 10), 48 + of_nat (n mod 10)]"
  by (subst dec_digits.simps) (simp add: dec_digit)

lemma digit_at: "0 < b \<Longrightarrow> p mod (b * 10) div b = p div b mod (10 :: nat)"
  by (simp add: mod_mult2_eq)

lemma make_fix_message_fields:
  "make_fix_message (int i) (int q) (int p) s = encode
     [(8, text_bytes ''FIX.4.2''), (9, text_bytes ''65''), (35, [0x44]), (49, text_bytes ''SENDER''),
      (56, text_bytes ''TARGET''), (34, dec_digits i), (11, text_bytes ''ORDER'' @ dec_digits i),
      (55, text_bytes ''AAPL''), (54, [s]), (38, dec_digits q), (44, price_digits p), (40, [50]),
      (10, [49, 50, 51])]"
proof -
  have sdiv: "int a sdiv int b = int (a div b)" "int a smod int b = int (a mod b)" for a b
    by (simp_all add: signed_divide_int_def signed_modulo_int_def zdiv_int zmod_int sgn_if)
  have d: "p mod 10000 div 1000 = p div 1000 mod 10" "p mod 1000 div 100 = p div 100 mod 10"
    "p mod 100 div 10 = p div 10 mod 10"
    using digit_at [of 1000 p] digit_at [of 100 p] digit_at [of 10 p] by simp_all
  have price: "to_string (int p sdiv 10000) @ text_bytes ''.'' @ to_string ((int p smod 10000) sdiv 1000) @
      to_string ((int p smod 1000) sdiv 100) @ to_string ((int p smod 100) sdiv 10) @
      to_string (int p smod 10) = price_digits p"
    using sdiv [of p 10000] sdiv [of p 1000] sdiv [of p 100] sdiv [of p 10]
      sdiv [of "p mod 10000" 1000] sdiv [of "p mod 1000" 100] sdiv [of "p mod 100" 10]
    by (simp add: to_string_def price_digits_def dec_digit d text_bytes_def)
  show ?thesis
    using price
    by (simp add: make_fix_message_def encode_def field_def text_bytes_def to_string_def
        dec_digit dec_digits_2)
qed

lemma length_dec_digits: "length (dec_digits n) \<le> Suc n"
proof (induction n rule: dec_digits.induct)
  case (1 n)
  show ?case
  proof (cases "n < 10")
    case True
    then show ?thesis by (simp add: dec_digit)
  next
    case False
    then have "length (dec_digits (n div 10)) \<le> Suc (n div 10)" by (rule "1.IH")
    moreover have "Suc (n div 10) \<le> n" using False by simp
    ultimately show ?thesis using False by (subst dec_digits.simps) simp
  qed
qed

lemma no_SOH_digit: "is_digit c \<Longrightarrow> c \<noteq> SOH"
  by (auto simp: is_digit_def SOH_def word_le_nat_alt)

lemma SOH_dec_digits [simp]: "SOH \<notin> set (dec_digits n)"
  using all_digits no_SOH_digit by blast

lemma four_digits:
  "(((a * 10 + p div 1000 mod 10) * 10 + p div 100 mod 10) * 10 + p div 10 mod 10) * 10 + p mod 10 = p"
  if "a = p div 10000" for p :: nat
proof -
  have step: "p div b = p div (b * 10) * 10 + p div b mod 10" for b
    using div_mult_mod_eq [of "p div b" 10] by (simp add: div_mult2_eq)
  show ?thesis
    using step [of 1] step [of 10] step [of 100] step [of 1000] that by simp
qed

lemma price_value_digits_of:
  assumes "p < 2 ^ 31"
  shows "price_value (price_digits p) = Some (int p)"
proof -
  let ?ds = "[48 + of_nat (p div 1000 mod 10), 48 + of_nat (p div 100 mod 10),
      48 + of_nat (p div 10 mod 10), 48 + of_nat (p mod 10)] :: bytes"
  have ds: "\<forall>c \<in> set ?ds. is_digit c" by (simp add: is_digit_digit)
  have dot: "\<not> is_digit 46" by (simp add: is_digit_def)
  have int_part: "filter is_digit (dec_digits n) = dec_digits n" "dropWhile (\<lambda>c. c \<noteq> 46) (dec_digits n @ 46 # v) = 46 # v"
    for n v
  proof -
    show "filter is_digit (dec_digits n) = dec_digits n" using all_digits by (simp add: filter_id_conv)
    show "dropWhile (\<lambda>c. c \<noteq> 46) (dec_digits n @ 46 # v) = 46 # v"
      using all_digits dot by (subst dropWhile_append2) auto
  qed
  have digits: "digits_nat (filter is_digit (price_digits p)) 0 = p"
    using ds dot four_digits [OF refl, of p]
    by (simp add: price_digits_def int_part digits_dec_digits unat_digit)
  have places: "places False (price_digits p) = 4"
    using ds dot unfolding places_def price_digits_def by (simp add: int_part)
  have "length (price_digits p) \<le> p div 10000 + 6"
    using length_dec_digits [of "p div 10000"] by (simp add: price_digits_def)
  also have "\<dots> < 2 ^ 31" using assms by simp
  finally have "length (price_digits p) < 2 ^ 31" .
  then show ?thesis
    using price_value_digits [of "price_digits p"] assms by (simp add: digits places INT64_MAX_def)
qed

lemma parse_generated:
  assumes "p < 2 ^ 31" and "s \<noteq> SOH"
  shows "parse (Some (make_fix_message (int i) (int q) (int p) s)) =
    Some \<lparr>msg_type = NewOrderSingle, cl_ord_id = text_bytes ''ORDER'' @ dec_digits i,
      fix_symbol = text_bytes ''AAPL'', fix_side = s - 48, order_qty = of_nat q, price_ticks = int p,
      ord_type = 2, fix_checksum = 12, valid = True\<rparr>"
proof -
  have qty: "qty_loop (dec_digits q) 0 = of_nat q"
    using qty_loop_digits [of "dec_digits q" 0] all_digits by (simp add: digits_dec_digits)
  have "\<forall>c \<in> set (price_digits p). is_digit c \<or> c = 46"
    using all_digits by (auto simp: price_digits_def is_digit_digit)
  then have price: "SOH \<notin> set (price_digits p)"
    using no_SOH_digit by (fastforce simp: SOH_def)
  have one: "1 \<notin> set (dec_digits n)" for n
    using SOH_dec_digits [of n] by (simp add: SOH_def)
  show ?thesis
    unfolding make_fix_message_fields
    using assms(2) price one
    by (subst parse_encode)
      (auto simp: text_bytes_def SOH_def dispatch_def qty price_value_digits_of [OF assms(1)]
        checksum_value_def ascii_to_digit_def finish_def fix_message_default_def NewOrderSingle_def
        Unknown_def)
qed

text \<open>Orders as the generator takes them (id, quantity, price, side), their message, and the
  submission they stand for.\<close>

definition order_msg :: "nat \<times> nat \<times> nat \<times> side \<Rightarrow> bytes" where
  "order_msg = (\<lambda>(i, q, p, sd). make_fix_message (int i) (int q) (int p) (if sd = Buy then 49 else 50))"

definition order_op :: "nat \<times> nat \<times> nat \<times> side \<Rightarrow> book_op" where
  "order_op = (\<lambda>(i, q, p, sd). Add sd (int p) (of_nat q) Limit)"

lemma handle_generated:
  assumes "p < 2 ^ 31"
  shows "handle_message tsc (order_msg (i, q, p, sd)) ob = book_step tsc (order_op (i, q, p, sd)) ob"
proof -
  have "(if sd = Buy then 49 else 50) \<noteq> SOH" by (simp add: SOH_def)
  from parse_generated [OF assms this, of i q] show ?thesis
    by (cases sd) (simp_all add: handle_message_def submit_message_def order_msg_def order_op_def book_step_def)
qed

lemma feed_generated:
  "\<forall>(i, q, p, sd) \<in> set os. p < 2 ^ 31 \<Longrightarrow>
   feed tsc (map order_msg os) ob = run_ops tsc (map order_op os) ob"
proof (induction os arbitrary: ob)
  case (Cons x os)
  obtain i q p sd where x: "x = (i, q, p, sd)" by (metis prod_cases4)
  then show ?case
    using Cons handle_generated [of p tsc i q sd ob] by (auto split: option.split)
qed simp

lemma submissions_order_op: "list_all submission (map order_op os)"
  by (induction os) (auto simp: order_op_def)

lemma handle_message_inv: "book_inv ob \<Longrightarrow> handle_message tsc buf ob = Some ob' \<Longrightarrow> book_inv ob'"
  by (auto simp: handle_message_def submit_message_def Let_def intro: add_order_inv split: option.splits if_splits)

lemma feed_inv: "book_inv ob \<Longrightarrow> feed tsc bufs ob = Some ob' \<Longrightarrow> book_inv ob'"
  by (induction bufs arbitrary: ob) (auto split: option.splits intro: handle_message_inv)

subsection \<open>Messages as lists of fields\<close>

text \<open>The value of the last field with a given tag, among those whose value is accepted. Tags
  are read modulo \<open>2 ^ 32\<close>.\<close>

definition last_value :: "u32 \<Rightarrow> (bytes \<Rightarrow> bool) \<Rightarrow> (nat \<times> bytes) list \<Rightarrow> bytes option" where
  "last_value tag ok fs =
     (case rev (filter (\<lambda>(t, v). of_nat t = tag \<and> ok v) fs) of [] \<Rightarrow> None | (t, v) # _ \<Rightarrow> Some v)"

text \<open>The order a list of fields asks for, told from the fields alone: none unless the type is D;
  a buy when the side is 1; the decimal price in ten-thousandths; absent numbers are 0.\<close>

definition field_op :: "(nat \<times> bytes) list \<Rightarrow> book_op option" where
  "field_op fs =
     (if last_value 35 (\<lambda>v. length v = 1) fs = Some [0x44] then
        Some (Add
          (if map_option hd (last_value 54 (\<lambda>v. v \<noteq> []) fs) = Some 49 then Buy else Sell)
          (case last_value 44 (\<lambda>v. True) fs of None \<Rightarrow> 0
           | Some v \<Rightarrow> int (digits_nat (filter is_digit v) 0 * 10 ^ (4 - places False v)))
          (case last_value 38 (\<lambda>v. True) fs of None \<Rightarrow> 0 | Some v \<Rightarrow> of_nat (digits_nat v 0))
          Limit)
      else None)"

text \<open>Fields a message can be made of: no delimiter in a value, prices of at most fourteen bytes
  and quantities of digits only.\<close>

definition field_ok :: "nat \<times> bytes \<Rightarrow> bool" where
  "field_ok = (\<lambda>(t, v). SOH \<notin> set v \<and> ((of_nat t :: u32) = 44 \<longrightarrow> length v \<le> 14) \<and>
     ((of_nat t :: u32) = 38 \<longrightarrow> list_all is_digit v))"

lemma last_value_Nil [simp]: "last_value tag ok [] = None"
  by (simp add: last_value_def)

lemma last_value_snoc [simp]:
  "last_value tag ok (fs @ [(t, v)]) = (if of_nat t = tag \<and> ok v then Some v else last_value tag ok fs)"
  by (simp add: last_value_def)

lemma last_value_in: "last_value tag ok fs = Some v \<Longrightarrow> \<exists>t. (t, v) \<in> set fs \<and> of_nat t = tag \<and> ok v"
  by (induction fs rule: rev_induct) (auto split: if_splits)

lemma dispatch_all_last:
  "dispatch_all fs fix_message_default = Some m \<Longrightarrow>
   msg_type m = (case last_value 35 (\<lambda>v. length v = 1) fs of None \<Rightarrow> Unknown | Some v \<Rightarrow> v ! 0) \<and>
   fix_side m = (case last_value 54 (\<lambda>v. v \<noteq> []) fs of None \<Rightarrow> 0 | Some v \<Rightarrow> v ! 0 - 48) \<and>
   order_qty m = (case last_value 38 (\<lambda>v. True) fs of None \<Rightarrow> 0 | Some v \<Rightarrow> qty_loop v 0) \<and>
   Some (price_ticks m) = (case last_value 44 (\<lambda>v. True) fs of None \<Rightarrow> Some 0 | Some v \<Rightarrow> price_value v)"
proof (induction fs arbitrary: m rule: rev_induct)
  case (snoc f fs)
  obtain t v where f: "f = (t, v)" by fastforce
  obtain m1 where m1: "dispatch_all fs fix_message_default = Some m1" "dispatch (of_nat t) v m1 = Some m"
    using snoc.prems by (auto simp: f dispatch_all_append split: option.splits)
  note IH = snoc.IH [OF m1(1)]
  show ?case using IH m1(2) unfolding f dispatch_def
    by (auto split: if_splits)
qed (simp add: fix_message_default_def)

lemma handle_fields:
  assumes "list_all field_ok fs"
  shows "handle_message tsc (encode fs) ob =
    (case field_op fs of None \<Rightarrow> Some ob | Some x \<Rightarrow> book_step tsc x ob)"
proof -
  have soh: "\<forall>f \<in> set fs. SOH \<notin> set (snd f)" using assms by (auto simp: list_all_iff field_ok_def)
  have short: "\<forall>f \<in> set fs. (of_nat (fst f) :: u32) = 44 \<longrightarrow> length (snd f) \<le> 14"
    using assms by (auto simp: list_all_iff field_ok_def)
  obtain m where m: "dispatch_all fs fix_message_default = Some m"
    using dispatch_all_defined [OF short] by blast
  note last = dispatch_all_last [OF m]
  have qty: "order_qty m = (case last_value 38 (\<lambda>v. True) fs of None \<Rightarrow> 0 | Some v \<Rightarrow> of_nat (digits_nat v 0))"
  proof (cases "last_value 38 (\<lambda>v. True) fs")
    case (Some v)
    then have "\<forall>c \<in> set v. is_digit c"
      using last_value_in [OF Some] assms by (auto simp: list_all_iff field_ok_def)
    then show ?thesis using Some last qty_loop_digits [of v 0] by simp
  qed (use last in simp)
  have price: "price_ticks m = (case last_value 44 (\<lambda>v. True) fs of None \<Rightarrow> 0
      | Some v \<Rightarrow> int (digits_nat (filter is_digit v) 0 * 10 ^ (4 - places False v)))"
  proof (cases "last_value 44 (\<lambda>v. True) fs")
    case (Some v)
    then have "length v < 2 ^ 31"
      using last_value_in [OF Some] assms by (auto simp: list_all_iff field_ok_def)
    from price_value_digits [OF this] show ?thesis
      using Some last by (simp add: Let_def split: if_splits)
  qed (use last in simp)
  have sd: "fix_side m = 1 \<longleftrightarrow> map_option hd (last_value 54 (\<lambda>v. v \<noteq> []) fs) = Some 49"
  proof (cases "last_value 54 (\<lambda>v. v \<noteq> []) fs")
    case (Some v)
    then have "v \<noteq> []" using last_value_in [OF Some] by auto
    then have "v ! 0 = hd v" by (simp add: hd_conv_nth)
    moreover have "x - 48 = 1 \<longleftrightarrow> x = (49 :: u8)" for x
      by (simp add: diff_eq_eq)
    ultimately show ?thesis using Some last by simp
  qed (use last in simp)
  have kind: "msg_type m = NewOrderSingle \<longleftrightarrow> last_value 35 (\<lambda>v. length v = 1) fs = Some [0x44]"
  proof (cases "last_value 35 (\<lambda>v. length v = 1) fs")
    case (Some v)
    then have "length v = 1" using last_value_in [OF Some] by auto
    then obtain c where "v = [c]" by (metis One_nat_def length_0_conv length_Suc_conv)
    then show ?thesis using Some last by (simp add: NewOrderSingle_def)
  qed (use last in \<open>simp add: NewOrderSingle_def Unknown_def\<close>)
  have "NewOrderSingle \<noteq> Unknown" by (simp add: NewOrderSingle_def Unknown_def)
  then show ?thesis
    unfolding handle_message_def parse_encode [OF soh] m submit_message_def finish_def field_op_def
    using kind sd by (auto simp: qty price book_step_def)
qed

lemma feed_fields:
  "list_all (list_all field_ok) msgs \<Longrightarrow>
   feed tsc (map encode msgs) ob = run_ops tsc (List.map_filter field_op msgs) ob"
  by (induction msgs arbitrary: ob)
    (auto simp: handle_fields List.map_filter_simps split: option.split)

lemma submissions_field_op: "list_all submission (List.map_filter field_op msgs)"
  by (auto simp: list_all_iff List.map_filter_def field_op_def split: if_splits)

subsection \<open>Properties\<close>

text \<open>
  C15. Generated messages round-trip: for every order id, quantity and price that is not
  negative and every side byte but the delimiter, parsing the message \<^verbatim>\<open>make_fix_message\<close>
  builds gives back exactly these values.
\<close>

theorem generated_message_roundtrip:
  assumes "p < 2 ^ 31" and "s \<noteq> SOH"
  shows "parse (Some (make_fix_message (int i) (int q) (int p) s)) =
    Some \<lparr>msg_type = NewOrderSingle, cl_ord_id = text_bytes ''ORDER'' @ dec_digits i,
      fix_symbol = text_bytes ''AAPL'', fix_side = s - 48, order_qty = of_nat q, price_ticks = int p,
      ord_type = 2, fix_checksum = 12, valid = True\<rparr>"
  using assms by (rule parse_generated)

lemma generated_message_roundtrip_witness:
  "\<exists>m. parse (Some (make_fix_message 7 100 1500001 49)) = Some m \<and> valid m \<and> fix_side m = 1 \<and>
    order_qty m = 100 \<and> price_ticks m = 1500001 \<and> cl_ord_id m = text_bytes ''ORDER7''"
proof -
  have "(1500001 :: nat) < 2 ^ 31" "(49 :: u8) \<noteq> SOH" by (simp_all add: SOH_def)
  from generated_message_roundtrip [OF this, of 7 100] show ?thesis
    by (simp add: text_bytes_def dec_digit)
qed

end
