(* ===== verification/Mpsc_Queue.thy ===== *)
theory Mpsc_Queue
  imports Prelude
begin

text \<open>
  \<^verbatim>\<open>MpscQueue<T>\<close> of \<^verbatim>\<open>1_orderbook/include/mpsc_queue.hpp\<close>: a linked list whose producers swap
  their node into \<^verbatim>\<open>tail_\<close> and then link it behind the previous one, and whose consumer
  follows the links from \<^verbatim>\<open>head_\<close>. Nodes live in a heap, a map from addresses to nodes; an
  access to an address that is not allocated has no result (\<open>None\<close>), so a use after free
  would show. The concurrent model interleaves the atomic accesses of any number of
  producers and of the one consumer; the release/acquire pairs of the code order a node's
  initialisation before its use, so the interleavings are taken over one memory.
\<close>

record 'a node =
  nd_data :: 'a
  nd_next :: "nat option"

record 'a mpsc =
  heap :: "nat \<Rightarrow> 'a node option"
  mq_head :: nat
  mq_tail :: nat

text \<open>\<^verbatim>\<open>new\<close> is the allocator's: the address it returns is an argument.\<close>

definition mpsc_new :: "nat \<Rightarrow> 'a \<Rightarrow> 'a mpsc" where
  "mpsc_new stub d = \<lparr>heap = [stub \<mapsto> \<lparr>nd_data = d, nd_next = None\<rparr>], mq_head = stub, mq_tail = stub\<rparr>"

subsection \<open>The atomic parts of \<^verbatim>\<open>push\<close>\<close>

definition push_alloc :: "nat \<Rightarrow> 'a \<Rightarrow> 'a mpsc \<Rightarrow> 'a mpsc" where
  "push_alloc a item q = q\<lparr>heap := (heap q)(a \<mapsto> \<lparr>nd_data = item, nd_next = None\<rparr>)\<rparr>"

definition push_exchange :: "nat \<Rightarrow> 'a mpsc \<Rightarrow> nat \<times> 'a mpsc" where
  "push_exchange a q = (mq_tail q, q\<lparr>mq_tail := a\<rparr>)"

definition push_link :: "nat \<Rightarrow> nat \<Rightarrow> 'a mpsc \<Rightarrow> 'a mpsc option" where
  "push_link prev a q = (case heap q prev of None \<Rightarrow> None
     | Some nd \<Rightarrow> Some (q\<lparr>heap := (heap q)(prev \<mapsto> nd\<lparr>nd_next := Some a\<rparr>)\<rparr>))"

definition mpsc_push :: "nat \<Rightarrow> 'a \<Rightarrow> 'a mpsc \<Rightarrow> 'a mpsc option" where
  "mpsc_push a item q = (let (prev, q1) = push_exchange a (push_alloc a item q) in push_link prev a q1)"

subsection \<open>The parts of \<^verbatim>\<open>pop\<close>\<close>

definition pop_load :: "'a mpsc \<Rightarrow> (nat \<times> nat option) option" where
  "pop_load q = (case heap q (mq_head q) of None \<Rightarrow> None | Some nd \<Rightarrow> Some (mq_head q, nd_next nd))"

definition pop_take :: "nat \<Rightarrow> nat \<Rightarrow> 'a mpsc \<Rightarrow> ('a \<times> 'a mpsc) option" where
  "pop_take hp nxt q = (case (heap q nxt, heap q hp) of
     (Some nd, Some _) \<Rightarrow> Some (nd_data nd, q\<lparr>mq_head := nxt, heap := (heap q)(hp := None)\<rparr>)
   | _ \<Rightarrow> None)"

definition mpsc_pop :: "'a mpsc \<Rightarrow> ('a option \<times> 'a mpsc) option" where
  "mpsc_pop q = (case pop_load q of None \<Rightarrow> None
     | Some (hp, None) \<Rightarrow> Some (None, q)
     | Some (hp, Some nxt) \<Rightarrow> map_option (\<lambda>(x, q1). (Some x, q1)) (pop_take hp nxt q))"

subsection \<open>The destructor\<close>

text \<open>The loop follows the links and frees each node; following a link to a node that is
  not allocated has no result.\<close>

partial_function (option) destroy_loop ::
  "nat option \<Rightarrow> (nat \<Rightarrow> 'a node option) \<Rightarrow> (nat \<Rightarrow> 'a node option) option" where
  "destroy_loop node h = (case node of None \<Rightarrow> Some h
     | Some a \<Rightarrow> (case h a of None \<Rightarrow> None
         | Some nd \<Rightarrow> destroy_loop (nd_next nd) (h(a := None))))"

definition mpsc_destroy :: "'a mpsc \<Rightarrow> (nat \<Rightarrow> 'a node option) option" where
  "mpsc_destroy q = destroy_loop (Some (mq_head q)) (heap q)"

subsection \<open>Concurrent runs\<close>

datatype producer = Idle | Allocated nat | Exchanged nat nat

datatype consumer = Ready | Loaded nat nat

record 'a mpsc_sys =
  shared :: "'a mpsc"
  prods :: "nat \<Rightarrow> producer"
  cons :: consumer

text \<open>What a step shows: the value whose node was swapped into \<^verbatim>\<open>tail_\<close>, the value a \<^verbatim>\<open>pop\<close>
  returns, a \<^verbatim>\<open>pop\<close> that finds nothing, an access to memory that is not allocated.\<close>

datatype 'a mpsc_event = Internal | Enqueued 'a | Dequeued 'a | FoundEmpty | Fault

inductive mpsc_step :: "'a mpsc_sys \<Rightarrow> 'a mpsc_event \<Rightarrow> 'a mpsc_sys \<Rightarrow> bool" where
  alloc: "prods s t = Idle \<Longrightarrow> heap (shared s) a = None \<Longrightarrow>
    mpsc_step s Internal (s\<lparr>shared := push_alloc a x (shared s), prods := (prods s)(t := Allocated a)\<rparr>)"
| exchange: "prods s t = Allocated a \<Longrightarrow> heap (shared s) a = Some nd \<Longrightarrow>
    push_exchange a (shared s) = (prev, q) \<Longrightarrow>
    mpsc_step s (Enqueued (nd_data nd)) (s\<lparr>shared := q, prods := (prods s)(t := Exchanged prev a)\<rparr>)"
| link: "prods s t = Exchanged prev a \<Longrightarrow> push_link prev a (shared s) = Some q \<Longrightarrow>
    mpsc_step s Internal (s\<lparr>shared := q, prods := (prods s)(t := Idle)\<rparr>)"
| link_fault: "prods s t = Exchanged prev a \<Longrightarrow> push_link prev a (shared s) = None \<Longrightarrow> mpsc_step s Fault s"
| load: "cons s = Ready \<Longrightarrow> pop_load (shared s) = Some (hp, Some nxt) \<Longrightarrow>
    mpsc_step s Internal (s\<lparr>cons := Loaded hp nxt\<rparr>)"
| load_empty: "cons s = Ready \<Longrightarrow> pop_load (shared s) = Some (hp, None) \<Longrightarrow> mpsc_step s FoundEmpty s"
| load_fault: "cons s = Ready \<Longrightarrow> pop_load (shared s) = None \<Longrightarrow> mpsc_step s Fault s"
| take_node: "cons s = Loaded hp nxt \<Longrightarrow> pop_take hp nxt (shared s) = Some (x, q) \<Longrightarrow>
    mpsc_step s (Dequeued x) (s\<lparr>shared := q, cons := Ready\<rparr>)"
| take_fault: "cons s = Loaded hp nxt \<Longrightarrow> pop_take hp nxt (shared s) = None \<Longrightarrow> mpsc_step s Fault s"

inductive mpsc_run :: "'a mpsc_sys \<Rightarrow> 'a mpsc_event list \<Rightarrow> 'a mpsc_sys \<Rightarrow> bool" where
  start: "mpsc_run s [] s"
| snoc: "mpsc_run s es s1 \<Longrightarrow> mpsc_step s1 e s2 \<Longrightarrow> mpsc_run s (es @ [e]) s2"

definition mpsc_init :: "nat \<Rightarrow> 'a \<Rightarrow> 'a mpsc_sys" where
  "mpsc_init stub d = \<lparr>shared = mpsc_new stub d, prods = (\<lambda>_. Idle), cons = Ready\<rparr>"

fun enqueued :: "'a mpsc_event list \<Rightarrow> 'a list" where
  "enqueued [] = []"
| "enqueued (Enqueued x # es) = x # enqueued es"
| "enqueued (_ # es) = enqueued es"

fun dequeued :: "'a mpsc_event list \<Rightarrow> 'a list" where
  "dequeued [] = []"
| "dequeued (Dequeued x # es) = x # dequeued es"
| "dequeued (_ # es) = dequeued es"

subsection \<open>Consecutive elements of a list\<close>

abbreviation pairs :: "'b list \<Rightarrow> ('b \<times> 'b) set" where
  "pairs xs \<equiv> set (zip xs (tl xs))"

lemma pairs_Cons: "pairs (x # y # xs) = insert (x, y) (pairs (y # xs))"
  by simp

lemma pairs_snoc: "xs \<noteq> [] \<Longrightarrow> pairs (xs @ [y]) = insert (last xs, y) (pairs xs)"
proof (induction xs rule: induct_list012)
  case (3 x z zs)
  then show ?case by auto
qed simp_all

lemma pairs_mem: "(a, b) \<in> pairs xs \<Longrightarrow> a \<in> set (butlast xs) \<and> b \<in> set (tl xs)"
proof (induction xs rule: induct_list012)
  case (3 x z zs)
  then show ?case by (cases zs) auto
qed simp_all

lemma pairs_first_unique: "distinct xs \<Longrightarrow> (a, b) \<in> pairs xs \<Longrightarrow> (a, c) \<in> pairs xs \<Longrightarrow> b = c"
proof (induction xs rule: induct_list012)
  case (3 x z zs)
  have "x \<notin> set (butlast (z # zs))" using 3(3) by (auto dest: in_set_butlastD)
  then have "(x, d) \<notin> pairs (z # zs)" for d
    using pairs_mem [of x d "z # zs"] by blast
  with 3 show ?case by auto
qed simp_all

lemma pairs_not_last: "distinct xs \<Longrightarrow> (a, b) \<in> pairs xs \<Longrightarrow> a \<noteq> last xs"
proof -
  assume d: "distinct xs" and ab: "(a, b) \<in> pairs xs"
  then have "xs \<noteq> []" by auto
  then have "distinct (butlast xs @ [last xs])" using d by simp
  then show "a \<noteq> last xs" using pairs_mem [OF ab] by auto
qed

subsection \<open>Invariant\<close>

definition nxt_of :: "'a mpsc \<Rightarrow> nat \<Rightarrow> nat option" where
  "nxt_of q a = (case heap q a of None \<Rightarrow> None | Some nd \<Rightarrow> nd_next nd)"

definition data_of :: "'a mpsc \<Rightarrow> nat \<Rightarrow> 'a option" where
  "data_of q a = map_option nd_data (heap q a)"

text \<open>The nodes of producers that have not swapped yet, and the links producers are about to
  set.\<close>

definition waiting :: "(nat \<Rightarrow> producer) \<Rightarrow> nat set" where
  "waiting pcs = {a. \<exists>t. pcs t = Allocated a}"

definition linking :: "(nat \<Rightarrow> producer) \<Rightarrow> (nat \<times> nat) set" where
  "linking pcs = {(a, b). \<exists>t. pcs t = Exchanged a b}"

definition one_owner :: "(nat \<Rightarrow> producer) \<Rightarrow> bool" where
  "one_owner pcs \<longleftrightarrow> (\<forall>t t'. pcs t = pcs t' \<longrightarrow> pcs t \<noteq> Idle \<longrightarrow> t = t')"

text \<open>
  The nodes of the queue, in the order in which they were swapped into \<^verbatim>\<open>tail_\<close>: from the node
  \<^verbatim>\<open>head_\<close> points to, whose value has been consumed, to the node \<^verbatim>\<open>tail_\<close> points to. A node is
  linked to its successor, or the producer of the successor is about to link it. Besides
  these, only the nodes of producers that have not swapped yet are allocated.
\<close>

definition chain_ok :: "'a mpsc \<Rightarrow> (nat \<Rightarrow> producer) \<Rightarrow> nat list \<Rightarrow> bool" where
  "chain_ok q pcs ns \<longleftrightarrow>
     ns \<noteq> [] \<and> distinct ns \<and> hd ns = mq_head q \<and> last ns = mq_tail q \<and>
     (\<forall>a b. (a, b) \<in> pairs ns \<longrightarrow>
        (if (a, b) \<in> linking pcs then nxt_of q a = None else nxt_of q a = Some b)) \<and>
     nxt_of q (mq_tail q) = None"

definition prods_ok :: "'a mpsc \<Rightarrow> (nat \<Rightarrow> producer) \<Rightarrow> nat list \<Rightarrow> bool" where
  "prods_ok q pcs ns \<longleftrightarrow> one_owner pcs \<and> linking pcs \<subseteq> pairs ns \<and> waiting pcs \<inter> set ns = {} \<and>
     (\<forall>a \<in> waiting pcs. nxt_of q a = None) \<and> dom (heap q) = set ns \<union> waiting pcs"

definition cons_ok :: "'a mpsc \<Rightarrow> consumer \<Rightarrow> nat list \<Rightarrow> bool" where
  "cons_ok q c ns \<longleftrightarrow>
     (\<forall>h n. c = Loaded h n \<longrightarrow> (\<exists>rest. ns = h # n # rest) \<and> nxt_of q h = Some n)"

definition queue_inv :: "'a mpsc \<Rightarrow> (nat \<Rightarrow> producer) \<Rightarrow> consumer \<Rightarrow> nat list \<Rightarrow> 'a list \<Rightarrow> bool" where
  "queue_inv q pcs c ns pending \<longleftrightarrow> chain_ok q pcs ns \<and> prods_ok q pcs ns \<and> cons_ok q c ns \<and>
     map (data_of q) (tl ns) = map Some pending"

definition mpsc_inv :: "'a mpsc_sys \<Rightarrow> 'a list \<Rightarrow> bool" where
  "mpsc_inv s pending \<longleftrightarrow> (\<exists>ns. queue_inv (shared s) (prods s) (cons s) ns pending)"

subsection \<open>How the steps move the producers\<close>

lemma one_ownerD: "one_owner pcs \<Longrightarrow> pcs t = p \<Longrightarrow> pcs t' = p \<Longrightarrow> p \<noteq> Idle \<Longrightarrow> t' = t"
  by (auto simp: one_owner_def)

lemma waiting_iff: "a \<in> waiting pcs \<longleftrightarrow> (\<exists>t. pcs t = Allocated a)"
  and linking_iff: "(a, b) \<in> linking pcs \<longleftrightarrow> (\<exists>t. pcs t = Exchanged a b)"
  by (simp_all add: waiting_def linking_def)

text \<open>Both sets, with the producer that moves told apart.\<close>

lemma ex_upd: "(\<exists>t'. (f(t := v)) t' = w) \<longleftrightarrow> v = w \<or> (\<exists>t'. t' \<noteq> t \<and> f t' = w)"
proof
  assume "\<exists>t'. (f(t := v)) t' = w"
  then obtain t' where "(f(t := v)) t' = w" by blast
  then show "v = w \<or> (\<exists>t'. t' \<noteq> t \<and> f t' = w)" by (cases "t' = t") auto
next
  assume "v = w \<or> (\<exists>t'. t' \<noteq> t \<and> f t' = w)"
  then show "\<exists>t'. (f(t := v)) t' = w"
  proof
    assume "v = w"
    then show ?thesis by (intro exI [of _ t]) simp
  next
    assume "\<exists>t'. t' \<noteq> t \<and> f t' = w"
    then obtain t' where "t' \<noteq> t" "f t' = w" by blast
    then show ?thesis by (intro exI [of _ t']) simp
  qed
qed

lemma ex_split: "(\<exists>t'. f t' = w) \<longleftrightarrow> f t = w \<or> (\<exists>t'. t' \<noteq> t \<and> f t' = w)"
  using ex_upd [of f t "f t" w] by simp

lemma rel_eqI: "(\<And>x y. (x, y) \<in> A \<longleftrightarrow> (x, y) \<in> B) \<Longrightarrow> A = B"
  by auto

lemma waiting_upd: "x \<in> waiting (pcs(t := p)) \<longleftrightarrow> p = Allocated x \<or> (\<exists>t'. t' \<noteq> t \<and> pcs t' = Allocated x)"
  unfolding waiting_iff by (rule ex_upd)

lemma waiting_split: "x \<in> waiting pcs \<longleftrightarrow> pcs t = Allocated x \<or> (\<exists>t'. t' \<noteq> t \<and> pcs t' = Allocated x)"
  unfolding waiting_iff by (rule ex_split)

lemma linking_upd: "(x, y) \<in> linking (pcs(t := p)) \<longleftrightarrow>
    p = Exchanged x y \<or> (\<exists>t'. t' \<noteq> t \<and> pcs t' = Exchanged x y)"
  unfolding linking_iff by (rule ex_upd)

lemma linking_split: "(x, y) \<in> linking pcs \<longleftrightarrow>
    pcs t = Exchanged x y \<or> (\<exists>t'. t' \<noteq> t \<and> pcs t' = Exchanged x y)"
  unfolding linking_iff by (rule ex_split)

lemma producers_alloc:
  assumes "pcs t = Idle"
  shows "waiting (pcs(t := Allocated a)) = insert a (waiting pcs)"
    "linking (pcs(t := Allocated a)) = linking pcs"
proof -
  show "waiting (pcs(t := Allocated a)) = insert a (waiting pcs)"
  proof (rule set_eqI)
    show "x \<in> waiting (pcs(t := Allocated a)) \<longleftrightarrow> x \<in> insert a (waiting pcs)" for x
      unfolding waiting_upd insert_iff waiting_split [of x pcs t] using assms by auto
  qed
  show "linking (pcs(t := Allocated a)) = linking pcs"
  proof (rule rel_eqI)
    show "(x, y) \<in> linking (pcs(t := Allocated a)) \<longleftrightarrow> (x, y) \<in> linking pcs" for x y
      unfolding linking_upd linking_split [of x y pcs t] using assms by auto
  qed
qed

lemma producers_exchange:
  assumes "one_owner pcs" and "pcs t = Allocated a"
  shows "waiting (pcs(t := Exchanged p a)) = waiting pcs - {a}"
    "linking (pcs(t := Exchanged p a)) = insert (p, a) (linking pcs)"
proof -
  have owner: "\<not> (\<exists>t'. t' \<noteq> t \<and> pcs t' = Allocated a)" using one_ownerD [OF assms] by blast
  show "waiting (pcs(t := Exchanged p a)) = waiting pcs - {a}"
  proof (rule set_eqI)
    show "x \<in> waiting (pcs(t := Exchanged p a)) \<longleftrightarrow> x \<in> waiting pcs - {a}" for x
      unfolding waiting_upd Diff_iff waiting_split [of x pcs t]
      using assms(2) owner by (cases "x = a") simp_all
  qed
  show "linking (pcs(t := Exchanged p a)) = insert (p, a) (linking pcs)"
  proof (rule rel_eqI)
    show "(x, y) \<in> linking (pcs(t := Exchanged p a)) \<longleftrightarrow> (x, y) \<in> insert (p, a) (linking pcs)" for x y
      unfolding linking_upd insert_iff linking_split [of x y pcs t] using assms(2) by auto
  qed
qed

lemma producers_link:
  assumes "one_owner pcs" and "pcs t = Exchanged p a"
  shows "waiting (pcs(t := Idle)) = waiting pcs" "linking (pcs(t := Idle)) = linking pcs - {(p, a)}"
proof -
  have owner: "\<not> (\<exists>t'. t' \<noteq> t \<and> pcs t' = Exchanged p a)" using one_ownerD [OF assms] by blast
  show "waiting (pcs(t := Idle)) = waiting pcs"
  proof (rule set_eqI)
    show "x \<in> waiting (pcs(t := Idle)) \<longleftrightarrow> x \<in> waiting pcs" for x
      unfolding waiting_upd waiting_split [of x pcs t] using assms(2) by auto
  qed
  show "linking (pcs(t := Idle)) = linking pcs - {(p, a)}"
  proof (rule rel_eqI)
    show "(x, y) \<in> linking (pcs(t := Idle)) \<longleftrightarrow> (x, y) \<in> linking pcs - {(p, a)}" for x y
      unfolding linking_upd Diff_iff linking_split [of x y pcs t]
      using assms(2) owner by (cases "x = p \<and> y = a") auto
  qed
qed

lemma one_owner_upd:
  assumes "one_owner pcs" and "p = Idle \<or> (\<forall>t'. pcs t' \<noteq> p)"
  shows "one_owner (pcs(t := p))"
  using assms unfolding one_owner_def fun_upd_apply by auto

subsection \<open>Every step keeps the invariant\<close>

lemma queue_invD:
  assumes "queue_inv q pcs c ns pending"
  shows "ns \<noteq> []" "distinct ns" "hd ns = mq_head q" "last ns = mq_tail q" "nxt_of q (mq_tail q) = None"
    "one_owner pcs" "linking pcs \<subseteq> pairs ns" "waiting pcs \<inter> set ns = {}"
    "dom (heap q) = set ns \<union> waiting pcs" "map (data_of q) (tl ns) = map Some pending"
  using assms by (simp_all add: queue_inv_def chain_ok_def prods_ok_def)

lemma queue_inv_links:
  assumes "queue_inv q pcs c ns pending"
  shows "(a, b) \<in> pairs ns \<Longrightarrow> (a, b) \<in> linking pcs \<Longrightarrow> nxt_of q a = None"
    "(a, b) \<in> pairs ns \<Longrightarrow> (a, b) \<notin> linking pcs \<Longrightarrow> nxt_of q a = Some b"
    "a \<in> waiting pcs \<Longrightarrow> nxt_of q a = None"
    "c = Loaded h n \<Longrightarrow> (\<exists>rest. ns = h # n # rest) \<and> nxt_of q h = Some n"
proof -
  have chain: "(if (a, b) \<in> linking pcs then nxt_of q a = None else nxt_of q a = Some b)"
    if "(a, b) \<in> pairs ns" for a b
    using assms that by (simp add: queue_inv_def chain_ok_def)
  then show "(a, b) \<in> pairs ns \<Longrightarrow> (a, b) \<in> linking pcs \<Longrightarrow> nxt_of q a = None"
    "(a, b) \<in> pairs ns \<Longrightarrow> (a, b) \<notin> linking pcs \<Longrightarrow> nxt_of q a = Some b"
    using chain [of a b] by simp_all
  show "a \<in> waiting pcs \<Longrightarrow> nxt_of q a = None"
    "c = Loaded h n \<Longrightarrow> (\<exists>rest. ns = h # n # rest) \<and> nxt_of q h = Some n"
    using assms by (simp_all add: queue_inv_def prods_ok_def cons_ok_def)
qed

lemma alloc_inv:
  assumes "queue_inv q pcs c ns pending" and "pcs t = Idle" and "heap q a = None"
  shows "queue_inv (push_alloc a x q) (pcs(t := Allocated a)) c ns pending"
proof -
  note inv = queue_invD [OF assms(1)]
  let ?q = "push_alloc a x q"
  have a: "a \<notin> set ns" "a \<notin> waiting pcs" using inv(9) assms(3) by (auto simp: domIff)
  have nxt: "nxt_of ?q b = nxt_of q b" for b
    using assms(3) by (simp add: nxt_of_def push_alloc_def)
  have q: "mq_head ?q = mq_head q" "mq_tail ?q = mq_tail q" "dom (heap ?q) = insert a (dom (heap q))"
    by (simp_all add: push_alloc_def)
  have data: "map (data_of ?q) (tl ns) = map (data_of q) (tl ns)"
  proof (rule map_cong [OF refl])
    fix b
    assume "b \<in> set (tl ns)"
    then have "b \<noteq> a" using a(1) list.set_sel(2) inv(1) by metis
    then show "data_of ?q b = data_of q b" by (simp add: data_of_def push_alloc_def)
  qed
  have "one_owner (pcs(t := Allocated a))"
    using one_owner_upd [OF inv(6), of "Allocated a" t] a(2) by (simp add: waiting_iff)
  moreover have "nxt_of q a = None" using assms(3) by (simp add: nxt_of_def)
  ultimately show ?thesis
    using assms(1) a data inv(9)
    unfolding queue_inv_def chain_ok_def prods_ok_def cons_ok_def producers_alloc [of pcs t a, OF assms(2)] nxt q
    by simp
qed

lemma exchange_inv:
  assumes "queue_inv q pcs c ns pending" and "pcs t = Allocated a" and "heap q a = Some nd"
  shows "queue_inv (snd (push_exchange a q)) (pcs(t := Exchanged (fst (push_exchange a q)) a)) c
    (ns @ [a]) (pending @ [nd_data nd])"
proof -
  note inv = queue_invD [OF assms(1)] and links = queue_inv_links [OF assms(1)]
  define p where "p = mq_tail q"
  let ?q = "q\<lparr>mq_tail := a\<rparr>"
  have wait: "a \<in> waiting pcs" using assms(2) by (auto simp: waiting_iff)
  have a: "a \<notin> set ns" "nxt_of q a = None" using inv(8) wait links(3) by blast+
  have pr: "pairs (ns @ [a]) = insert (p, a) (pairs ns)"
    using pairs_snoc [OF inv(1)] inv(4) by (simp add: p_def)
  have fresh: "(p, b) \<notin> linking pcs" for b
    using inv(7) pairs_not_last [OF inv(2), of p b] inv(4) by (auto simp: p_def)
  have nxt: "nxt_of ?q b = nxt_of q b" and data: "data_of ?q = data_of q" for b
    by (simp_all add: nxt_of_def data_of_def fun_eq_iff)
  have move: "waiting (pcs(t := Exchanged p a)) = waiting pcs - {a}"
    "linking (pcs(t := Exchanged p a)) = insert (p, a) (linking pcs)"
    using producers_exchange [OF inv(6) assms(2)] .
  have "if (x, y) \<in> insert (p, a) (linking pcs) then nxt_of q x = None else nxt_of q x = Some y"
    if "(x, y) \<in> insert (p, a) (pairs ns)" for x y
    using that links(1,2) [of x y] inv(5) by (auto simp: p_def)
  then have chain: "\<forall>x y. (x, y) \<in> insert (p, a) (pairs ns) \<longrightarrow>
      (if (x, y) \<in> insert (p, a) (linking pcs) then nxt_of q x = None else nxt_of q x = Some y)" by blast
  have "chain_ok ?q (pcs(t := Exchanged p a)) (ns @ [a])"
    unfolding chain_ok_def pr move nxt using chain inv(1-3) a by simp
  moreover have "prods_ok ?q (pcs(t := Exchanged p a)) (ns @ [a])"
  proof -
    have "one_owner (pcs(t := Exchanged p a))"
      using one_owner_upd [OF inv(6), of "Exchanged p a" t] fresh [of a] by (simp add: linking_iff)
    then show ?thesis
      unfolding prods_ok_def pr move nxt using inv(7-9) wait links(3) by auto
  qed
  moreover have "cons_ok ?q c (ns @ [a])"
    unfolding cons_ok_def nxt using links(4) by fastforce
  moreover have "map (data_of ?q) (tl (ns @ [a])) = map Some (pending @ [nd_data nd])"
    using inv(1,10) assms(3) by (simp add: data) (simp add: data_of_def)
  ultimately show ?thesis by (simp add: queue_inv_def push_exchange_def p_def)
qed

lemma link_inv:
  assumes "queue_inv q pcs c ns pending" and "pcs t = Exchanged p a"
  shows "\<exists>q'. push_link p a q = Some q' \<and> queue_inv q' (pcs(t := Idle)) c ns pending"
proof -
  note inv = queue_invD [OF assms(1)] and links = queue_inv_links [OF assms(1)]
  have pa: "(p, a) \<in> linking pcs" using assms(2) by (auto simp: linking_iff)
  then have pr: "(p, a) \<in> pairs ns" using inv(7) by blast
  then have "p \<in> set ns" using pairs_mem in_set_butlastD by metis
  then obtain nd where nd: "heap q p = Some nd" using inv(9) by auto
  define q' where "q' = q\<lparr>heap := (heap q)(p \<mapsto> nd\<lparr>nd_next := Some a\<rparr>)\<rparr>"
  have nxt: "nxt_of q' b = (if b = p then Some a else nxt_of q b)" for b
    by (simp add: nxt_of_def q'_def)
  have data: "data_of q' = data_of q"
    by (simp add: data_of_def q'_def fun_eq_iff nd)
  have q': "mq_head q' = mq_head q" "mq_tail q' = mq_tail q" "dom (heap q') = dom (heap q)"
    using nd by (auto simp: q'_def)
  have not_tail: "p \<noteq> mq_tail q" using pairs_not_last [OF inv(2) pr] inv(4) by simp
  have only: "x = p \<Longrightarrow> y = a" if "(x, y) \<in> pairs ns" for x y
    using pairs_first_unique [OF inv(2) pr] that by simp
  have "if (x, y) \<in> linking pcs - {(p, a)} then nxt_of q' x = None else nxt_of q' x = Some y"
    if "(x, y) \<in> pairs ns" for x y
    using links(1,2) [OF that] only [OF that] unfolding nxt by (cases "x = p") auto
  then have chain: "\<forall>x y. (x, y) \<in> pairs ns \<longrightarrow>
      (if (x, y) \<in> linking pcs - {(p, a)} then nxt_of q' x = None else nxt_of q' x = Some y)" by blast
  note move = producers_link [OF inv(6) assms(2)]
  have "chain_ok q' (pcs(t := Idle)) ns"
    unfolding chain_ok_def move q' using chain inv(1-5) not_tail nxt [of "mq_tail q"] by simp
  moreover have "prods_ok q' (pcs(t := Idle)) ns"
  proof -
    have "p \<notin> waiting pcs" using inv(8) \<open>p \<in> set ns\<close> by blast
    then show ?thesis
      unfolding prods_ok_def move q' nxt
      using inv(7-9) links(3) one_owner_upd [OF inv(6), of Idle t] by auto
  qed
  moreover have "cons_ok q' c ns"
  proof -
    have "p \<noteq> h" if "c = Loaded h n" for h n
      using links(4) [OF that] links(1) [OF pr pa] by auto
    then show ?thesis unfolding cons_ok_def nxt using links(4) by auto
  qed
  moreover have "map (data_of q') (tl ns) = map Some pending" using inv(10) by (simp only: data)
  ultimately have "queue_inv q' (pcs(t := Idle)) c ns pending" by (simp add: queue_inv_def)
  then show ?thesis using nd by (simp add: push_link_def q'_def)
qed

lemma load_inv:
  assumes "queue_inv q pcs Ready ns pending"
  obtains (found) n where "pop_load q = Some (mq_head q, Some n)" "queue_inv q pcs (Loaded (mq_head q) n) ns pending"
  | (drained) "pop_load q = Some (mq_head q, None)"
      "pending = [] \<or> (\<exists>b. (mq_head q, b) \<in> linking pcs)"
proof -
  note inv = queue_invD [OF assms] and links = queue_inv_links [OF assms]
  have "mq_head q \<in> set ns" using inv(1,3) by (metis list.set_sel(1))
  then obtain nd where nd: "heap q (mq_head q) = Some nd" using inv(9) by auto
  have nxt: "nxt_of q (mq_head q) = nd_next nd" by (simp add: nxt_of_def nd)
  show thesis
  proof (cases "nd_next nd")
    case None
    have "pending = [] \<or> (\<exists>b. (mq_head q, b) \<in> linking pcs)"
    proof (cases "tl ns")
      case Nil
      then show ?thesis using inv(10) by simp
    next
      case (Cons b bs)
      then have "ns = mq_head q # b # bs" using inv(1,3) by (cases ns) auto
      then have "(mq_head q, b) \<in> pairs ns" by simp
      then show ?thesis using links(2) [of "mq_head q" b] nxt None by auto
    qed
    then show thesis using drained nd None by (simp add: pop_load_def)
  next
    case (Some n)
    have "ns \<noteq> [mq_head q]"
    proof
      assume "ns = [mq_head q]"
      then have "mq_tail q = mq_head q" using inv(4) by simp
      then show False using inv(5) nxt Some by simp
    qed
    then obtain b rest where ns: "ns = mq_head q # b # rest"
      using inv(1,3) by (cases ns; cases "tl ns") auto
    then have "(mq_head q, b) \<in> pairs ns" by simp
    then have "b = n" using links(1,2) [of "mq_head q" b] nxt Some by (cases "(mq_head q, b) \<in> linking pcs") auto
    then have "cons_ok q (Loaded (mq_head q) n) ns" using ns nxt Some by (simp add: cons_ok_def)
    then have "queue_inv q pcs (Loaded (mq_head q) n) ns pending" using assms by (simp add: queue_inv_def)
    then show thesis using found nd Some by (simp add: pop_load_def)
  qed
qed

lemma take_inv:
  assumes "queue_inv q pcs (Loaded h n) ns pending"
  shows "\<exists>x pending' q'. pending = x # pending' \<and> pop_take h n q = Some (x, q') \<and>
    queue_inv q' pcs Ready (tl ns) pending'"
proof -
  note inv = queue_invD [OF assms] and links = queue_inv_links [OF assms]
  obtain rest where ns: "ns = h # n # rest" and hn: "nxt_of q h = Some n" using links(4) [OF refl] by blast
  obtain ndh ndn where nd: "heap q h = Some ndh" "heap q n = Some ndn"
    using inv(9) ns by (metis domD UnI1 list.set_intros)
  define q' where "q' = q\<lparr>mq_head := n, heap := (heap q)(h := None)\<rparr>"
  obtain x pending' where pending: "pending = x # pending'" "x = nd_data ndn"
    using inv(10) ns nd(2) by (cases pending) (auto simp: data_of_def)
  have h: "h \<notin> set (n # rest)" "h \<notin> waiting pcs" using inv(2,8) ns by auto
  have nxt: "nxt_of q' b = nxt_of q b" if "b \<noteq> h" for b using that by (simp add: nxt_of_def q'_def)
  have data: "map (data_of q') rest = map (data_of q) rest"
    using h by (intro map_cong) (auto simp: data_of_def q'_def)
  have pr: "pairs ns = insert (h, n) (pairs (n # rest))" by (simp add: ns)
  have no_h: "(h, b) \<notin> pairs (n # rest)" for b
    using pairs_mem [of h b "n # rest"] h(1) in_set_butlastD by metis
  have link: "linking pcs \<subseteq> pairs (n # rest)"
    using inv(7) links(1) [of h n] hn pr by auto
  have "if (a, b) \<in> linking pcs then nxt_of q' a = None else nxt_of q' a = Some b"
    if "(a, b) \<in> pairs (n # rest)" for a b
  proof -
    have "a \<noteq> h" using that no_h by blast
    then show ?thesis using links(1,2) [of a b] that pr nxt by auto
  qed
  then have chain: "\<forall>a b. (a, b) \<in> pairs (n # rest) \<longrightarrow>
      (if (a, b) \<in> linking pcs then nxt_of q' a = None else nxt_of q' a = Some b)" by blast
  have tail: "mq_tail q \<noteq> h" using inv(4) ns h(1) by (metis last_ConsR last_in_set list.discI)
  have "chain_ok q' pcs (n # rest)"
  proof -
    have "mq_head q' = n" "mq_tail q' = mq_tail q" by (simp_all add: q'_def)
    moreover have "nxt_of q' (mq_tail q) = None" using nxt [OF tail] inv(5) by simp
    moreover have "last (n # rest) = mq_tail q" using inv(4) ns by simp
    moreover have "distinct (n # rest)" using inv(2) ns by simp
    ultimately show ?thesis unfolding chain_ok_def using chain by (simp only: list.sel) simp
  qed
  moreover have "prods_ok q' pcs (n # rest)"
  proof -
    have "nxt_of q' a = None" if "a \<in> waiting pcs" for a
      using that h(2) nxt [of a] links(3) by metis
    moreover have "dom (heap q') = set (n # rest) \<union> waiting pcs"
      using inv(9) h ns by (auto simp: q'_def)
    ultimately show ?thesis unfolding prods_ok_def using inv(6,8) link ns by auto
  qed
  moreover have "cons_ok q' Ready (n # rest)" by (simp add: cons_ok_def)
  moreover have "map (data_of q') (tl (n # rest)) = map Some pending'"
    using inv(10) pending(1) ns data by simp
  ultimately have "queue_inv q' pcs Ready (tl ns) pending'" by (simp add: queue_inv_def ns)
  moreover have "pop_take h n q = Some (x, q')"
    using nd pending(2) by (simp add: pop_take_def q'_def)
  ultimately show ?thesis using pending(1) by blast
qed

subsection \<open>Runs\<close>

lemma step_inv:
  assumes "mpsc_step s e s'" and "mpsc_inv s pending"
  shows "\<exists>pending'. mpsc_inv s' pending' \<and> pending @ enqueued [e] = dequeued [e] @ pending' \<and> e \<noteq> Fault"
proof -
  obtain ns where inv: "queue_inv (shared s) (prods s) (cons s) ns pending"
    using assms(2) by (auto simp: mpsc_inv_def)
  from assms(1) show ?thesis
  proof cases
    case (alloc t a x)
    then show ?thesis using alloc_inv [OF inv] by (auto simp: mpsc_inv_def)
  next
    case (exchange t a nd prev q)
    then have "queue_inv q ((prods s)(t := Exchanged prev a)) (cons s) (ns @ [a]) (pending @ [nd_data nd])"
      using exchange_inv [OF inv, of t a nd] by simp
    then show ?thesis using exchange by (auto simp: mpsc_inv_def)
  next
    case (link t prev a q)
    then show ?thesis using link_inv [OF inv, of t prev a] by (auto simp: mpsc_inv_def)
  next
    case (link_fault t prev a)
    then show ?thesis using link_inv [OF inv, of t prev a] by auto
  next
    case (load hp nxt)
    have "queue_inv (shared s) (prods s) Ready ns pending" using inv load by simp
    then show ?thesis using load by (cases rule: load_inv) (auto simp: mpsc_inv_def)
  next
    case (load_empty hp)
    then show ?thesis using assms(2) by auto
  next
    case load_fault
    have "queue_inv (shared s) (prods s) Ready ns pending" using inv load_fault by simp
    then show ?thesis using load_fault by (cases rule: load_inv) auto
  next
    case (take_node hp nxt x q)
    have "queue_inv (shared s) (prods s) (Loaded hp nxt) ns pending" using inv take_node by simp
    from take_inv [OF this] show ?thesis using take_node by (auto simp: mpsc_inv_def)
  next
    case (take_fault hp nxt)
    have "queue_inv (shared s) (prods s) (Loaded hp nxt) ns pending" using inv take_fault by simp
    from take_inv [OF this] show ?thesis using take_fault by auto
  qed
qed

lemma events_append: "enqueued (xs @ ys) = enqueued xs @ enqueued ys" "dequeued (xs @ ys) = dequeued xs @ dequeued ys"
  by (induction xs rule: enqueued.induct) auto

lemma init_inv: "mpsc_inv (mpsc_init stub d) []"
  unfolding mpsc_inv_def
  by (rule exI [of _ "[stub]"])
    (auto simp: queue_inv_def chain_ok_def prods_ok_def cons_ok_def one_owner_def waiting_def linking_def
      mpsc_init_def mpsc_new_def nxt_of_def)

lemma run_inv:
  "mpsc_run s0 es s \<Longrightarrow> s0 = mpsc_init stub d \<Longrightarrow>
   \<exists>pending. mpsc_inv s pending \<and> enqueued es = dequeued es @ pending \<and> Fault \<notin> set es"
proof (induction rule: mpsc_run.induct)
  case (start s)
  then show ?case using init_inv by auto
next
  case (snoc s es s1 e s2)
  then obtain pending where p: "mpsc_inv s1 pending" "enqueued es = dequeued es @ pending" "Fault \<notin> set es"
    by blast
  obtain pending' where "mpsc_inv s2 pending'" "pending @ enqueued [e] = dequeued [e] @ pending'" "e \<noteq> Fault"
    using step_inv [OF snoc.hyps(2) p(1)] by blast
  then show ?case using p(2,3) by (auto simp: events_append)
qed

text \<open>
  C4. Any interleaving of producers and the consumer: no access ever touches memory that is
  not allocated, and the values popped are, in order, a prefix of the values in the order
  in which their nodes were swapped into \<^verbatim>\<open>tail_\<close>.
\<close>

theorem mpsc_safe_and_fifo:
  assumes "mpsc_run (mpsc_init stub d) es s"
  shows "Fault \<notin> set es \<and> (\<exists>pending. enqueued es = dequeued es @ pending)"
  using run_inv [OF assms refl] by blast

text \<open>A push whose link is set only after the consumer has looked, then a pop.\<close>

lemma example_run:
  "\<exists>s. mpsc_run (mpsc_init 0 (0 :: nat))
     [Internal, Enqueued 5, FoundEmpty, Internal, Internal, Dequeued 5] s \<and>
     prods s = (\<lambda>_. Idle) \<and> cons s = Ready"
proof -
  let ?n = "\<lambda>x y. \<lparr>nd_data = x, nd_next = y\<rparr> :: nat node"
  let ?pc = "\<lambda>p. (\<lambda>_. Idle)(3 := p)"
  let ?h1 = "[0 \<mapsto> ?n 0 None, 7 \<mapsto> ?n 5 None]"
  let ?h2 = "[0 \<mapsto> ?n 0 (Some 7), 7 \<mapsto> ?n 5 None]"
  let ?s1 = "\<lparr>shared = \<lparr>heap = ?h1, mq_head = 0, mq_tail = 0\<rparr>, prods = ?pc (Allocated 7), cons = Ready\<rparr>"
  let ?s2 = "\<lparr>shared = \<lparr>heap = ?h1, mq_head = 0, mq_tail = 7\<rparr>, prods = ?pc (Exchanged 0 7), cons = Ready\<rparr>"
  let ?s3 = "\<lparr>shared = \<lparr>heap = ?h2, mq_head = 0, mq_tail = 7\<rparr>, prods = ?pc Idle, cons = Ready\<rparr>"
  let ?s4 = "\<lparr>shared = \<lparr>heap = ?h2, mq_head = 0, mq_tail = 7\<rparr>, prods = ?pc Idle, cons = Loaded 0 7\<rparr>"
  let ?s5 = "\<lparr>shared = \<lparr>heap = ?h2(0 := None), mq_head = 7, mq_tail = 7\<rparr>, prods = ?pc Idle, cons = Ready\<rparr>"
  have 1: "mpsc_step (mpsc_init 0 0) Internal ?s1"
    using mpsc_step.alloc [of "mpsc_init 0 0" 3 7 5]
    by (simp add: mpsc_init_def mpsc_new_def push_alloc_def)
  have 2: "mpsc_step ?s1 (Enqueued 5) ?s2"
    using mpsc_step.exchange [of ?s1 3 7 "?n 5 None" 0] by (simp add: push_exchange_def)
  have 3: "mpsc_step ?s2 FoundEmpty ?s2"
    by (rule mpsc_step.load_empty [where hp = 0]) (simp_all add: pop_load_def)
  have 4: "mpsc_step ?s2 Internal ?s3"
    using mpsc_step.link [of ?s2 3 0 7] by (simp add: push_link_def fun_upd_twist)
  have 5: "mpsc_step ?s3 Internal ?s4"
    using mpsc_step.load [of ?s3 0 7] by (simp add: pop_load_def)
  have 6: "mpsc_step ?s4 (Dequeued 5) ?s5"
    using mpsc_step.take_node [of ?s4 0 7 5] by (simp add: pop_take_def)
  have "mpsc_run (mpsc_init 0 0) ([] @ [Internal] @ [Enqueued 5] @ [FoundEmpty] @ [Internal] @ [Internal] @ [Dequeued 5]) ?s5"
    using mpsc_run.snoc [OF mpsc_run.snoc [OF mpsc_run.snoc [OF mpsc_run.snoc [OF mpsc_run.snoc
      [OF mpsc_run.snoc [OF mpsc_run.start 1] 2] 3] 4] 5] 6] by simp
  then show ?thesis by (intro exI [of _ ?s5]) (simp add: fun_eq_iff)
qed

lemma mpsc_safe_and_fifo_witness:
  "\<exists>es s. mpsc_run (mpsc_init 0 (0 :: nat)) es s \<and> dequeued es = [5] \<and> Fault \<notin> set es"
proof -
  obtain s where run: "mpsc_run (mpsc_init 0 (0 :: nat))
      [Internal, Enqueued 5, FoundEmpty, Internal, Internal, Dequeued 5] s"
    using example_run by blast
  show ?thesis using mpsc_safe_and_fifo [OF run] run by (intro exI) (rule conjI, assumption, simp)
qed

text \<open>
  Once every started \<^verbatim>\<open>push\<close> has returned, nothing is lost: a \<^verbatim>\<open>pop\<close> by the consumer returns
  the oldest value not yet popped, and reports an empty queue only when every value has
  been popped.
\<close>

lemma mpsc_quiescent_pop:
  assumes "mpsc_run (mpsc_init stub d) es s" and "prods s = (\<lambda>_. Idle)" and "cons s = Ready"
  shows "\<exists>pending q. enqueued es = dequeued es @ pending \<and>
    mpsc_pop (shared s) = Some (case pending of [] \<Rightarrow> None | x # _ \<Rightarrow> Some x, q)"
proof -
  obtain pending ns where inv: "queue_inv (shared s) (prods s) Ready ns pending"
    and ev: "enqueued es = dequeued es @ pending"
    using run_inv [OF assms(1) refl] assms(3) by (auto simp: mpsc_inv_def)
  have quiet: "linking (prods s) = {}" using assms(2) by (simp add: linking_def)
  from inv show ?thesis
  proof (cases rule: load_inv)
    case (found n)
    obtain x pending' q' where "pending = x # pending'" "pop_take (mq_head (shared s)) n (shared s) = Some (x, q')"
      using take_inv [OF found(2)] by blast
    then show ?thesis using ev found(1) by (intro exI [of _ pending] exI [of _ q']) (simp add: mpsc_pop_def)
  next
    case drained
    then show ?thesis
      using ev quiet by (intro exI [of _ pending] exI [of _ "shared s"]) (simp add: mpsc_pop_def)
  qed
qed

lemma destroy_loop_chain:
  assumes "ns \<noteq> []" and "distinct ns" and "\<forall>a \<in> set ns. h a \<noteq> None"
    and "\<forall>a b nd. (a, b) \<in> pairs ns \<longrightarrow> h a = Some nd \<longrightarrow> nd_next nd = Some b"
    and "\<forall>nd. h (last ns) = Some nd \<longrightarrow> nd_next nd = None"
  shows "destroy_loop (Some (hd ns)) h = Some (\<lambda>a. if a \<in> set ns then None else h a)"
  using assms
proof (induction ns arbitrary: h rule: induct_list012)
  case (2 a)
  then obtain nd where "h a = Some nd" "nd_next nd = None" by auto
  then show ?case by (subst destroy_loop.simps) (simp, subst destroy_loop.simps, simp add: fun_eq_iff)
next
  case (3 a b ns)
  obtain nd where nd: "h a = Some nd" "nd_next nd = Some b" using "3.prems"(3,4) by auto
  let ?h = "h(a := None)"
  have ne: "x \<noteq> a" if "(x, y) \<in> pairs (b # ns)" for x y
    using pairs_mem [OF that] in_set_butlastD "3.prems"(2) by fastforce
  have "destroy_loop (Some (hd (b # ns))) ?h = Some (\<lambda>c. if c \<in> set (b # ns) then None else ?h c)"
  proof (rule "3.IH"(2))
    show "\<forall>c \<in> set (b # ns). ?h c \<noteq> None" using "3.prems"(2,3) by auto
    show "\<forall>x y nd. (x, y) \<in> pairs (b # ns) \<longrightarrow> ?h x = Some nd \<longrightarrow> nd_next nd = Some y"
    proof (intro allI impI)
      fix x y nd'
      assume xy: "(x, y) \<in> pairs (b # ns)" "?h x = Some nd'"
      then have "h x = Some nd'" using ne by auto
      moreover have "(x, y) \<in> pairs (a # b # ns)" using xy(1) by simp
      ultimately show "nd_next nd' = Some y" using "3.prems"(4) by blast
    qed
    have "last (b # ns) \<noteq> a" using "3.prems"(2) last_in_set [of "b # ns"] by auto
    then show "\<forall>nd. ?h (last (b # ns)) = Some nd \<longrightarrow> nd_next nd = None" using "3.prems"(5) by simp
  qed (use "3.prems"(2) in simp_all)
  then show ?case
    using nd by (subst destroy_loop.simps) (auto simp: fun_eq_iff)
qed simp

text \<open>
  C29. The destructor returns and frees every node: after a run whose producers have all
  returned, it follows the links from \<^verbatim>\<open>head_\<close> without touching freed memory and leaves no
  node allocated.
\<close>

theorem mpsc_destructor_frees_all:
  assumes "mpsc_run (mpsc_init stub d) es s" and "prods s = (\<lambda>_. Idle)"
  shows "mpsc_destroy (shared s) = Some (\<lambda>_. None)"
proof -
  obtain pending ns where inv: "queue_inv (shared s) (prods s) (cons s) ns pending"
    using run_inv [OF assms(1) refl] by (auto simp: mpsc_inv_def)
  note q = queue_invD [OF inv] and links = queue_inv_links [OF inv]
  have quiet: "linking (prods s) = {}" "waiting (prods s) = {}"
    using assms(2) by (simp_all add: linking_def waiting_def)
  let ?h = "heap (shared s)"
  have "destroy_loop (Some (hd ns)) ?h = Some (\<lambda>a. if a \<in> set ns then None else ?h a)"
  proof (rule destroy_loop_chain [OF q(1,2)])
    show "\<forall>a \<in> set ns. ?h a \<noteq> None" using q(9) by auto
    show "\<forall>a b nd. (a, b) \<in> pairs ns \<longrightarrow> ?h a = Some nd \<longrightarrow> nd_next nd = Some b"
      using links(2) quiet(1) by (fastforce simp: nxt_of_def)
    show "\<forall>nd. ?h (last ns) = Some nd \<longrightarrow> nd_next nd = None"
      using q(4,5) by (auto simp: nxt_of_def)
  qed
  moreover have "?h a = None" if "a \<notin> set ns" for a using that q(9) quiet(2) by auto
  ultimately show ?thesis using q(3) by (simp add: mpsc_destroy_def fun_eq_iff)
qed

lemma mpsc_destructor_frees_all_witness:
  "\<exists>es s. mpsc_run (mpsc_init 0 (0 :: nat)) es s \<and> es \<noteq> [] \<and> mpsc_destroy (shared s) = Some (\<lambda>_. None)"
proof -
  obtain s where run: "mpsc_run (mpsc_init 0 (0 :: nat))
      [Internal, Enqueued 5, FoundEmpty, Internal, Internal, Dequeued 5] s"
    "prods s = (\<lambda>_. Idle)"
    using example_run by blast
  show ?thesis
    using mpsc_destructor_frees_all [OF run] run(1) by (intro exI) (rule conjI, assumption, simp)
qed

text \<open>A \<^verbatim>\<open>push\<close> and a \<^verbatim>\<open>pop\<close> that are not interrupted are such runs.\<close>

lemma push_is_run:
  assumes "mpsc_run s0 es s" and "prods s t = Idle" and "heap (shared s) a = None"
    and "mpsc_push a x (shared s) = Some q"
  shows "mpsc_run s0 (es @ [Internal, Enqueued x, Internal]) (s\<lparr>shared := q\<rparr>)"
proof -
  let ?q1 = "push_alloc a x (shared s)"
  let ?s1 = "s\<lparr>shared := ?q1, prods := (prods s)(t := Allocated a)\<rparr>"
  let ?s2 = "s\<lparr>shared := snd (push_exchange a ?q1), prods := (prods s)(t := Exchanged (mq_tail ?q1) a)\<rparr>"
  have 1: "mpsc_step s Internal ?s1" by (rule mpsc_step.alloc [OF assms(2,3)])
  have 2: "mpsc_step ?s1 (Enqueued x) ?s2"
    using mpsc_step.exchange [of ?s1 t a "\<lparr>nd_data = x, nd_next = None\<rparr>" "mq_tail ?q1" "snd (push_exchange a ?q1)"]
    by (simp add: push_alloc_def push_exchange_def)
  have idle: "(prods s)(t := Idle) = prods s" using assms(2) by auto
  have "push_link (mq_tail ?q1) a (shared ?s2) = Some q"
    using assms(4) by (simp add: mpsc_push_def push_exchange_def)
  then have 3: "mpsc_step ?s2 Internal (s\<lparr>shared := q\<rparr>)"
    using mpsc_step.link [of ?s2 t "mq_tail ?q1" a q] idle by simp
  show ?thesis
    using mpsc_run.snoc [OF mpsc_run.snoc [OF mpsc_run.snoc [OF assms(1) 1] 2] 3] by simp
qed

lemma pop_is_run:
  assumes "mpsc_run s0 es s" and "cons s = Ready" and "mpsc_pop (shared s) = Some (r, q)"
  shows "mpsc_run s0 (es @ (case r of None \<Rightarrow> [FoundEmpty] | Some x \<Rightarrow> [Internal, Dequeued x])) (s\<lparr>shared := q\<rparr>)"
proof (cases r)
  case None
  then obtain hp where "pop_load (shared s) = Some (hp, None)" "q = shared s"
    using assms(3) by (auto simp: mpsc_pop_def split: option.splits)
  then show ?thesis
    using mpsc_run.snoc [OF assms(1) mpsc_step.load_empty [OF assms(2)]] None by simp
next
  case (Some x)
  then obtain hp n where ld: "pop_load (shared s) = Some (hp, Some n)" "pop_take hp n (shared s) = Some (x, q)"
    using assms(3) by (auto simp: mpsc_pop_def split: option.splits)
  let ?s1 = "s\<lparr>cons := Loaded hp n\<rparr>"
  have "mpsc_step ?s1 (Dequeued x) (?s1\<lparr>shared := q, cons := Ready\<rparr>)"
    using mpsc_step.take_node [of ?s1 hp n x q] ld(2) by simp
  moreover have "?s1\<lparr>shared := q, cons := Ready\<rparr> = s\<lparr>shared := q\<rparr>" using assms(2) by simp
  ultimately show ?thesis
    using mpsc_run.snoc [OF mpsc_run.snoc [OF assms(1) mpsc_step.load [OF assms(2) ld(1)]]] Some by simp
qed

end
