(* ===== verification/Hazard_Pointers.thy ===== *)
theory Hazard_Pointers
  imports Prelude
begin

text \<open>
  \<^verbatim>\<open>HazardPointerDomain<T>\<close> of \<^verbatim>\<open>1_orderbook/include/hazard_pointers.hpp\<close>. A pointer is an address,
  \<open>None\<close> the null pointer; \<open>live\<close> is the set of objects that are allocated, so that deleting
  an object twice, and indexing the slot vector out of its range, are operations without a
  result (\<open>None\<close>). Every operation takes the id of the calling thread that \<^verbatim>\<open>get_thread_id\<close>
  computes; calls are taken one at a time, as the comment on \<^verbatim>\<open>retired_\<close> requires.
\<close>

definition RETIRED_THRESHOLD :: nat where
  "RETIRED_THRESHOLD = 2"

definition MAX_HAZARD_PTRS :: nat where
  "MAX_HAZARD_PTRS = 16"

record hp_domain =
  num_threads :: nat
  hazard_ptrs :: "nat option list"
  retired :: "nat list"
  live :: "nat set"

definition hp_new :: "nat \<Rightarrow> nat set \<Rightarrow> hp_domain" where
  "hp_new n objs = \<lparr>num_threads = n, hazard_ptrs = replicate (n * MAX_HAZARD_PTRS) None,
     retired = [], live = objs\<rparr>"

text \<open>The thread-local \<^verbatim>\<open>id\<close> starts at -1 and keeps the first value computed; the hash of the
  thread is an argument. Without threads the remainder is undefined.\<close>

definition get_thread_id :: "u64 \<Rightarrow> int \<Rightarrow> hp_domain \<Rightarrow> int option" where
  "get_thread_id hash cached d =
     (if cached < 0 then
        (if num_threads d = 0 then None else Some (int (unat hash mod num_threads d)))
      else Some cached)"

text \<open>The first free slot at or after \<open>i\<close>, looking at \<open>k\<close> slots.\<close>

fun free_slot_from :: "nat option list \<Rightarrow> nat \<Rightarrow> nat \<Rightarrow> nat \<Rightarrow> int option" where
  "free_slot_from hps base i 0 = Some (- 1)"
| "free_slot_from hps base i (Suc k) =
     (if base + i < length hps then
        (if hps ! (base + i) = None then Some (int i) else free_slot_from hps base (Suc i) k)
      else None)"

definition get_free_slot :: "nat \<Rightarrow> hp_domain \<Rightarrow> int option" where
  "get_free_slot thread_id d =
     free_slot_from (hazard_ptrs d) (thread_id * MAX_HAZARD_PTRS) 0 MAX_HAZARD_PTRS"

definition acquire :: "nat \<Rightarrow> nat option \<Rightarrow> hp_domain \<Rightarrow> (int \<times> hp_domain) option" where
  "acquire thread_id ptr d = (case get_free_slot thread_id d of None \<Rightarrow> None
     | Some slot \<Rightarrow>
         if slot < 0 then Some (- 1, d)
         else Some (slot, d\<lparr>hazard_ptrs := (hazard_ptrs d)[thread_id * MAX_HAZARD_PTRS + nat slot := ptr]\<rparr>))"

definition release :: "nat \<Rightarrow> int \<Rightarrow> hp_domain \<Rightarrow> hp_domain option" where
  "release thread_id slot d =
     (if slot < 0 then Some d
      else if thread_id * MAX_HAZARD_PTRS + nat slot < length (hazard_ptrs d) then
        Some (d\<lparr>hazard_ptrs := (hazard_ptrs d)[thread_id * MAX_HAZARD_PTRS + nat slot := None]\<rparr>)
      else None)"

text \<open>The scan: which retired pointers some slot holds, then the deletions in order.\<close>

definition is_hazardous :: "nat option list \<Rightarrow> nat \<Rightarrow> bool" where
  "is_hazardous hps p \<longleftrightarrow> list_ex (\<lambda>h. h = Some p) hps"

fun reclaim_loop :: "nat option list \<Rightarrow> nat list \<Rightarrow> nat set \<Rightarrow> (nat list \<times> nat set) option" where
  "reclaim_loop hps [] objs = Some ([], objs)"
| "reclaim_loop hps (p # ps) objs =
     (if is_hazardous hps p then map_option (\<lambda>(kept, o'). (p # kept, o')) (reclaim_loop hps ps objs)
      else if p \<in> objs then reclaim_loop hps ps (objs - {p})
      else None)"

definition scan_and_reclaim :: "hp_domain \<Rightarrow> hp_domain option" where
  "scan_and_reclaim d =
     (if retired d = [] then Some d
      else map_option (\<lambda>(kept, objs). d\<lparr>retired := kept, live := objs\<rparr>)
             (reclaim_loop (hazard_ptrs d) (retired d) (live d)))"

definition retire :: "nat option \<Rightarrow> hp_domain \<Rightarrow> hp_domain option" where
  "retire ptr d = (case ptr of None \<Rightarrow> Some d
     | Some p \<Rightarrow>
         let d1 = d\<lparr>retired := retired d @ [p]\<rparr>
         in if length (retired d1) \<ge> RETIRED_THRESHOLD then scan_and_reclaim d1 else Some d1)"

fun delete_all :: "nat list \<Rightarrow> nat set \<Rightarrow> nat set option" where
  "delete_all [] objs = Some objs"
| "delete_all (p # ps) objs = (if p \<in> objs then delete_all ps (objs - {p}) else None)"

definition hp_destroy :: "hp_domain \<Rightarrow> nat set option" where
  "hp_destroy d = delete_all (retired d) (live d)"

subsection \<open>Calls and the obligations of the caller\<close>

datatype hp_op = Acquire nat "nat option" | Release nat int | Retire "nat option" | Scan

definition hp_step :: "hp_op \<Rightarrow> hp_domain \<Rightarrow> hp_domain option" where
  "hp_step op d = (case op of
     Acquire t p \<Rightarrow> map_option snd (acquire t p d)
   | Release t s \<Rightarrow> release t s d
   | Retire p \<Rightarrow> retire p d
   | Scan \<Rightarrow> scan_and_reclaim d)"

text \<open>Thread ids are in range, a slot is one that \<^verbatim>\<open>acquire\<close> can return, and an object is
  retired while it is allocated, and only once.\<close>

definition legal :: "hp_op \<Rightarrow> hp_domain \<Rightarrow> bool" where
  "legal op d = (case op of
     Acquire t p \<Rightarrow> t < num_threads d
   | Release t s \<Rightarrow> t < num_threads d \<and> s < int MAX_HAZARD_PTRS
   | Retire p \<Rightarrow> (case p of None \<Rightarrow> True | Some q \<Rightarrow> q \<in> live d \<and> q \<notin> set (retired d))
   | Scan \<Rightarrow> True)"

fun hp_run :: "hp_op list \<Rightarrow> hp_domain \<Rightarrow> hp_domain option" where
  "hp_run [] d = Some d"
| "hp_run (op # ops) d = (case hp_step op d of None \<Rightarrow> None | Some d' \<Rightarrow> hp_run ops d')"

fun legal_run :: "hp_op list \<Rightarrow> hp_domain \<Rightarrow> bool" where
  "legal_run [] d \<longleftrightarrow> True"
| "legal_run (op # ops) d \<longleftrightarrow> legal op d \<and>
     (case hp_step op d of None \<Rightarrow> True | Some d' \<Rightarrow> legal_run ops d')"

definition hp_inv :: "hp_domain \<Rightarrow> bool" where
  "hp_inv d \<longleftrightarrow> length (hazard_ptrs d) = num_threads d * MAX_HAZARD_PTRS \<and> distinct (retired d) \<and>
     set (retired d) \<subseteq> live d \<and> length (retired d) \<le> max 1 (length (hazard_ptrs d))"

subsection \<open>The scan\<close>

lemma is_hazardous_iff: "is_hazardous hps p \<longleftrightarrow> Some p \<in> set hps"
  by (auto simp: is_hazardous_def list_ex_iff)

lemma reclaim_loop_result:
  "distinct ps \<Longrightarrow> set ps \<subseteq> objs \<Longrightarrow>
   reclaim_loop hps ps objs =
     Some (filter (is_hazardous hps) ps, objs - {p \<in> set ps. \<not> is_hazardous hps p})"
proof (induction hps ps objs rule: reclaim_loop.induct)
  case (2 hps p ps objs)
  show ?case
  proof (cases "is_hazardous hps p")
    case True
    then show ?thesis using 2 by auto
  next
    case False
    have "set ps \<subseteq> objs - {p}" "p \<in> objs" using "2.prems" by auto
    then show ?thesis using 2 False by auto
  qed
qed simp

lemma kept_bound:
  assumes "distinct ps"
  shows "length (filter (is_hazardous hps) ps) \<le> length hps"
proof -
  have "length (filter (is_hazardous hps) ps) = card (set (filter (is_hazardous hps) ps))"
    using distinct_card [OF distinct_filter [OF assms]] by (simp only:)
  also have "\<dots> = card (Some ` set (filter (is_hazardous hps) ps))" by (simp add: card_image)
  also have "\<dots> \<le> card (set hps)"
    by (rule card_mono) (auto simp: is_hazardous_iff)
  also have "\<dots> \<le> length hps" by (rule card_length)
  finally show ?thesis .
qed

lemma scan_result:
  assumes "distinct (retired d)" and "set (retired d) \<subseteq> live d"
  shows "scan_and_reclaim d = Some (d\<lparr>retired := filter (is_hazardous (hazard_ptrs d)) (retired d),
    live := live d - {p \<in> set (retired d). \<not> is_hazardous (hazard_ptrs d) p}\<rparr>)"
  using reclaim_loop_result [OF assms] by (simp add: scan_and_reclaim_def)

subsection \<open>The slots\<close>

lemma free_slot_from_result:
  assumes "base + i + k \<le> length hps"
  shows "\<exists>r. free_slot_from hps base i k = Some r \<and>
    (if \<exists>j. i \<le> j \<and> j < i + k \<and> hps ! (base + j) = None
     then \<exists>j. r = int j \<and> i \<le> j \<and> j < i + k \<and> hps ! (base + j) = None else r = - 1)"
  using assms
proof (induction k arbitrary: i)
  case (Suc k)
  show ?case
  proof (cases "hps ! (base + i) = None")
    case True
    then have "\<exists>j. i \<le> j \<and> j < i + Suc k \<and> hps ! (base + j) = None" by (intro exI [of _ i]) simp
    then show ?thesis using Suc.prems True by (auto intro!: exI [of _ i])
  next
    case False
    have "(\<exists>j. i \<le> j \<and> j < i + Suc k \<and> hps ! (base + j) = None) \<longleftrightarrow>
        (\<exists>j. Suc i \<le> j \<and> j < Suc i + k \<and> hps ! (base + j) = None)"
      using False by (metis Suc_leD Suc_leI add_Suc add_Suc_right le_neq_implies_less)
    then show ?thesis using Suc.IH [of "Suc i"] Suc.prems False by (auto split: if_splits)
  qed
qed auto

lemma free_slot_from_numeral:
  "free_slot_from hps base i (numeral k) =
     (if base + i < length hps then
        (if hps ! (base + i) = None then Some (int i) else free_slot_from hps base (Suc i) (pred_numeral k))
      else None)"
  by (simp add: numeral_eq_Suc)

lemma acquire_result:
  assumes "length (hazard_ptrs d) = num_threads d * MAX_HAZARD_PTRS" and "t < num_threads d"
  obtains (got) s where "s < MAX_HAZARD_PTRS" "hazard_ptrs d ! (t * MAX_HAZARD_PTRS + s) = None"
      "acquire t p d = Some (int s, d\<lparr>hazard_ptrs := (hazard_ptrs d)[t * MAX_HAZARD_PTRS + s := p]\<rparr>)"
  | (full) "\<forall>s < MAX_HAZARD_PTRS. hazard_ptrs d ! (t * MAX_HAZARD_PTRS + s) \<noteq> None"
      "acquire t p d = Some (- 1, d)"
proof -
  have "(t + 1) * MAX_HAZARD_PTRS \<le> num_threads d * MAX_HAZARD_PTRS"
    using assms(2) by (intro mult_right_mono) simp_all
  then have "t * MAX_HAZARD_PTRS + 0 + MAX_HAZARD_PTRS \<le> length (hazard_ptrs d)"
    using assms(1) by (simp add: add.commute)
  from free_slot_from_result [OF this, simplified le0 add_0 simp_thms] obtain r where
    r: "get_free_slot t d = Some r"
    "if \<exists>j. j < MAX_HAZARD_PTRS \<and> hazard_ptrs d ! (t * MAX_HAZARD_PTRS + j) = None
     then \<exists>j. r = int j \<and> j < MAX_HAZARD_PTRS \<and> hazard_ptrs d ! (t * MAX_HAZARD_PTRS + j) = None
     else r = - 1"
    by (auto simp: get_free_slot_def simp del: free_slot_from.simps)
  show thesis
  proof (cases "\<exists>j. j < MAX_HAZARD_PTRS \<and> hazard_ptrs d ! (t * MAX_HAZARD_PTRS + j) = None")
    case True
    then obtain j where "r = int j" "j < MAX_HAZARD_PTRS" "hazard_ptrs d ! (t * MAX_HAZARD_PTRS + j) = None"
      using r(2) by auto
    then show thesis using got [of j] r(1) by (simp add: acquire_def)
  next
    case False
    then show thesis using full r by (simp add: acquire_def)
  qed
qed

subsection \<open>Every legal call keeps the invariant and the protected objects\<close>

lemma slot_in_range:
  assumes "length (hazard_ptrs d) = num_threads d * MAX_HAZARD_PTRS" and "t < num_threads d"
    and "s < MAX_HAZARD_PTRS"
  shows "t * MAX_HAZARD_PTRS + s < length (hazard_ptrs d)"
proof -
  have "(t + 1) * MAX_HAZARD_PTRS \<le> num_threads d * MAX_HAZARD_PTRS"
    using assms(2) by (intro mult_right_mono) simp_all
  then show ?thesis using assms(1,3) by simp
qed

lemma scan_inv:
  assumes "length (hazard_ptrs d) = num_threads d * MAX_HAZARD_PTRS" and "distinct (retired d)"
    and "set (retired d) \<subseteq> live d"
  shows "\<exists>d'. scan_and_reclaim d = Some d' \<and> hp_inv d' \<and> hazard_ptrs d' = hazard_ptrs d \<and>
    num_threads d' = num_threads d \<and> (\<forall>p. Some p \<in> set (hazard_ptrs d) \<longrightarrow> p \<in> live d \<longrightarrow> p \<in> live d')"
proof -
  have "length (filter (is_hazardous (hazard_ptrs d)) (retired d)) \<le> max 1 (length (hazard_ptrs d))"
    using kept_bound [OF assms(2), of "hazard_ptrs d"] by simp
  then show ?thesis
    using scan_result [OF assms(2,3)] assms by (auto simp: hp_inv_def is_hazardous_iff)
qed

text \<open>The slot a call writes to null, if any.\<close>

primrec releases :: "hp_op \<Rightarrow> nat \<Rightarrow> bool" where
  "releases (Acquire t p) k \<longleftrightarrow> False"
| "releases (Release t s) k \<longleftrightarrow> 0 \<le> s \<and> k = t * MAX_HAZARD_PTRS + nat s"
| "releases (Retire p) k \<longleftrightarrow> False"
| "releases Scan k \<longleftrightarrow> False"

lemma hp_step_inv:
  assumes "hp_inv d" and "legal op d"
  shows "\<exists>d'. hp_step op d = Some d' \<and> hp_inv d' \<and> num_threads d' = num_threads d \<and>
    (\<forall>p. Some p \<in> set (hazard_ptrs d) \<longrightarrow> p \<in> live d \<longrightarrow> p \<in> live d') \<and>
    (\<forall>k < length (hazard_ptrs d). hazard_ptrs d ! k \<noteq> None \<longrightarrow> \<not> releases op k \<longrightarrow>
       hazard_ptrs d' ! k = hazard_ptrs d ! k)"
proof (cases op)
  case (Acquire t p)
  have len: "length (hazard_ptrs d) = num_threads d * MAX_HAZARD_PTRS" "t < num_threads d"
    using assms by (simp_all add: hp_inv_def legal_def Acquire)
  show ?thesis
  proof (cases rule: acquire_result [OF len, of p])
    case (1 s)
    have "t * MAX_HAZARD_PTRS + s < length (hazard_ptrs d)" by (rule slot_in_range [OF len 1(1)])
    then show ?thesis using 1 assms(1) by (auto simp: hp_step_def Acquire hp_inv_def nth_list_update)
  next
    case 2
    then show ?thesis using assms(1) by (simp add: hp_step_def Acquire)
  qed
next
  case (Release t s)
  show ?thesis
  proof (cases "s < 0")
    case True
    then show ?thesis using assms(1) by (simp add: hp_step_def Release release_def)
  next
    case False
    have "t * MAX_HAZARD_PTRS + nat s < length (hazard_ptrs d)"
      using slot_in_range [of d t "nat s"] assms False
      by (simp add: hp_inv_def legal_def Release nat_less_iff)
    then show ?thesis
      using assms(1) False by (auto simp: hp_step_def Release release_def hp_inv_def nth_list_update)
  qed
next
  case (Retire p)
  show ?thesis
  proof (cases p)
    case None
    then show ?thesis using assms(1) by (simp add: hp_step_def Retire retire_def)
  next
    case (Some q)
    let ?d1 = "d\<lparr>retired := retired d @ [q]\<rparr>"
    have d1: "length (hazard_ptrs ?d1) = num_threads ?d1 * MAX_HAZARD_PTRS" "distinct (retired ?d1)"
      "set (retired ?d1) \<subseteq> live ?d1"
      using assms by (simp_all add: hp_inv_def legal_def Retire Some)
    show ?thesis
    proof (cases "RETIRED_THRESHOLD \<le> length (retired ?d1)")
      case True
      then show ?thesis
        using scan_inv [OF d1] by (auto simp: hp_step_def Retire retire_def Some)
    next
      case False
      then have "hp_inv ?d1" using d1 by (simp add: hp_inv_def RETIRED_THRESHOLD_def)
      then show ?thesis using False by (simp add: hp_step_def Retire retire_def Some)
    qed
  qed
next
  case Scan
  then show ?thesis
    using scan_inv [of d] assms(1) by (auto simp: hp_step_def hp_inv_def)
qed

lemma hp_run_inv:
  "hp_inv d \<Longrightarrow> legal_run ops d \<Longrightarrow> \<exists>d'. hp_run ops d = Some d' \<and> hp_inv d' \<and> num_threads d' = num_threads d"
proof (induction ops arbitrary: d)
  case (Cons op ops)
  obtain d1 where "hp_step op d = Some d1" "hp_inv d1" "num_threads d1 = num_threads d"
    using hp_step_inv [OF Cons.prems(1), of op] Cons.prems(2) by auto
  then show ?case using Cons.IH [of d1] Cons.prems(2) by simp
qed simp

lemma hp_inv_new: "hp_inv (hp_new n objs)"
  by (simp add: hp_inv_def hp_new_def)

lemma delete_all_result:
  "distinct ps \<Longrightarrow> set ps \<subseteq> objs \<Longrightarrow> delete_all ps objs = Some (objs - set ps)"
proof (induction ps objs rule: delete_all.induct)
  case (2 p ps objs)
  then have "set ps \<subseteq> objs - {p}" by auto
  then show ?case using 2 by auto
qed simp

subsection \<open>Properties\<close>

text \<open>
  C17. Callers that retire each object once, while it is allocated, and use their own slots,
  never make the domain delete an object twice or leave its slot vector; at most as many
  objects as there are slots (one, if there are none) wait for reclamation; and the
  destructor deletes exactly those.
\<close>

theorem legal_calls_are_safe:
  assumes "legal_run ops (hp_new n objs)"
  shows "\<exists>d. hp_run ops (hp_new n objs) = Some d \<and> set (retired d) \<subseteq> live d \<and> distinct (retired d) \<and>
    length (retired d) \<le> max 1 (n * MAX_HAZARD_PTRS) \<and> hp_destroy d = Some (live d - set (retired d))"
proof -
  obtain d where "hp_run ops (hp_new n objs) = Some d" "hp_inv d" "num_threads d = n"
    using hp_run_inv [OF hp_inv_new assms] by (auto simp: hp_new_def)
  then show ?thesis
    using delete_all_result [of "retired d" "live d"] by (auto simp: hp_inv_def hp_destroy_def)
qed

lemma legal_calls_are_safe_witness:
  "\<exists>d. hp_run [Acquire 0 (Some 7), Retire (Some 7), Retire (Some 8)] (hp_new 1 {7, 8}) = Some d \<and>
    distinct (retired d)"
proof -
  have "legal_run [Acquire 0 (Some 7), Retire (Some 7), Retire (Some 8)] (hp_new 1 {7, 8})"
    by (simp add: legal_def hp_new_def hp_step_def acquire_def get_free_slot_def MAX_HAZARD_PTRS_def
        free_slot_from_numeral retire_def RETIRED_THRESHOLD_def scan_and_reclaim_def is_hazardous_def)
  from legal_calls_are_safe [OF this] show ?thesis by blast
qed

text \<open>
  C16. A hazard pointer protects: an object that a slot holds, and that is allocated, stays
  allocated through any sequence of legal calls that do not release that slot, even when it
  is retired on the way; and the slot keeps holding it.
\<close>

theorem hazard_pointer_protects:
  assumes "hp_inv d" and "legal_run ops d" and "k < length (hazard_ptrs d)"
    and "hazard_ptrs d ! k = Some p" and "p \<in> live d" and "list_all (\<lambda>op. \<not> releases op k) ops"
  shows "\<exists>d'. hp_run ops d = Some d' \<and> p \<in> live d' \<and> hazard_ptrs d' ! k = Some p"
  using assms
proof (induction ops arbitrary: d)
  case (Cons op ops)
  obtain d1 where d1: "hp_step op d = Some d1" "hp_inv d1" "num_threads d1 = num_threads d"
    "\<forall>p. Some p \<in> set (hazard_ptrs d) \<longrightarrow> p \<in> live d \<longrightarrow> p \<in> live d1"
    "\<forall>k < length (hazard_ptrs d). hazard_ptrs d ! k \<noteq> None \<longrightarrow> \<not> releases op k \<longrightarrow>
       hazard_ptrs d1 ! k = hazard_ptrs d ! k"
    using hp_step_inv [OF Cons.prems(1), of op] Cons.prems(2) by auto
  have "hazard_ptrs d1 ! k = Some p" using d1(5) Cons.prems(3,4,6) by auto
  moreover have "p \<in> live d1" using d1(4) Cons.prems(3,4,5) nth_mem by metis
  moreover have "k < length (hazard_ptrs d1)"
    using Cons.prems(1,3) d1(2,3) by (simp add: hp_inv_def)
  ultimately show ?case using Cons.IH [OF d1(2)] Cons.prems(2,6) d1(1) by simp
qed simp

lemma hazard_pointer_protects_witness:
  "\<exists>d d'. acquire 0 (Some 7) (hp_new 1 {7, 8}) = Some (0, d) \<and>
    hp_run [Retire (Some 7), Retire (Some 8)] d = Some d' \<and> 7 \<in> live d'"
proof -
  let ?d = "(hp_new 1 {7, 8})\<lparr>hazard_ptrs := (replicate 16 None)[0 := Some 7]\<rparr>"
  have acq: "acquire 0 (Some 7) (hp_new 1 {7, 8}) = Some (0, ?d)"
    by (simp add: acquire_def get_free_slot_def hp_new_def MAX_HAZARD_PTRS_def free_slot_from_numeral)
  have inv: "hp_inv ?d" by (simp add: hp_inv_def hp_new_def MAX_HAZARD_PTRS_def)
  have "legal_run [Retire (Some 7), Retire (Some 8)] ?d"
    by (simp add: legal_def hp_new_def hp_step_def retire_def RETIRED_THRESHOLD_def scan_and_reclaim_def
        is_hazardous_def)
  from hazard_pointer_protects [OF inv this, of 0 7] acq show ?thesis
    by (auto simp: hp_new_def)
qed

text \<open>
  The id of a thread is cached in one thread-local variable for all domains: a thread that
  took its id in a domain with more threads indexes past the slots of a smaller domain when
  it registers or releases a pointer there.
\<close>

lemma cached_id_leaves_domain:
  assumes "get_thread_id hash (- 1) d1 = Some tid" and "int (num_threads d2) \<le> tid"
    and "hp_inv d2" and "0 \<le> slot"
  shows "get_thread_id hash tid d2 = Some tid \<and> acquire (nat tid) ptr d2 = None \<and>
    release (nat tid) slot d2 = None"
proof -
  have "0 \<le> tid" using assms(1) by (auto simp: get_thread_id_def split: if_splits)
  moreover have "num_threads d2 \<le> nat tid" using assms(2) by linarith
  then have "length (hazard_ptrs d2) \<le> nat tid * MAX_HAZARD_PTRS"
    using assms(3) by (simp add: hp_inv_def)
  ultimately show ?thesis
    using assms(4) by (simp add: get_thread_id_def acquire_def get_free_slot_def release_def
        MAX_HAZARD_PTRS_def free_slot_from_numeral)
qed

text \<open>
  Taking a slot and releasing it restores the domain, and a thread gets no slot exactly
  when all its slots hold a pointer.
\<close>

lemma acquire_release_roundtrip:
  assumes "hp_inv d" and "t < num_threads d"
  shows "\<exists>slot d'. acquire t (Some p) d = Some (slot, d') \<and> release t slot d' = Some d \<and>
    (slot = - 1 \<longleftrightarrow> (\<forall>s < MAX_HAZARD_PTRS. hazard_ptrs d ! (t * MAX_HAZARD_PTRS + s) \<noteq> None))"
proof -
  have len: "length (hazard_ptrs d) = num_threads d * MAX_HAZARD_PTRS"
    using assms(1) by (simp add: hp_inv_def)
  show ?thesis
  proof (cases rule: acquire_result [OF len assms(2), of "Some p"])
    case (1 s)
    have "t * MAX_HAZARD_PTRS + s < length (hazard_ptrs d)"
      by (rule slot_in_range [OF len assms(2) 1(1)])
    moreover have "(hazard_ptrs d)[t * MAX_HAZARD_PTRS + s := None] = hazard_ptrs d"
      using 1(2) by (metis list_update_id)
    ultimately show ?thesis using 1 by (auto simp: release_def)
  next
    case 2
    then show ?thesis by (simp add: release_def)
  qed
qed

end
