(* ===== verification/Tsc_Clock.thy ===== *)
theory Tsc_Clock
  imports Complex_Main Prelude
begin

text \<open>
  \<^verbatim>\<open>TscClock\<close> of \<^verbatim>\<open>1_orderbook/include/tsc_clock.hpp\<close> and \<^verbatim>\<open>1_orderbook/src/tsc_clock.cpp\<close>. The
  readings of the time-stamp counter and of \<^verbatim>\<open>CLOCK_MONOTONIC\<close> are arguments. A \<^verbatim>\<open>double\<close> is a
  real number and every conversion and division is followed by the rounding \<open>rnd\<close>; the
  values that occur are finite. Signed overflow and a conversion to \<^verbatim>\<open>uint64_t\<close> that does not
  fit are undefined, so they have no result.
\<close>

record timespec =
  tv_sec :: int
  tv_nsec :: int

record tsc_clock =
  ticks_per_ns :: real

definition tsc_clock_init :: tsc_clock where
  "tsc_clock_init = \<lparr>ticks_per_ns = 1\<rparr>"

definition ns_between :: "timespec \<Rightarrow> timespec \<Rightarrow> u64 option" where
  "ns_between ts_start ts_end =
     (let sec = tv_sec ts_end - tv_sec ts_start;
          nsec = tv_nsec ts_end - tv_nsec ts_start
      in if i64_ok sec \<and> i64_ok (sec * 1000000000) \<and> i64_ok nsec \<and> i64_ok (sec * 1000000000 + nsec)
         then Some (word_of_int (sec * 1000000000 + nsec)) else None)"

definition calibrate ::
  "(real \<Rightarrow> real) \<Rightarrow> u64 \<Rightarrow> timespec \<Rightarrow> u64 \<Rightarrow> timespec \<Rightarrow> tsc_clock \<Rightarrow> tsc_clock option" where
  "calibrate rnd tsc_start ts_start tsc_end ts_end clk =
     (let tsc_delta = tsc_end - tsc_start
      in case ns_between ts_start ts_end of None \<Rightarrow> None
         | Some ns_delta \<Rightarrow>
             if ns_delta > 0 then
               Some (clk\<lparr>ticks_per_ns := rnd (rnd (real (unat tsc_delta)) / rnd (real (unat ns_delta)))\<rparr>)
             else Some clk)"

definition to_uint64 :: "real \<Rightarrow> u64 option" where
  "to_uint64 x =
     (let i = (if x < 0 then \<lceil>x\<rceil> else \<lfloor>x\<rfloor>)
      in if 0 \<le> i \<and> i < 2 ^ 64 then Some (word_of_int i) else None)"

definition tsc_to_ns :: "(real \<Rightarrow> real) \<Rightarrow> u64 \<Rightarrow> tsc_clock \<Rightarrow> u64 option" where
  "tsc_to_ns rnd tsc_delta clk =
     (if ticks_per_ns clk > 0 then to_uint64 (rnd (rnd (real (unat tsc_delta)) / ticks_per_ns clk))
      else Some 0)"

declare of_nat_unat [simp del]

subsection \<open>Rounding\<close>

text \<open>What IEEE 754 promises of rounding to the nearest double: it is monotone, exact on the
  integers up to \<open>2 ^ 53\<close>, and within half a unit of the last place in the normal range.\<close>

definition ieee_rounding :: "(real \<Rightarrow> real) \<Rightarrow> bool" where
  "ieee_rounding rnd \<longleftrightarrow> mono rnd \<and> (\<forall>n \<le> 2 ^ 53. rnd (real n) = real n) \<and>
     (\<forall>x. 1 / 2 ^ 1022 \<le> x \<longrightarrow> x \<le> 2 ^ 1023 \<longrightarrow> \<bar>rnd x - x\<bar> \<le> x / 2 ^ 53)"

lemma rounding_id: "ieee_rounding (\<lambda>x. x)"
  by (simp add: ieee_rounding_def mono_def order_trans [OF divide_nonneg_nonneg])

lemma rnd_mono: "ieee_rounding rnd \<Longrightarrow> x \<le> y \<Longrightarrow> rnd x \<le> rnd y"
  by (simp add: ieee_rounding_def mono_def)

lemma rnd_nat: "ieee_rounding rnd \<Longrightarrow> n \<le> 2 ^ 53 \<Longrightarrow> rnd (real n) = real n"
  by (simp add: ieee_rounding_def)

lemma rnd_nonneg: "ieee_rounding rnd \<Longrightarrow> 0 \<le> x \<Longrightarrow> 0 \<le> rnd x"
  using rnd_mono [of rnd 0 x] rnd_nat [of rnd 0] by simp

lemma rnd_factor:
  assumes "ieee_rounding rnd" and "1 / 2 ^ 60 \<le> x" and "x \<le> 2 ^ 130"
  obtains e where "rnd x = x * (1 + e)" and "\<bar>e\<bar> \<le> 1 / 2 ^ 53"
proof
  have x: "0 < x" using assms(2) by (rule less_le_trans [rotated]) simp
  have "(1::real) / 2 ^ 1022 \<le> 1 / 2 ^ 60"
    by (rule frac_le [OF _ order_refl _ power_increasing]) simp_all
  then have "1 / 2 ^ 1022 \<le> x" using assms(2) by (rule order_trans)
  moreover have "(2::real) ^ 130 \<le> 2 ^ 1023" by (rule power_increasing) simp_all
  then have "x \<le> 2 ^ 1023" using assms(3) by (rule order_trans [rotated])
  ultimately have "\<bar>rnd x - x\<bar> \<le> x / 2 ^ 53" using assms(1) unfolding ieee_rounding_def by blast
  moreover have "\<bar>rnd x / x - 1\<bar> = \<bar>rnd x - x\<bar> / x" using x by (simp add: diff_divide_distrib abs_div_pos)
  ultimately show "\<bar>rnd x / x - 1\<bar> \<le> 1 / 2 ^ 53" using x by (simp add: divide_simps)
  show "rnd x = x * (1 + (rnd x / x - 1))" using x by simp
qed

subsection \<open>The conversion\<close>

lemma to_uint64_Some:
  assumes "0 \<le> x" and "x < 2 ^ 64"
  shows "\<exists>n. to_uint64 x = Some n \<and> int (unat n) = \<lfloor>x\<rfloor>"
proof -
  have "0 \<le> \<lfloor>x\<rfloor>" "\<lfloor>x\<rfloor> < 2 ^ 64" using assms by (simp_all add: floor_less_iff)
  then show ?thesis using assms(1)
    by (auto simp: to_uint64_def of_nat_unat uint_word_of_int_eq take_bit_int_eq_self)
qed

lemma to_uint64_bound:
  "0 \<le> x \<Longrightarrow> to_uint64 x = Some n \<Longrightarrow> x < 2 ^ 64"
  by (auto simp: to_uint64_def Let_def floor_less_iff split: if_splits)

lemma ns_between_exact:
  assumes "i64_ok (tv_sec e - tv_sec s)" and "i64_ok ((tv_sec e - tv_sec s) * 1000000000)"
    and "i64_ok (tv_nsec e - tv_nsec s)"
    and "int N = (tv_sec e - tv_sec s) * 1000000000 + (tv_nsec e - tv_nsec s)" and "N < 2 ^ 63"
  shows "ns_between s e = Some (word_of_nat N) \<and> unat (word_of_nat N :: u64) = N"
proof -
  have "i64_ok (int N)" using assms(5) by (simp add: i64_ok_def INT64_MIN_def INT64_MAX_def)
  moreover have "unat (word_of_nat N :: u64) = N" using assms(5) by (simp add: unat_of_nat)
  ultimately show ?thesis using assms(1-3)
    unfolding ns_between_def Let_def assms(4) [symmetric] by simp
qed

text \<open>The relative error of dividing by a quotient that was itself rounded.\<close>

lemma two_roundings:
  fixes X e1 e2 :: real
  assumes "0 \<le> X" and "\<bar>e1\<bar> \<le> 1 / 2 ^ 53" and "\<bar>e2\<bar> \<le> 1 / 2 ^ 53"
  shows "\<bar>X / (1 + e1) * (1 + e2) - X\<bar> \<le> X / 2 ^ 51"
proof -
  have pos: "1 / 2 \<le> 1 + e1" using assms(2) by (simp add: abs_le_iff)
  have "X / (1 + e1) * (1 + e2) - X = X * ((e2 - e1) / (1 + e1))"
    using pos by (simp add: field_simps)
  moreover have "\<bar>(e2 - e1) / (1 + e1)\<bar> \<le> 1 / 2 ^ 51"
  proof -
    have "\<bar>e2 - e1\<bar> \<le> 1 / 2 ^ 53 + 1 / 2 ^ 53"
      using abs_triangle_ineq4 [of e2 e1] assms(2,3) by linarith
    also have "\<dots> \<le> (1 + e1) / 2 ^ 51" using divide_right_mono [OF pos, of "2 ^ 51"] by simp
    finally show ?thesis using pos by (simp add: abs_divide divide_simps)
  qed
  ultimately show ?thesis
    using assms(1) mult_left_mono [of "\<bar>(e2 - e1) / (1 + e1)\<bar>" "1 / 2 ^ 51" X]
    by (simp add: abs_mult)
qed

lemma real_le_pow2: "n \<le> 2 ^ k \<Longrightarrow> real n \<le> 2 ^ k"
  using of_nat_le_iff [of n "2 ^ k", where 'a = real] by (simp only: of_nat_power of_nat_numeral)

lemma ratio_bounds:
  assumes "0 < a" and "a \<le> 2 ^ 53" and "0 < b" and "b \<le> 2 ^ 53"
  shows "1 / 2 ^ 60 \<le> real a / real b \<and> real a / real b \<le> 2 ^ 130"
proof -
  have r: "1 \<le> real a" "real a \<le> 2 ^ 53" "1 \<le> real b" "real b \<le> 2 ^ 53"
    using assms(1,3) real_le_pow2 [OF assms(2)] real_le_pow2 [OF assms(4)] by simp_all
  then have "1 / 2 ^ 53 \<le> real a / real b" "real a / real b \<le> 2 ^ 53 / 1"
    by (intro frac_le; simp)+
  moreover have "(1::real) / 2 ^ 60 \<le> 1 / 2 ^ 53" "(2::real) ^ 53 / 1 \<le> 2 ^ 130" by simp_all
  ultimately show ?thesis by (blast intro: order_trans)
qed

lemma quotient_bounds:
  fixes c X :: real
  assumes "1 / 2 \<le> c" and "c \<le> 2" and "1 / 2 ^ 53 \<le> X" and "X \<le> 2 ^ 63"
  shows "1 / 2 ^ 60 \<le> X / c \<and> X / c \<le> 2 ^ 130"
proof -
  have "(1 / 2 ^ 53) / 2 \<le> X / c" "X / c \<le> 2 ^ 63 / (1 / 2)"
    using assms by (intro frac_le; simp)+
  moreover have "(1::real) / 2 ^ 60 \<le> 1 / 2 ^ 53 / 2" "(2::real) ^ 63 / (1 / 2) \<le> 2 ^ 130" by simp_all
  ultimately show ?thesis by (blast intro: order_trans)
qed

lemma one_le_product: "0 < a \<Longrightarrow> 0 < b \<Longrightarrow> 1 \<le> real a * real b"
  using mult_mono [of 1 "real a" 1 "real b"] by simp

lemma calibrated_quotient:
  assumes "ieee_rounding rnd" and "0 < N" and "N \<le> 2 ^ 53" and "0 < t" and "t \<le> 2 ^ 53"
    and "X = real d * real N / real t" and "X \<le> 2 ^ 63" and "k = rnd (real t / real N)"
  shows "0 < k \<and> \<bar>rnd (real d / k) - X\<bar> \<le> X / 2 ^ 51"
proof -
  have pos: "0 < real t" "0 < real N" using assms(2,4) by simp_all
  have tN: "1 / 2 ^ 60 \<le> real t / real N" "real t / real N \<le> 2 ^ 130"
    using ratio_bounds [of t N] assms(2-5) by auto
  obtain e1 where e1: "k = real t / real N * (1 + e1)" "\<bar>e1\<bar> \<le> 1 / 2 ^ 53"
    using rnd_factor [OF assms(1) tN] assms(8) by metis
  have h: "1 / 2 \<le> 1 + e1" "1 + e1 \<le> 2" using e1(2) by (auto simp: abs_le_iff)
  have q: "real d / k = X / (1 + e1)"
    using pos h by (simp add: e1(1) assms(6) field_simps)
  have "\<exists>e2. rnd (X / (1 + e1)) = X / (1 + e1) * (1 + e2) \<and> \<bar>e2\<bar> \<le> 1 / 2 ^ 53"
  proof (cases "d = 0")
    case True
    then show ?thesis using rnd_nat [OF assms(1), of 0] by (intro exI [of _ 0]) (simp add: assms(6))
  next
    case False
    have "1 / 2 ^ 53 \<le> 1 / real t"
      using pos(1) real_le_pow2 [OF assms(5)] by (intro frac_le) simp_all
    also have "\<dots> \<le> X"
      using one_le_product [of d N] False assms(2) pos(1) by (simp add: assms(6) divide_right_mono)
    finally have "1 / 2 ^ 60 \<le> X / (1 + e1) \<and> X / (1 + e1) \<le> 2 ^ 130"
      by (rule quotient_bounds [OF h _ assms(7)])
    then show ?thesis using rnd_factor [OF assms(1)] by metis
  qed
  moreover have "0 \<le> X" by (simp add: assms(6))
  moreover have "0 < k" using pos h by (simp add: e1(1))
  ultimately show ?thesis using two_roundings [OF _ e1(2)] by (auto simp: q)
qed

subsection \<open>Properties\<close>

text \<open>
  Longer tick counts never convert to fewer nanoseconds: whenever the conversion of a
  count is defined, so is that of every smaller one, with a result that is not larger.
\<close>

lemma tsc_to_ns_monotone:
  assumes "ieee_rounding rnd" and "d1 \<le> d2" and "tsc_to_ns rnd d2 clk = Some n2"
  shows "\<exists>n1. tsc_to_ns rnd d1 clk = Some n1 \<and> n1 \<le> n2"
proof (cases "0 < ticks_per_ns clk")
  case True
  let ?q = "\<lambda>d. rnd (rnd (real (unat d)) / ticks_per_ns clk)"
  have nn: "0 \<le> ?q d" for d
    using True by (intro rnd_nonneg [OF assms(1)] divide_nonneg_pos) simp_all
  have "rnd (real (unat d1)) \<le> rnd (real (unat d2))"
    using assms(2) by (intro rnd_mono [OF assms(1)]) (simp add: word_le_nat_alt)
  then have le: "?q d1 \<le> ?q d2"
    using True by (intro rnd_mono [OF assms(1), of "_ / _"] divide_right_mono) simp_all
  have n2: "to_uint64 (?q d2) = Some n2" using assms(3) True by (simp add: tsc_to_ns_def)
  then have lt: "?q d2 < 2 ^ 64" by (rule to_uint64_bound [OF nn])
  then obtain n1 where "to_uint64 (?q d1) = Some n1" "int (unat n1) = \<lfloor>?q d1\<rfloor>"
    using to_uint64_Some [OF nn, of d1] le by auto
  moreover have "int (unat n2) = \<lfloor>?q d2\<rfloor>" using to_uint64_Some [OF nn lt] n2 by simp
  then have "int (unat n1) \<le> int (unat n2)"
    using calculation(2) floor_mono [OF le] by simp
  ultimately show ?thesis using True by (simp add: tsc_to_ns_def word_le_nat_alt)
next
  case False
  then show ?thesis using assms(3) by (simp add: tsc_to_ns_def)
qed

text \<open>
  Before calibration a tick counts as a nanosecond: counts up to \<open>2 ^ 53\<close> convert to
  themselves.
\<close>

lemma uncalibrated_is_identity:
  assumes "ieee_rounding rnd" and "unat d \<le> 2 ^ 53"
  shows "tsc_to_ns rnd d tsc_clock_init = Some d"
proof -
  obtain n where "to_uint64 (real (unat d)) = Some n" "n = d"
    using to_uint64_Some [of "real (unat d)"] assms(2) by (auto simp: word_unat_eq_iff)
  then show ?thesis
    using rnd_nat [OF assms] by (simp add: tsc_to_ns_def tsc_clock_init_def)
qed

text \<open>
  C26. Calibration over \<open>N\<close> nanoseconds and \<open>t\<close> ticks makes the conversion of a count \<open>d\<close> the
  proportional value \<open>d * N / t\<close> up to a relative error of \<open>2 ^ -51\<close> from the two roundings and
  the truncation to a whole nanosecond.
\<close>

theorem calibrated_conversion_error:
  assumes "ieee_rounding rnd"
    and "i64_ok (tv_sec e - tv_sec s)" and "i64_ok ((tv_sec e - tv_sec s) * 1000000000)"
    and "i64_ok (tv_nsec e - tv_nsec s)"
    and "int N = (tv_sec e - tv_sec s) * 1000000000 + (tv_nsec e - tv_nsec s)"
    and "0 < N" and "N \<le> 2 ^ 53" and "t = unat (tsc1 - tsc0)" and "0 < t" and "t \<le> 2 ^ 53"
    and "unat d \<le> 2 ^ 53" and "X = real (unat d) * real N / real t" and "X \<le> 2 ^ 63"
  shows "\<exists>clk' n. calibrate rnd tsc0 s tsc1 e clk = Some clk' \<and> tsc_to_ns rnd d clk' = Some n \<and>
    X - X / 2 ^ 51 - 1 < real (unat n) \<and> real (unat n) \<le> X + X / 2 ^ 51"
proof -
  have "N < 2 ^ 63" using assms(7) by simp
  note ns = ns_between_exact [OF assms(2-5) this]
  define k where "k = rnd (real t / real N)"
  define r where "r = rnd (real (unat d) / k)"
  have kr: "0 < k" "\<bar>r - X\<bar> \<le> X / 2 ^ 51"
    using calibrated_quotient [OF assms(1,6,7,9,10,12,13) k_def] by (simp_all add: r_def)
  have cal: "calibrate rnd tsc0 s tsc1 e clk = Some (clk\<lparr>ticks_per_ns := k\<rparr>)"
    using ns assms(6,7,10) rnd_nat [OF assms(1), of N] rnd_nat [OF assms(1), of t]
    by (simp add: calibrate_def k_def word_less_nat_alt flip: assms(8))
  have conv: "tsc_to_ns rnd d (clk\<lparr>ticks_per_ns := k\<rparr>) = to_uint64 r"
    using kr(1) rnd_nat [OF assms(1,11)] by (simp add: tsc_to_ns_def r_def)
  have up: "r \<le> X + X / 2 ^ 51" "X - X / 2 ^ 51 \<le> r"
    using kr(2) by (simp_all only: abs_le_iff) linarith+
  have "X + X / 2 ^ 51 \<le> 2 ^ 63 + 2 ^ 63 / 2 ^ 51"
    by (intro add_mono divide_right_mono assms(13)) simp
  also have "\<dots> < (2::real) ^ 64" by simp
  finally have "r < 2 ^ 64" using up(1) by (rule le_less_trans [rotated])
  moreover have "0 \<le> r" unfolding r_def using kr(1) by (intro rnd_nonneg [OF assms(1)]) simp
  ultimately obtain n where n: "to_uint64 r = Some n" "int (unat n) = \<lfloor>r\<rfloor>"
    using to_uint64_Some by blast
  then have "real (unat n) \<le> r" "r - 1 < real (unat n)" by linarith+
  with up have "X - X / 2 ^ 51 - 1 < real (unat n) \<and> real (unat n) \<le> X + X / 2 ^ 51" by linarith
  with cal conv [unfolded n(1)] show ?thesis by (intro exI conjI) auto
qed

lemma calibrated_conversion_error_witness:
  "\<exists>clk' n. calibrate (\<lambda>x. x) 1000 \<lparr>tv_sec = 5, tv_nsec = 999999000\<rparr> 7000 \<lparr>tv_sec = 6, tv_nsec = 1000\<rparr>
      tsc_clock_init = Some clk' \<and> tsc_to_ns (\<lambda>x. x) 300 clk' = Some n \<and> 98 < real (unat n) \<and> real (unat n) \<le> 101"
proof -
  have "\<exists>clk' n. calibrate (\<lambda>x. x) 1000 \<lparr>tv_sec = 5, tv_nsec = 999999000\<rparr> 7000 \<lparr>tv_sec = 6, tv_nsec = 1000\<rparr>
      tsc_clock_init = Some clk' \<and> tsc_to_ns (\<lambda>x. x) 300 clk' = Some n \<and>
      100 - 100 / 2 ^ 51 - 1 < real (unat n) \<and> real (unat n) \<le> 100 + 100 / 2 ^ 51"
    by (rule calibrated_conversion_error [OF rounding_id, where N = 2000 and t = 6000])
      (simp_all add: i64_ok_def INT64_MIN_def INT64_MAX_def)
  then show ?thesis by fastforce
qed

end
