(* ===== verification/Xdp_Redirect.thy ===== *)
theory Xdp_Redirect
  imports Prelude "HOL-Library.Monad_Syntax"
begin

text \<open>
  The two XDP programs: \<^verbatim>\<open>2_network/bpf/xdp_fix_redirect.c\<close> (UDP port 9876) and
  \<^verbatim>\<open>2_network/ebpf/redirect.bpf.c\<close> (TCP port 9878). A packet is the list of bytes between
  \<^verbatim>\<open>ctx->data\<close> and \<^verbatim>\<open>ctx->data_end\<close>; a pointer into it is an offset, and a load outside it has
  no result. The programs run on a little-endian machine, so a 16-bit load puts the first
  byte low. The kernel helper \<^verbatim>\<open>bpf_redirect_map\<close> is the argument \<open>redirect\<close>, a function of
  the key and the fallback action.
\<close>

datatype xdp_action = XDP_ABORTED | XDP_DROP | XDP_PASS | XDP_TX | XDP_REDIRECT

type_synonym packet = "u8 list"

subsection \<open>Loads\<close>

definition load8 :: "packet \<Rightarrow> nat \<Rightarrow> u8 option" where
  "load8 pkt off = (if off < length pkt then Some (pkt ! off) else None)"

definition load16 :: "packet \<Rightarrow> nat \<Rightarrow> u16 option" where
  "load16 pkt off = do {
     lo \<leftarrow> load8 pkt off;
     hi \<leftarrow> load8 pkt (off + 1);
     Some (ucast lo OR push_bit 8 (ucast hi)) }"

definition bpf_ntohs :: "u16 \<Rightarrow> u16" where
  "bpf_ntohs w = push_bit 8 w OR drop_bit 8 w"

definition ETH_P_IP :: u16 where "ETH_P_IP = 0x0800"
definition IPPROTO_TCP :: u8 where "IPPROTO_TCP = 6"
definition IPPROTO_UDP :: u8 where "IPPROTO_UDP = 17"

definition ethhdr_size :: nat where "ethhdr_size = 14"
definition iphdr_size :: nat where "iphdr_size = 20"
definition udphdr_size :: nat where "udphdr_size = 8"
definition tcphdr_size :: nat where "tcphdr_size = 20"

lemmas header_defs = ETH_P_IP_def IPPROTO_TCP_def IPPROTO_UDP_def
  ethhdr_size_def iphdr_size_def udphdr_size_def tcphdr_size_def

subsection \<open>xdp_fix_redirect\<close>

definition UDP_FIX_PORT :: u16 where "UDP_FIX_PORT = 9876"

text \<open>The parsers return -1, here the inner \<open>None\<close>, when the header does not fit.\<close>

definition parse_ethernet :: "packet \<Rightarrow> nat \<Rightarrow> u16 option option" where
  "parse_ethernet pkt nh_off =
     (if nh_off + ethhdr_size > length pkt then Some None
      else do { h_proto \<leftarrow> load16 pkt (nh_off + 12); Some (Some h_proto) })"

definition parse_ipv4 :: "packet \<Rightarrow> nat \<Rightarrow> u8 option option" where
  "parse_ipv4 pkt nh_off =
     (if nh_off + iphdr_size > length pkt then Some None
      else do { protocol \<leftarrow> load8 pkt (nh_off + 9); Some (Some protocol) })"

definition parse_udp :: "packet \<Rightarrow> nat \<Rightarrow> u16 option option" where
  "parse_udp pkt nh_off =
     (if nh_off + udphdr_size > length pkt then Some None
      else do { dest \<leftarrow> load16 pkt (nh_off + 2); Some (Some (bpf_ntohs dest)) })"

definition xdp_fix_redirect :: "(u32 \<Rightarrow> xdp_action \<Rightarrow> xdp_action) \<Rightarrow> packet \<Rightarrow> xdp_action option" where
  "xdp_fix_redirect redirect pkt = do {
     r1 \<leftarrow> parse_ethernet pkt 0;
     case r1 of None \<Rightarrow> Some XDP_PASS
     | Some eth_proto \<Rightarrow>
       if eth_proto \<noteq> ETH_P_IP then Some XDP_PASS
       else do {
         r2 \<leftarrow> parse_ipv4 pkt ethhdr_size;
         case r2 of None \<Rightarrow> Some XDP_PASS
         | Some ip_proto \<Rightarrow>
           if ip_proto \<noteq> IPPROTO_UDP then Some XDP_PASS
           else do {
             r3 \<leftarrow> parse_udp pkt (ethhdr_size + iphdr_size);
             case r3 of None \<Rightarrow> Some XDP_PASS
             | Some udp_dport \<Rightarrow>
               if udp_dport = UDP_FIX_PORT then Some (redirect 0 XDP_DROP) else Some XDP_PASS } } }"

subsection \<open>xdp_redirect_fix\<close>

definition TCP_FIX_PORT :: u16 where "TCP_FIX_PORT = 9878"

definition xdp_redirect_fix :: "(u32 \<Rightarrow> xdp_action \<Rightarrow> xdp_action) \<Rightarrow> u32 \<Rightarrow> packet \<Rightarrow> xdp_action option" where
  "xdp_redirect_fix redirect rx_queue_index pkt =
     (if ethhdr_size > length pkt then Some XDP_PASS
      else do {
        h_proto \<leftarrow> load16 pkt 12;
        if bpf_ntohs h_proto \<noteq> ETH_P_IP then Some XDP_PASS
        else if ethhdr_size + iphdr_size > length pkt then Some XDP_PASS
        else do {
          protocol \<leftarrow> load8 pkt (ethhdr_size + 9);
          if protocol \<noteq> IPPROTO_TCP then Some XDP_PASS
          else do {
            version_ihl \<leftarrow> load8 pkt ethhdr_size;
            let tcp = ethhdr_size + unat (version_ihl AND 15) * 4;
            if tcp + tcphdr_size > length pkt then Some XDP_PASS
            else do {
              dest \<leftarrow> load16 pkt (tcp + 2);
              source \<leftarrow> load16 pkt tcp;
              if bpf_ntohs dest \<noteq> TCP_FIX_PORT \<and> bpf_ntohs source \<noteq> TCP_FIX_PORT then Some XDP_PASS
              else Some (redirect rx_queue_index XDP_PASS) } } } })"

subsection \<open>Byte order\<close>

text \<open>A 16-bit field of a header, most significant byte first.\<close>

definition net16 :: "packet \<Rightarrow> nat \<Rightarrow> u16" where
  "net16 pkt off = push_bit 8 (ucast (pkt ! off)) OR ucast (pkt ! (off + 1))"

lemma load8_in_range [simp]: "off < length pkt \<Longrightarrow> load8 pkt off = Some (pkt ! off)"
  by (simp add: load8_def)

lemma load16_in_range:
  "off + 1 < length pkt \<Longrightarrow> load16 pkt off = Some (ucast (pkt ! off) OR push_bit 8 (ucast (pkt ! (off + 1))))"
  by (simp add: load16_def)

lemma ntohs_bytes:
  fixes a b :: u8
  shows "bpf_ntohs (ucast a OR push_bit 8 (ucast b)) = push_bit 8 (ucast a) OR ucast b"
proof (rule bit_word_eqI)
  fix n assume "n < LENGTH(16)"
  then show "bit (bpf_ntohs (ucast a OR push_bit 8 (ucast b))) n = bit (push_bit 8 (ucast a) OR ucast b :: u16) n"
    using bit_imp_le_length [of a n] bit_imp_le_length [of b "8 + n"] bit_imp_le_length [of a "8 + n"]
    by (auto simp: bpf_ntohs_def bit_simps dest: bit_imp_le_length)
qed

lemma load16_ntohs:
  assumes "off + 1 < length pkt"
  obtains w where "load16 pkt off = Some w" and "bpf_ntohs w = net16 pkt off"
  using assms by (auto simp: load16_in_range ntohs_bytes net16_def)

lemma load16_raw:
  assumes "off + 1 < length pkt"
  obtains w where "load16 pkt off = Some w" and "w = bpf_ntohs (net16 pkt off)"
proof -
  have "ucast a OR push_bit 8 (ucast b) = bpf_ntohs (push_bit 8 (ucast a) OR ucast b)" for a b :: u8
    using ntohs_bytes [of b a] by (simp add: or.commute)
  then show thesis using that assms by (simp add: load16_in_range net16_def)
qed

lemma net16_append_left:
  "off + 1 < length xs \<Longrightarrow> net16 (xs @ ys) off = net16 xs off"
  by (simp add: net16_def nth_append)

lemma net16_append_right:
  "net16 (xs @ ys) (length xs + off) = net16 ys off"
  by (simp add: net16_def nth_append)

subsection \<open>What the programs compute\<close>

definition tcp_offset :: "packet \<Rightarrow> nat" where
  "tcp_offset pkt = ethhdr_size + unat (pkt ! ethhdr_size AND 15) * 4"

definition tcp_to_fix :: "packet \<Rightarrow> bool" where
  "tcp_to_fix pkt \<longleftrightarrow> ethhdr_size + iphdr_size \<le> length pkt \<and> net16 pkt 12 = ETH_P_IP \<and>
     pkt ! (ethhdr_size + 9) = IPPROTO_TCP \<and> tcp_offset pkt + tcphdr_size \<le> length pkt \<and>
     (net16 pkt (tcp_offset pkt + 2) = TCP_FIX_PORT \<or> net16 pkt (tcp_offset pkt) = TCP_FIX_PORT)"

definition udp_swapped_type :: "packet \<Rightarrow> bool" where
  "udp_swapped_type pkt \<longleftrightarrow> ethhdr_size + iphdr_size + udphdr_size \<le> length pkt \<and> net16 pkt 12 = 0x0008 \<and>
     pkt ! (ethhdr_size + 9) = IPPROTO_UDP \<and> net16 pkt (ethhdr_size + iphdr_size + 2) = UDP_FIX_PORT"

lemma xdp_redirect_fix_result:
  "xdp_redirect_fix R q pkt = Some (if tcp_to_fix pkt then R q XDP_PASS else XDP_PASS)"
proof (cases "ethhdr_size + iphdr_size \<le> length pkt \<and> net16 pkt 12 = ETH_P_IP")
  case False
  show ?thesis
  proof (cases "ethhdr_size \<le> length pkt")
    case True
    then obtain w where "load16 pkt 12 = Some w" "bpf_ntohs w = net16 pkt 12"
      using load16_ntohs [of 12 pkt] by (auto simp: header_defs)
    then show ?thesis using False True
      by (auto simp: xdp_redirect_fix_def tcp_to_fix_def)
  qed (auto simp: xdp_redirect_fix_def tcp_to_fix_def)
next
  case ip: True
  then obtain w where w: "load16 pkt 12 = Some w" "bpf_ntohs w = net16 pkt 12"
    using load16_ntohs [of 12 pkt] by (auto simp: header_defs)
  have l8: "load8 pkt (ethhdr_size + 9) = Some (pkt ! (ethhdr_size + 9))"
    "load8 pkt ethhdr_size = Some (pkt ! ethhdr_size)"
    using ip by (auto simp: header_defs intro!: load8_in_range)
  have lens: "\<not> ethhdr_size > length pkt" "\<not> ethhdr_size + iphdr_size > length pkt"
    using ip by auto
  show ?thesis
  proof (cases "tcp_offset pkt + tcphdr_size \<le> length pkt")
    case True
    obtain d where "load16 pkt (tcp_offset pkt + 2) = Some d" "bpf_ntohs d = net16 pkt (tcp_offset pkt + 2)"
      using True load16_ntohs [of "tcp_offset pkt + 2" pkt] by (auto simp: tcphdr_size_def)
    moreover obtain s where "load16 pkt (tcp_offset pkt) = Some s" "bpf_ntohs s = net16 pkt (tcp_offset pkt)"
      using True load16_ntohs [of "tcp_offset pkt" pkt] by (auto simp: tcphdr_size_def)
    ultimately show ?thesis using ip w l8 lens True
      unfolding xdp_redirect_fix_def tcp_to_fix_def tcp_offset_def by (auto simp: Let_def)
  next
    case False
    then show ?thesis using ip w l8 lens
      unfolding xdp_redirect_fix_def tcp_to_fix_def tcp_offset_def by (auto simp: Let_def)
  qed
qed

lemma bpf_ntohs_involution: "bpf_ntohs (bpf_ntohs w) = w"
proof (rule bit_word_eqI)
  fix n assume "n < LENGTH(16)"
  then show "bit (bpf_ntohs (bpf_ntohs w)) n = bit w n"
    using bit_imp_le_length [of w "16 + n"] by (auto simp: bpf_ntohs_def bit_simps)
qed

lemma swapped_type: "bpf_ntohs w = ETH_P_IP \<longleftrightarrow> w = 0x0008"
proof -
  have "bpf_ntohs 0x0008 = ETH_P_IP" by (simp add: bpf_ntohs_def ETH_P_IP_def)
  then show ?thesis by (metis bpf_ntohs_involution)
qed

lemma xdp_fix_redirect_result:
  "xdp_fix_redirect R pkt = Some (if udp_swapped_type pkt then R 0 XDP_DROP else XDP_PASS)"
proof (cases "ethhdr_size \<le> length pkt")
  case True
  then obtain w where w: "load16 pkt 12 = Some w" "w = bpf_ntohs (net16 pkt 12)"
    using load16_raw [of 12 pkt] by (auto simp: header_defs)
  have eth: "parse_ethernet pkt 0 = Some (Some (bpf_ntohs (net16 pkt 12)))"
    using True w by (simp add: parse_ethernet_def)
  have ip: "parse_ipv4 pkt ethhdr_size = Some (if ethhdr_size + iphdr_size \<le> length pkt
      then Some (pkt ! (ethhdr_size + 9)) else None)"
    by (auto simp: parse_ipv4_def header_defs)
  have udp: "parse_udp pkt (ethhdr_size + iphdr_size) = Some (if ethhdr_size + iphdr_size + udphdr_size \<le> length pkt
      then Some (net16 pkt (ethhdr_size + iphdr_size + 2)) else None)"
    by (auto simp: parse_udp_def header_defs load16_in_range ntohs_bytes net16_def)
  show ?thesis using True
    by (auto simp: xdp_fix_redirect_def eth ip udp udp_swapped_type_def swapped_type)
next
  case False
  then show ?thesis by (simp add: xdp_fix_redirect_def parse_ethernet_def udp_swapped_type_def)
qed

subsection \<open>Properties\<close>

text \<open>
  C24. Neither program loads a byte outside the packet, whatever its length, header length
  field and contents, and what it returns is XDP_PASS or the answer of the redirect helper.
\<close>

theorem xdp_programs_memory_safe:
  "xdp_redirect_fix R q pkt \<in> {Some XDP_PASS, Some (R q XDP_PASS)} \<and>
   xdp_fix_redirect R pkt \<in> {Some XDP_PASS, Some (R 0 XDP_DROP)}"
  by (simp add: xdp_redirect_fix_result xdp_fix_redirect_result)

text \<open>
  C25. On an Ethernet frame that carries an IPv4 header of any length and a TCP header, the
  TCP program redirects exactly the segments from or to port 9878, by the index of the
  receive queue they arrived on.
\<close>

theorem tcp_filter_on_frames:
  assumes "length macs = 12" and "length ip = 4 * ihl" and "5 \<le> ihl" and "unat (ip ! 0 AND 15) = ihl"
    and "tcphdr_size \<le> length tcp"
  shows "xdp_redirect_fix R q (macs @ [8, 0] @ ip @ tcp) =
    Some (if ip ! 9 = IPPROTO_TCP \<and> (net16 tcp 2 = TCP_FIX_PORT \<or> net16 tcp 0 = TCP_FIX_PORT)
          then R q XDP_PASS else XDP_PASS)"
proof -
  let ?pkt = "macs @ [8, 0] @ ip @ tcp"
  have ty: "net16 ?pkt 12 = ETH_P_IP"
    using net16_append_right [of macs "[8, 0] @ ip @ tcp" 0] assms(1)
    by (simp add: net16_def ETH_P_IP_def)
  have hdr: "?pkt ! (ethhdr_size + k) = ip ! k" if "k < length ip" for k
    using assms(1) that by (simp add: nth_append ethhdr_size_def)
  have off: "tcp_offset ?pkt = 14 + length ip"
    using hdr [of 0] assms(2-4) by (simp add: tcp_offset_def ethhdr_size_def)
  have ports: "net16 ?pkt (14 + length ip + k) = net16 tcp k" for k
    using net16_append_right [of "macs @ [8, 0] @ ip" tcp k] assms(1) by (simp add: add.assoc)
  have "tcp_to_fix ?pkt \<longleftrightarrow> ip ! 9 = IPPROTO_TCP \<and> (net16 tcp 2 = TCP_FIX_PORT \<or> net16 tcp 0 = TCP_FIX_PORT)"
    unfolding tcp_to_fix_def off ty
    using hdr [of 9] ports [of 2] ports [of 0] assms by (auto simp: header_defs)
  then show ?thesis by (simp add: xdp_redirect_fix_result)
qed

lemma tcp_filter_on_frames_witness:
  "xdp_redirect_fix (\<lambda>k a. XDP_REDIRECT) 0
     (replicate 12 0 @ [8, 0] @ ([0x45] @ replicate 8 0 @ [6] @ replicate 10 0) @
      ([0x30, 0x39, 0x26, 0x96] @ replicate 16 0)) = Some XDP_REDIRECT"
  by (subst tcp_filter_on_frames [where ihl = 5])
    (simp_all add: header_defs net16_def TCP_FIX_PORT_def nth_append)

text \<open>
  C32. The UDP program compares the EtherType without converting it from network order: it
  redirects exactly the UDP datagrams to port 9876 of frames whose type is 0x0008, and passes every IPv4
  frame on to the network stack.
\<close>

theorem udp_filter_misses_ipv4:
  "xdp_fix_redirect R pkt = Some (if udp_swapped_type pkt then R 0 XDP_DROP else XDP_PASS) \<and>
   (net16 pkt 12 = ETH_P_IP \<longrightarrow> xdp_fix_redirect R pkt = Some XDP_PASS)"
  by (auto simp: xdp_fix_redirect_result udp_swapped_type_def ETH_P_IP_def)

lemma udp_filter_misses_ipv4_witness:
  "xdp_fix_redirect (\<lambda>k a. XDP_REDIRECT)
     (replicate 12 0 @ [8, 0] @ ([0x45] @ replicate 8 0 @ [17] @ replicate 10 0) @
      ([0x30, 0x39, 0x26, 0x94] @ replicate 4 0)) = Some XDP_PASS"
  by (rule udp_filter_misses_ipv4 [THEN conjunct2, rule_format])
    (simp add: net16_def ETH_P_IP_def nth_append)

end
