(* ===== verification/Umem.thy ===== *)
theory Umem
  imports Prelude
begin

text \<open>
  \<^verbatim>\<open>Umem\<close> of \<^verbatim>\<open>2_network/include/umem.hpp\<close> and \<^verbatim>\<open>2_network/src/umem.cpp\<close>. The address space is
  a map from addresses to bytes, undefined where nothing is mapped, and a store to such an
  address is a fault (\<open>None\<close>). The system call \<^verbatim>\<open>mmap\<close> is an argument that answers with the
  address and the contents of a mapping of the requested length, or fails. Address 0 is the
  null pointer.
\<close>

type_synonym heap = "u64 \<rightharpoonup> u8"
type_synonym mmap_call = "heap \<Rightarrow> u64 \<Rightarrow> (u64 \<times> (u64 \<Rightarrow> u8)) option"

record umem =
  base :: u64
  um_num_frames :: u32
  um_frame_size :: u32

definition total_size :: "umem \<Rightarrow> u64" where
  "total_size u = ucast (um_num_frames u) * ucast (um_frame_size u)"

definition base_addr :: "umem \<Rightarrow> u64" where
  "base_addr u = base u"

definition frame_at_offset :: "umem \<Rightarrow> u64 \<Rightarrow> u64" where
  "frame_at_offset u offset = base u + offset"

text \<open>The effect of a mapping and of its removal on the address space; \<open>a - b < n\<close> says that
  \<open>a\<close> is one of the \<open>n\<close> addresses from \<open>b\<close> on. Both are taken byte by byte, without the rounding to
  pages, and removing a mapping succeeds.\<close>

definition map_range :: "heap \<Rightarrow> u64 \<Rightarrow> u64 \<Rightarrow> (u64 \<Rightarrow> u8) \<Rightarrow> heap" where
  "map_range h b n page = (\<lambda>a. if a - b < n then Some (page a) else h a)"

definition munmap :: "heap \<Rightarrow> u64 \<Rightarrow> u64 \<Rightarrow> heap" where
  "munmap h b n = (\<lambda>a. if a - b < n then None else h a)"

fun memset :: "heap \<Rightarrow> u64 \<Rightarrow> u8 \<Rightarrow> nat \<Rightarrow> heap option" where
  "memset h a v 0 = Some h"
| "memset h a v (Suc n) = (if h a = None then None else memset (h(a \<mapsto> v)) (a + 1) v n)"

definition umem_new :: "mmap_call \<Rightarrow> heap \<Rightarrow> u32 \<Rightarrow> u32 \<Rightarrow> (umem \<times> heap) option" where
  "umem_new mmap h num_frames frame_size =
     (let total = ucast num_frames * ucast frame_size
      in case mmap h total of
           None \<Rightarrow> Some (\<lparr>base = 0, um_num_frames = num_frames, um_frame_size = frame_size\<rparr>, h)
         | Some (b, page) \<Rightarrow>
             map_option (\<lambda>h'. (\<lparr>base = b, um_num_frames = num_frames, um_frame_size = frame_size\<rparr>, h'))
               (memset (map_range h b total page) b 0 (unat total)))"

definition umem_destroy :: "umem \<Rightarrow> heap \<Rightarrow> heap" where
  "umem_destroy u h =
     (if base u \<noteq> 0 then
        let total = ucast (um_num_frames u) * ucast (um_frame_size u) in munmap h (base u) total
      else h)"

text \<open>What \<^verbatim>\<open>mmap\<close> documents of a successful call without an address hint: a range that is not
  in use, does not start at the null page and does not run past the end of the address
  space. A request of length 0 fails.\<close>

definition mmap_fresh :: "mmap_call \<Rightarrow> bool" where
  "mmap_fresh mmap \<longleftrightarrow> (\<forall>h n b page. mmap h n = Some (b, page) \<longrightarrow>
     b \<noteq> 0 \<and> n \<noteq> 0 \<and> unat b + unat n \<le> 2 ^ 64 \<and> (\<forall>a. a - b < n \<longrightarrow> h a = None))"

subsection \<open>Sizes and offsets\<close>

lemma unat_offset:
  fixes b :: u64
  shows "unat b + m < 2 ^ 64 \<Longrightarrow> unat (b + word_of_nat m) = unat b + m"
  by (simp add: unat_word_ariths unat_of_nat)

lemma unat_total:
  "unat (ucast (n :: u32) * ucast (s :: u32) :: u64) = unat n * unat s"
proof -
  have "unat n * unat s < 2 ^ 32 * 2 ^ 32"
    using unat_lt_u32 [of n] unat_lt_u32 [of s] by (intro mult_strict_mono) simp_all
  then show ?thesis by (simp add: unat_word_ariths)
qed

lemma memset_result:
  assumes "\<forall>k < n. h (a + word_of_nat k) \<noteq> None" and "n \<le> 2 ^ 64"
  shows "memset h a v n = Some (\<lambda>x. if unat (x - a) < n then Some v else h x)"
  using assms
proof (induction n arbitrary: h a)
  case 0
  then show ?case by simp
next
  case (Suc n)
  have range: "unat (x - a) < Suc n \<longleftrightarrow> x = a \<or> unat (x - (a + 1)) < n" for x
  proof (cases "x = a")
    case False
    then have "x - a \<noteq> 0" by simp
    then have "unat (x - a) = Suc (unat (x - a - 1))"
      by (metis Suc_pred' unat_gt_0 unat_minus_one)
    then show ?thesis using False by (simp add: diff_diff_eq)
  qed simp
  have mapped: "\<forall>k < n. (h(a \<mapsto> v)) (a + 1 + word_of_nat k) \<noteq> None"
    using Suc.prems(1) [rule_format, of "Suc k" for k] by (simp add: add.assoc)
  have "n \<le> 2 ^ 64" using Suc.prems(2) by simp
  note rest = Suc.IH [OF mapped this]
  have "h a \<noteq> None" using Suc.prems(1) [rule_format, of 0] by simp
  then show ?case unfolding memset.simps rest by (auto simp: range fun_eq_iff)
qed

lemma umem_new_result:
  "umem_new mmap h n s = Some (case mmap h (ucast n * ucast s) of
     None \<Rightarrow> (\<lparr>base = 0, um_num_frames = n, um_frame_size = s\<rparr>, h)
   | Some (b, page) \<Rightarrow> (\<lparr>base = b, um_num_frames = n, um_frame_size = s\<rparr>,
       \<lambda>a. if a - b < ucast n * ucast s then Some 0 else h a))"
proof -
  have "memset (map_range h b t page) b 0 (unat t) =
      Some (\<lambda>a. if a - b < t then Some 0 else h a)" for b t page
  proof -
    have "\<forall>k < unat t. map_range h b t page (b + word_of_nat k) \<noteq> None"
      by (auto simp: map_range_def word_less_nat_alt unat_of_nat intro: le_less_trans [OF mod_less_eq_dividend])
    moreover have "unat t \<le> 2 ^ 64" by (simp add: less_imp_le)
    ultimately show ?thesis
      by (simp add: memset_result map_range_def fun_eq_iff word_less_nat_alt)
  qed
  then show ?thesis by (auto simp: umem_new_def Let_def split: option.split)
qed

lemma umem_new_cases:
  assumes "mmap_fresh mmap"
  obtains (failed) "umem_new mmap h n s = Some (\<lparr>base = 0, um_num_frames = n, um_frame_size = s\<rparr>, h)"
  | (mapped) b h' where "b \<noteq> 0"
      "umem_new mmap h n s = Some (\<lparr>base = b, um_num_frames = n, um_frame_size = s\<rparr>, h')"
      "h' = (\<lambda>a. if a - b < ucast n * ucast s then Some 0 else h a)"
      "\<And>a. a - b < ucast n * ucast s \<Longrightarrow> h a = None"
      "munmap h' b (ucast n * ucast s) = h"
proof (cases "mmap h (ucast n * ucast s)")
  case None
  then show thesis using failed by (simp add: umem_new_result)
next
  case (Some r)
  obtain b page where r: "r = (b, page)" by (cases r)
  have b: "b \<noteq> 0" "\<And>a. a - b < ucast n * ucast s \<Longrightarrow> h a = None"
    using assms Some unfolding mmap_fresh_def r by blast+
  have "munmap (\<lambda>a. if a - b < ucast n * ucast s then Some 0 else h a) b (ucast n * ucast s) = h"
    using b(2) by (auto simp: munmap_def fun_eq_iff)
  then show thesis using mapped [OF b(1) _ refl b(2)] Some r by (simp add: umem_new_result)
qed

subsection \<open>Properties\<close>

text \<open>
  C23. The life of a UMEM: construction never faults; when the mapping succeeds every offset
  below the total size is a byte of the address space that holds 0, the rest of the address
  space is untouched, and destruction gives back exactly what was mapped. When it fails the
  base is null and nothing changes.
\<close>

theorem umem_lifecycle:
  assumes "mmap_fresh mmap"
  shows "\<exists>u h'. umem_new mmap h n s = Some (u, h') \<and> umem_destroy u h' = h \<and>
    unat (total_size u) = unat n * unat s \<and>
    (if base_addr u = 0 then h' = h
     else (\<forall>off < total_size u. h' (frame_at_offset u off) = Some 0) \<and>
          (\<forall>a. h a \<noteq> None \<longrightarrow> h' a = h a))"
proof (cases rule: umem_new_cases [OF assms, of h n s])
  case 1
  then show ?thesis by (simp add: umem_destroy_def total_size_def base_addr_def unat_total)
next
  case (2 b h')
  then show ?thesis
    by (auto simp: umem_destroy_def total_size_def base_addr_def frame_at_offset_def unat_total)
qed

lemma umem_lifecycle_witness:
  "\<exists>u h'. umem_new (\<lambda>h n. if n = 6 \<and> h = (\<lambda>a. None) then Some (4096, \<lambda>a. 7) else None)
      (\<lambda>a. None) 2 3 = Some (u, h') \<and> h' 4100 = Some 0 \<and> umem_destroy u h' = (\<lambda>a. None)"
proof -
  let ?mmap = "\<lambda>h n. if n = 6 \<and> h = (\<lambda>a. None) then Some (4096, \<lambda>a. 7) else None"
  have "mmap_fresh ?mmap" by (auto simp: mmap_fresh_def split: if_splits)
  from umem_lifecycle [OF this, of "\<lambda>a. None" 2 3] obtain u h' where
    u: "umem_new ?mmap (\<lambda>a. None) 2 3 = Some (u, h')" "umem_destroy u h' = (\<lambda>a. None)"
    "if base_addr u = 0 then h' = (\<lambda>a. None) else (\<forall>off < total_size u. h' (frame_at_offset u off) = Some 0)"
    by (auto split: if_splits)
  have "u = \<lparr>base = 4096, um_num_frames = 2, um_frame_size = 3\<rparr>"
    using u(1) by (simp add: umem_new_result)
  with u(3) have "h' 4100 = Some 0"
    by (auto simp: base_addr_def total_size_def frame_at_offset_def dest: spec [of _ 4])
  then show ?thesis using u(1,2) by blast
qed

text \<open>
  The frames partition the region: a byte offset into frame \<open>i\<close> addresses a byte of the
  region, and bytes of different frames, or different bytes of one frame, have different
  addresses.
\<close>

lemma frames_partition_region:
  assumes "unat (base_addr u) + unat (total_size u) \<le> 2 ^ 64"
    and "i < unat (um_num_frames u)" and "x < unat (um_frame_size u)"
    and "j < unat (um_num_frames u)" and "y < unat (um_frame_size u)"
  defines "addr k z \<equiv> unat (frame_at_offset u (word_of_nat (k * unat (um_frame_size u) + z)))"
  shows "unat (base_addr u) \<le> addr i x \<and> addr i x < unat (base_addr u) + unat (total_size u) \<and>
    (addr i x = addr j y \<longleftrightarrow> i = j \<and> x = y)"
proof -
  let ?s = "unat (um_frame_size u)"
  have inside: "k * ?s + z < unat (total_size u)" if "k < unat (um_num_frames u)" "z < ?s" for k z
  proof -
    have "k * ?s + z < Suc k * ?s" using that(2) by simp
    also have "\<dots> \<le> unat (um_num_frames u) * ?s" using that(1) by (intro mult_right_mono) simp_all
    finally show ?thesis by (simp add: total_size_def unat_total)
  qed
  have addr: "addr k z = unat (base u) + (k * ?s + z)" if "k < unat (um_num_frames u)" "z < ?s" for k z
  proof -
    have "unat (base u) + (k * ?s + z) < 2 ^ 64"
      using inside [OF that] assms(1) by (simp add: base_addr_def)
    then show ?thesis unfolding addr_def frame_at_offset_def by (rule unat_offset)
  qed
  have "i * ?s + x = j * ?s + y \<longleftrightarrow> i = j \<and> x = y"
    using assms(3,5) by (metis add.commute div_mult_self3 div_less add_cancel_right_left
        add_left_cancel less_nat_zero_code)
  then show ?thesis
    using inside [OF assms(2,3)] by (simp add: addr assms(2-5) base_addr_def)
qed

end
