(* ===== verification/Xsk_Socket.thy ===== *)
theory Xsk_Socket
  imports Umem Fix_Message
begin

text \<open>
  \<^verbatim>\<open>XskSocket\<close> of \<^verbatim>\<open>2_network/include/xsk_socket.hpp\<close> and \<^verbatim>\<open>2_network/src/xsk_socket.cpp\<close>. The
  argument \<open>have_libbpf\<close> is the build switch. What libbpf, libxdp and the kernel answer is an
  argument of the operation that asks: a handle or a failure, a ring reservation, a batch of
  descriptors. So are the members of \<^verbatim>\<open>Umem\<close> and the three-argument \<^verbatim>\<open>fix::parse\<close> that this file
  calls but the repository does not declare (\<^verbatim>\<open>buffer\<close>, \<^verbatim>\<open>alloc_frame\<close>, \<^verbatim>\<open>get_frame\<close>,
  \<^verbatim>\<open>free_frame\<close>, \<^verbatim>\<open>UMEM_INVALID\<close>). Console output is left out.
\<close>

record xsk_config =
  cfg_interface :: string
  cfg_fix_port :: u16
  cfg_queue_id :: u32
  cfg_num_frames :: u32
  cfg_frame_size :: u32
  cfg_force_zero_copy :: bool

datatype xsk_error =
    Interface_not_found string
  | Failed_to_open_BPF_object string
  | Failed_to_load_BPF_object
  | Failed_to_init_UMEM_config
  | Failed_to_create_UMEM
  | Failed_to_init_XSK_config
  | Failed_to_create_XSK_socket

record xsk_socket =
  config :: xsk_config
  zero_copy :: bool
  pkt_count :: u64
  parse_errors :: u64
  if_index :: u32
  umem_region :: umem
  xsk :: "u64 option"
  xsk_umem :: "u64 option"
  rx_idx :: u32
  fill_idx :: u32
  prog :: "u64 option"

subsection \<open>Construction and destruction\<close>

text \<open>The member \<^verbatim>\<open>umem_\<close> is constructed before the body runs, and destroyed again when the body
  throws: this is the meaning of \<^verbatim>\<open>throw\<close> in the language. The library is built with
  \<^verbatim>\<open>-fno-exceptions\<close> (\<^verbatim>\<open>2_network/CMakeLists.txt\<close>), under which a compiler refuses the \<^verbatim>\<open>throw\<close> or ends
  the process at it; the failing branches here and in \<^verbatim>\<open>load_bpf_program\<close> then never reach a
  caller. \<open>nametoindex\<close> is \<^verbatim>\<open>if_nametoindex\<close>, 0 for an unknown interface; raising the locked
  memory limit has no effect on the state.\<close>

definition xsk_socket_new ::
  "bool \<Rightarrow> (string \<Rightarrow> u32) \<Rightarrow> mmap_call \<Rightarrow> heap \<Rightarrow> xsk_config \<Rightarrow> ((xsk_error + xsk_socket) \<times> heap) option" where
  "xsk_socket_new have_libbpf nametoindex mmap h cfg =
     (case umem_new mmap h (cfg_num_frames cfg) (cfg_frame_size cfg) of None \<Rightarrow> None
      | Some (u, h1) \<Rightarrow>
          let s = \<lparr>config = cfg, zero_copy = False, pkt_count = 0, parse_errors = 0, if_index = 0,
                   umem_region = u, xsk = None, xsk_umem = None, rx_idx = 0, fill_idx = 0, prog = None\<rparr>
          in if have_libbpf then
               (let i = nametoindex (cfg_interface cfg)
                in if i = 0 then Some (Inl (Interface_not_found (cfg_interface cfg)), umem_destroy u h1)
                   else Some (Inr (s\<lparr>if_index := i\<rparr>), h1))
             else Some (Inr s, h1))"

text \<open>Handles taken from and given back to the libraries, in the order of the calls.\<close>

datatype handle_event =
    Open_prog u64 | Create_umem u64 | Create_socket u64
  | Close_socket u64 | Delete_umem u64 | Close_prog u64

definition xsk_socket_destroy :: "bool \<Rightarrow> xsk_socket \<Rightarrow> heap \<Rightarrow> handle_event list \<times> heap" where
  "xsk_socket_destroy have_libbpf s h =
     ((if have_libbpf then
         (case xsk s of None \<Rightarrow> [] | Some x \<Rightarrow> [Close_socket x]) @
         (case xsk_umem s of None \<Rightarrow> [] | Some x \<Rightarrow> [Delete_umem x]) @
         (case prog s of None \<Rightarrow> [] | Some x \<Rightarrow> [Close_prog x])
       else []),
      umem_destroy (umem_region s) h)"

subsection \<open>load_bpf_program\<close>

text \<open>The answers of the libraries. The two create calls write their handle only when they
  succeed, which is the case \<open>Some\<close>; the others return an error code, 0 for success.\<close>

record libbpf =
  object_open :: "string \<Rightarrow> u64 option"
  object_load :: "u64 \<Rightarrow> int"
  umem_config_init :: int
  umem_create :: "u64 \<Rightarrow> u64 \<Rightarrow> u64 option"
  socket_config_init :: int
  socket_create :: "string \<Rightarrow> u32 \<Rightarrow> u64 \<Rightarrow> u64 option"

definition XDP_COPY :: u16 where "XDP_COPY = 2"
definition XDP_ZEROCOPY :: u16 where "XDP_ZEROCOPY = 4"

text \<open>The length passed to \<^verbatim>\<open>xsk_umem__create\<close>: a product of two \<^verbatim>\<open>uint32_t\<close>, widened after it is
  computed.\<close>

definition registered_size :: "xsk_config \<Rightarrow> u64" where
  "registered_size cfg = ucast (cfg_num_frames cfg * cfg_frame_size cfg)"

definition load_bpf_program ::
  "bool \<Rightarrow> libbpf \<Rightarrow> (umem \<Rightarrow> u64) \<Rightarrow> string \<Rightarrow> xsk_socket \<Rightarrow>
   xsk_error option \<times> xsk_socket \<times> handle_event list" where
  "load_bpf_program have_libbpf lib buffer path s =
     (if \<not> have_libbpf then (None, s, [])
      else case object_open lib path of
        None \<Rightarrow> (Some (Failed_to_open_BPF_object path), s\<lparr>prog := None\<rparr>, [])
      | Some p \<Rightarrow>
          let s1 = s\<lparr>prog := Some p\<rparr>
          in if object_load lib p \<noteq> 0 then (Some Failed_to_load_BPF_object, s1, [Open_prog p])
             else if umem_config_init lib \<noteq> 0 then (Some Failed_to_init_UMEM_config, s1, [Open_prog p])
             else (case umem_create lib (buffer (umem_region s)) (registered_size (config s)) of
               None \<Rightarrow> (Some Failed_to_create_UMEM, s1, [Open_prog p])
             | Some um \<Rightarrow>
                 let s2 = s1\<lparr>xsk_umem := Some um\<rparr>
                 in if socket_config_init lib \<noteq> 0 then
                      (Some Failed_to_init_XSK_config, s2, [Open_prog p, Create_umem um])
                    else (case socket_create lib (cfg_interface (config s)) (cfg_queue_id (config s)) um of
                      None \<Rightarrow> (Some Failed_to_create_XSK_socket, s2, [Open_prog p, Create_umem um])
                    | Some x \<Rightarrow>
                        let bind_flags = XDP_COPY
                        in (None, s2\<lparr>xsk := Some x, zero_copy := (bind_flags AND XDP_ZEROCOPY \<noteq> 0)\<rparr>,
                            [Open_prog p, Create_umem um, Create_socket x]))))"

subsection \<open>fill_rx_ring\<close>

text \<open>The fill ring is a function from descriptor indices to frame addresses, the allocator a
  state \<open>'a\<close> with its \<open>alloc\<close>.\<close>

fun fill_loop ::
  "('a \<Rightarrow> u64 \<times> 'a) \<Rightarrow> u64 \<Rightarrow> u32 \<Rightarrow> u32 \<Rightarrow> nat \<Rightarrow> 'a \<Rightarrow> (u32 \<Rightarrow> u64) \<Rightarrow> 'a \<times> (u32 \<Rightarrow> u64)" where
  "fill_loop alloc invalid idx i 0 a ring = (a, ring)"
| "fill_loop alloc invalid idx i (Suc k) a ring =
     (let (frame_addr, a') = alloc a
      in if frame_addr = invalid then (a', ring)
         else fill_loop alloc invalid idx (i + 1) k a' (ring(idx + i := frame_addr)))"

text \<open>\<open>reserve\<close> is the answer of \<^verbatim>\<open>xsk_ring_prod__reserve\<close> to a request for 32 descriptors: their
  number and, when it is not 0, the index of the first. The last component of the result is
  what is submitted, \<open>None\<close> when the function returns early.\<close>

definition fill_rx_ring ::
  "bool \<Rightarrow> ('a \<Rightarrow> u64 \<times> 'a) \<Rightarrow> u64 \<Rightarrow> bool \<Rightarrow> u32 \<times> u32 \<Rightarrow> xsk_socket \<Rightarrow> 'a \<Rightarrow> (u32 \<Rightarrow> u64) \<Rightarrow>
   xsk_socket \<times> 'a \<times> (u32 \<Rightarrow> u64) \<times> u32 option" where
  "fill_rx_ring have_libbpf alloc invalid need_wakeup reserve s a ring =
     (if \<not> have_libbpf then (s, a, ring, None)
      else
        let (n_free, s1) =
              (if need_wakeup then (cfg_num_frames (config s), s)
               else (fst reserve, if fst reserve = 0 then s else s\<lparr>fill_idx := snd reserve\<rparr>))
        in if n_free = 0 then (s1, a, ring, None)
           else let (a', ring') = fill_loop alloc invalid (fill_idx s1) 0 (unat n_free) a ring
                in (s1, a', ring', Some n_free))"

subsection \<open>process_rx_batch\<close>

text \<open>The receive side of an iteration: the descriptors by index, the frame lookup, the bytes at
  an address, the parser, the reading of the clock for each packet and the deallocation.\<close>

record 'a rx_env =
  rx_desc :: "u32 \<Rightarrow> u64 \<times> u32"
  get_frame :: "u64 \<Rightarrow> u64 option"
  frame_bytes :: "u64 \<Rightarrow> u32 \<Rightarrow> u8 list"
  parse3 :: "u8 list \<Rightarrow> fix_message option"
  recv_tsc :: "u32 \<Rightarrow> u64"
  free_frame :: "u64 \<Rightarrow> 'a \<Rightarrow> 'a"

fun rx_loop ::
  "'a rx_env \<Rightarrow> u32 \<Rightarrow> nat \<Rightarrow> xsk_socket \<Rightarrow> 'a \<Rightarrow> xsk_socket \<times> 'a \<times> (fix_message \<times> u64) list" where
  "rx_loop env i 0 s a = (s, a, [])"
| "rx_loop env i (Suc k) s a =
     (let (addr, len) = rx_desc env (rx_idx s + i)
      in case get_frame env addr of
           None \<Rightarrow> rx_loop env (i + 1) k s a
         | Some pkt_data \<Rightarrow>
             (case parse3 env (frame_bytes env pkt_data len) of
                Some msg \<Rightarrow>
                  (let (s', a', calls) =
                         rx_loop env (i + 1) k (s\<lparr>pkt_count := pkt_count s + 1\<rparr>) (free_frame env addr a)
                   in (s', a', (msg, recv_tsc env i) # calls))
              | None \<Rightarrow>
                  rx_loop env (i + 1) k (s\<lparr>parse_errors := parse_errors s + 1\<rparr>) (free_frame env addr a)))"

definition process_rx_batch ::
  "bool \<Rightarrow> 'a rx_env \<Rightarrow> u32 \<Rightarrow> xsk_socket \<Rightarrow> 'a \<Rightarrow> xsk_socket \<times> 'a \<times> (fix_message \<times> u64) list" where
  "process_rx_batch have_libbpf env n_pkts s a =
     (if have_libbpf then rx_loop env 0 (unat n_pkts) s a else (s, a, []))"

definition is_zero_copy :: "xsk_socket \<Rightarrow> bool" where
  "is_zero_copy s = zero_copy s"

definition packets_received :: "xsk_socket \<Rightarrow> u64" where
  "packets_received s = pkt_count s"

subsection \<open>run_rx_loop\<close>

text \<open>One round of the loop: the state of the wakeup flag, the answers of
  \<^verbatim>\<open>xsk_ring_prod__reserve\<close> and \<^verbatim>\<open>xsk_ring_cons__peek\<close>, and the receive side.\<close>

record 'a rx_round =
  need_wakeup :: bool
  reserved :: "u32 \<times> u32"
  peeked :: "int \<times> u32"
  rx_side :: "'a rx_env"

record 'a rx_state =
  sock :: xsk_socket
  pool :: 'a
  fill_slots :: "u32 \<Rightarrow> u64"
  total_packets :: u64
  released :: "u32 list"
  callbacks :: "(fix_message \<times> u64) list"

definition rx_iteration :: "('a \<Rightarrow> u64 \<times> 'a) \<Rightarrow> u64 \<Rightarrow> 'a rx_round \<Rightarrow> 'a rx_state \<Rightarrow> 'a rx_state" where
  "rx_iteration alloc invalid r st =
     (let (s1, a1, slots, _) =
            fill_rx_ring True alloc invalid (need_wakeup r) (reserved r) (sock st) (pool st) (fill_slots st);
          (n_pkts, idx) = peeked r
      in if n_pkts > 0 then
           (let (s2, a2, calls) =
                  process_rx_batch True (rx_side r) (word_of_int n_pkts) (s1\<lparr>rx_idx := idx\<rparr>) a1
            in \<lparr>sock = s2, pool = a2, fill_slots = slots, total_packets = total_packets st + word_of_int n_pkts,
                released = released st @ [word_of_int n_pkts], callbacks = callbacks st @ calls\<rparr>)
         else \<lparr>sock = s1, pool = a1, fill_slots = slots, total_packets = total_packets st,
                released = released st, callbacks = callbacks st\<rparr>)"

text \<open>The loop does not end, so this is its state after the given rounds; without a socket, or
  without the library, it returns at once.\<close>

definition run_rx_loop ::
  "bool \<Rightarrow> ('a \<Rightarrow> u64 \<times> 'a) \<Rightarrow> u64 \<Rightarrow> 'a rx_round list \<Rightarrow> xsk_socket \<Rightarrow> 'a \<Rightarrow> (u32 \<Rightarrow> u64) \<Rightarrow> 'a rx_state" where
  "run_rx_loop have_libbpf alloc invalid rounds s a slots =
     (let st = \<lparr>sock = s, pool = a, fill_slots = slots, total_packets = 0, released = [], callbacks = []\<rparr>
      in if \<not> have_libbpf \<or> xsk s = None then st
         else fold (rx_iteration alloc invalid) rounds st)"

subsection \<open>The receive loop as list functions\<close>

text \<open>The descriptors of a batch whose frame exists, in order: position, address and bytes.\<close>

definition received :: "'a rx_env \<Rightarrow> u32 \<Rightarrow> u32 list \<Rightarrow> (u32 \<times> u64 \<times> u8 list) list" where
  "received env idx is = List.map_filter (\<lambda>i. case rx_desc env (idx + i) of (addr, len) \<Rightarrow>
     map_option (\<lambda>p. (i, addr, frame_bytes env p len)) (get_frame env addr)) is"

definition delivered :: "'a rx_env \<Rightarrow> (u32 \<times> u64 \<times> u8 list) list \<Rightarrow> (fix_message \<times> u64) list" where
  "delivered env items = List.map_filter (\<lambda>(i, addr, bs). map_option (\<lambda>m. (m, recv_tsc env i)) (parse3 env bs)) items"

definition rejected :: "'a rx_env \<Rightarrow> (u32 \<times> u64 \<times> u8 list) list \<Rightarrow> (u32 \<times> u64 \<times> u8 list) list" where
  "rejected env items = filter (\<lambda>(i, addr, bs). parse3 env bs = None) items"

lemma received_simps [simp]:
  "received env idx [] = []"
  "received env idx (i # is) = (case rx_desc env (idx + i) of (addr, len) \<Rightarrow>
     (case get_frame env addr of None \<Rightarrow> received env idx is
      | Some p \<Rightarrow> (i, addr, frame_bytes env p len) # received env idx is))"
  by (simp_all add: received_def map_filter_simps split: prod.split option.split)

lemma delivered_simps [simp]:
  "delivered env [] = []"
  "delivered env ((i, addr, bs) # items) = (case parse3 env bs of None \<Rightarrow> delivered env items
     | Some m \<Rightarrow> (m, recv_tsc env i) # delivered env items)"
  by (simp_all add: delivered_def map_filter_simps split: option.split)

lemma length_delivered: "length (delivered env items) + length (rejected env items) = length items"
  by (induction items) (auto simp: rejected_def split: option.split)

lemma rx_loop_result:
  "rx_loop env (word_of_nat j) k s a =
     (let items = received env (rx_idx s) (map word_of_nat [j..<j + k])
      in (s\<lparr>pkt_count := pkt_count s + word_of_nat (length (delivered env items)),
            parse_errors := parse_errors s + word_of_nat (length (rejected env items))\<rparr>,
          fold (\<lambda>(i, addr, bs). free_frame env addr) items a, delivered env items))"
proof (induction k arbitrary: j s a)
  case 0
  then show ?case by (simp add: Let_def rejected_def)
next
  case (Suc k)
  have upt: "[j..<j + Suc k] = j # [Suc j..<Suc j + k]" by (simp add: upt_rec)
  note IH = Suc.IH [of "Suc j", unfolded of_nat_Suc add.commute [of 1]]
  show ?case
    unfolding upt by (simp add: IH Let_def rejected_def split: prod.split option.split)
qed

lemma process_rx_batch_result:
  "process_rx_batch True env n s a =
     (let items = received env (rx_idx s) (map word_of_nat [0..<unat n])
      in (s\<lparr>pkt_count := pkt_count s + word_of_nat (length (delivered env items)),
            parse_errors := parse_errors s + word_of_nat (length (rejected env items))\<rparr>,
          fold (\<lambda>(i, addr, bs). free_frame env addr) items a, delivered env items))"
  using rx_loop_result [of env 0 "unat n" s a] by (simp add: process_rx_batch_def)

subsection \<open>The fill loop\<close>

text \<open>The frames that the allocator hands out before it first answers \<open>invalid\<close>, at most \<open>k\<close>.\<close>

fun granted :: "('a \<Rightarrow> u64 \<times> 'a) \<Rightarrow> u64 \<Rightarrow> nat \<Rightarrow> 'a \<Rightarrow> u64 list \<times> 'a" where
  "granted alloc invalid 0 a = ([], a)"
| "granted alloc invalid (Suc k) a =
     (let (f, a') = alloc a
      in if f = invalid then ([], a')
         else let (fs, a'') = granted alloc invalid k a' in (f # fs, a''))"

definition write_slots :: "u32 \<Rightarrow> u64 list \<Rightarrow> (u32 \<Rightarrow> u64) \<Rightarrow> u32 \<Rightarrow> u64" where
  "write_slots idx fs ring = (\<lambda>x. if unat (x - idx) < length fs then fs ! unat (x - idx) else ring x)"

lemma length_granted: "length (fst (granted alloc invalid k a)) \<le> k"
proof (induction k arbitrary: a)
  case (Suc k)
  show ?case
    using Suc.IH [of "snd (alloc a)"] by (auto simp: Let_def split: prod.split)
qed simp

lemma write_slots_Cons:
  assumes "length fs < 2 ^ 32"
  shows "write_slots (idx + 1) fs (ring(idx := f)) = write_slots idx (f # fs) ring"
proof
  fix x
  show "write_slots (idx + 1) fs (ring(idx := f)) x = write_slots idx (f # fs) ring x"
  proof (cases "x = idx")
    case True
    have "unat (- 1 :: u32) = 2 ^ 32 - 1" by (simp add: unsigned_minus_1_eq_mask mask_eq_exp_minus_1)
    then show ?thesis using True assms by (simp add: write_slots_def)
  next
    case False
    then have "x - idx \<noteq> 0" by simp
    then have "unat (x - idx) = Suc (unat (x - (idx + 1)))"
      by (metis Suc_pred' diff_diff_eq unat_gt_0 unat_minus_one)
    then show ?thesis using False by (simp add: write_slots_def)
  qed
qed

lemma fill_loop_result:
  "k \<le> 2 ^ 32 \<Longrightarrow> fill_loop alloc invalid idx i k a ring =
     (snd (granted alloc invalid k a), write_slots (idx + i) (fst (granted alloc invalid k a)) ring)"
proof (induction k arbitrary: i a ring)
  case 0
  then show ?case by (simp add: write_slots_def)
next
  case (Suc k)
  obtain f a' where f: "alloc a = (f, a')" by (cases "alloc a")
  obtain fs a'' where fs: "granted alloc invalid k a' = (fs, a'')" by (cases "granted alloc invalid k a'")
  have "length fs < 2 ^ 32" using length_granted [of alloc invalid k a'] Suc.prems fs by simp
  then have "write_slots (idx + (i + 1)) fs (ring(idx + i := f)) = write_slots (idx + i) (f # fs) ring"
    using write_slots_Cons [of fs "idx + i"] by (simp add: add.assoc)
  moreover have "write_slots (idx + i) [] ring = ring" by (simp add: write_slots_def)
  ultimately show ?case using Suc.IH [of "i + 1" a'] Suc.prems by (simp add: f fs)
qed

subsection \<open>Handles\<close>

primrec closing :: "handle_event \<Rightarrow> handle_event" where
  "closing (Open_prog x) = Close_prog x"
| "closing (Create_umem x) = Delete_umem x"
| "closing (Create_socket x) = Close_socket x"
| "closing (Close_socket x) = Close_socket x"
| "closing (Delete_umem x) = Delete_umem x"
| "closing (Close_prog x) = Close_prog x"

definition no_handles :: "xsk_socket \<Rightarrow> bool" where
  "no_handles s \<longleftrightarrow> xsk s = None \<and> xsk_umem s = None \<and> prog s = None"

subsection \<open>A round of the receive loop\<close>

definition round_items :: "'a rx_round \<Rightarrow> (u32 \<times> u64 \<times> u8 list) list" where
  "round_items r = (case peeked r of (n, idx) \<Rightarrow>
     if n > 0 then received (rx_side r) idx (map word_of_nat [0..<unat (word_of_int n :: u32)]) else [])"

definition round_packets :: "'a rx_round \<Rightarrow> u64" where
  "round_packets r = (if fst (peeked r) > 0 then word_of_int (fst (peeked r)) else 0)"

lemma fill_keeps_counters:
  "fill_rx_ring b alloc invalid nw rsv s a ring = (s', rest) \<Longrightarrow>
   pkt_count s' = pkt_count s \<and> parse_errors s' = parse_errors s \<and> xsk s' = xsk s"
  by (auto simp: fill_rx_ring_def Let_def split: if_splits prod.splits)

lemma rx_iteration_effect:
  fixes r :: "'a rx_round" and alloc :: "'a \<Rightarrow> u64 \<times> 'a" and invalid :: u64 and st :: "'a rx_state"
  defines "st' \<equiv> rx_iteration alloc invalid r st"
  shows "callbacks st' = callbacks st @ delivered (rx_side r) (round_items r) \<and>
    total_packets st' = total_packets st + round_packets r \<and>
    pkt_count (sock st') = pkt_count (sock st) + word_of_nat (length (delivered (rx_side r) (round_items r))) \<and>
    parse_errors (sock st') = parse_errors (sock st) + word_of_nat (length (rejected (rx_side r) (round_items r)))"
proof -
  obtain s1 a1 slots sub where fill: "fill_rx_ring True alloc invalid (need_wakeup r) (reserved r) (sock st) (pool st) (fill_slots st) = (s1, a1, slots, sub)"
    by (metis surj_pair)
  from fill_keeps_counters [OF this]
  have "pkt_count s1 = pkt_count (sock st)" "parse_errors s1 = parse_errors (sock st)" by simp_all
  then show ?thesis
    unfolding st'_def rx_iteration_def fill
    by (auto simp: process_rx_batch_result Let_def round_items_def round_packets_def rejected_def split: prod.split)
qed

lemma rx_rounds_effect:
  fixes rounds :: "'a rx_round list" and alloc :: "'a \<Rightarrow> u64 \<times> 'a" and invalid :: u64
  defines "final st \<equiv> fold (rx_iteration alloc invalid) rounds st"
  shows "callbacks (final st) = callbacks st @ concat (map (\<lambda>r. delivered (rx_side r) (round_items r)) rounds) \<and>
    total_packets (final st) = total_packets st + sum_list (map round_packets rounds) \<and>
    pkt_count (sock (final st)) + word_of_nat (length (callbacks st)) =
      pkt_count (sock st) + word_of_nat (length (callbacks (final st))) \<and>
    parse_errors (sock (final st)) =
      parse_errors (sock st) + word_of_nat (\<Sum>r\<leftarrow>rounds. length (rejected (rx_side r) (round_items r)))"
  unfolding final_def
proof (induction rounds arbitrary: st)
  case (Cons r rounds)
  show ?case
    using Cons.IH [of "rx_iteration alloc invalid r st"] rx_iteration_effect [of alloc invalid r st]
    by (simp add: algebra_simps)
qed simp

subsection \<open>Properties\<close>

text \<open>
  C22. Whatever \<^verbatim>\<open>load_bpf_program\<close> of a fresh socket does, on success and on each of its six
  failures, the destructor gives back exactly the handles that were taken, in reverse order;
  the socket exists exactly when there was no error; and copy mode is never left, even when
  the configuration asks for zero copy.
\<close>

theorem handles_released_on_every_path:
  assumes "no_handles s" and "\<not> is_zero_copy s" and "load_bpf_program True lib buffer path s = (err, s', evs)"
  shows "fst (xsk_socket_destroy True s' h) = rev (map closing evs) \<and> (err = None \<longleftrightarrow> xsk s' \<noteq> None) \<and>
    \<not> is_zero_copy s' \<and> umem_region s' = umem_region s"
  using assms
  by (auto simp: load_bpf_program_def no_handles_def xsk_socket_destroy_def Let_def is_zero_copy_def
      XDP_COPY_def XDP_ZEROCOPY_def split: option.splits if_splits)

definition lib_socket_refused :: libbpf where
  "lib_socket_refused = \<lparr>object_open = (\<lambda>p. Some 11), object_load = (\<lambda>p. 0), umem_config_init = 0,
     umem_create = (\<lambda>b n. Some 22), socket_config_init = 0, socket_create = (\<lambda>i q u. None)\<rparr>"

definition socket_example :: xsk_socket where
  "socket_example = \<lparr>config = \<lparr>cfg_interface = ''eth0'', cfg_fix_port = 0, cfg_queue_id = 0,
       cfg_num_frames = 4096, cfg_frame_size = 2048, cfg_force_zero_copy = True\<rparr>,
     zero_copy = False, pkt_count = 0, parse_errors = 0, if_index = 2,
     umem_region = \<lparr>base = 4096, um_num_frames = 4096, um_frame_size = 2048\<rparr>,
     xsk = None, xsk_umem = None, rx_idx = 0, fill_idx = 0, prog = None\<rparr>"

lemma handles_released_on_every_path_witness:
  "\<exists>s'. load_bpf_program True lib_socket_refused base ''x.o'' socket_example =
      (Some Failed_to_create_XSK_socket, s', [Open_prog 11, Create_umem 22]) \<and>
    fst (xsk_socket_destroy True s' (\<lambda>a. None)) = [Delete_umem 22, Close_prog 11]"
proof -
  define s' where "s' = socket_example\<lparr>prog := Some 11, xsk_umem := Some 22\<rparr>"
  have "load_bpf_program True lib_socket_refused base ''x.o'' socket_example =
      (Some Failed_to_create_XSK_socket, s', [Open_prog 11, Create_umem 22])"
    by (simp add: load_bpf_program_def lib_socket_refused_def socket_example_def s'_def)
  from this handles_released_on_every_path [OF _ _ this] show ?thesis
    by (auto simp: no_handles_def is_zero_copy_def socket_example_def)
qed

text \<open>
  A second call of \<^verbatim>\<open>load_bpf_program\<close> overwrites the handles of the first, so the destructor
  gives back only those of the second.
\<close>

lemma second_load_leaks:
  assumes "load_bpf_program True lib buffer path s = (None, s', evs)"
  shows "fst (xsk_socket_destroy True s' h) = rev (map closing evs)"
  using assms
  by (auto simp: load_bpf_program_def xsk_socket_destroy_def Let_def split: option.splits if_splits)

text \<open>
  C31. The constructor allocates the packet memory before it looks the interface up. When
  the lookup fails it throws, and where exceptions unwind the memory is given back;
  otherwise it belongs to the socket and its destructor gives it back. The length later
  registered for it is computed in 32 bits, and is the size of the region exactly when that
  is below \<open>2 ^ 32\<close>.
\<close>

theorem xsk_memory_ownership:
  assumes "mmap_fresh mmap"
  shows "\<exists>r h'. xsk_socket_new True nametoindex mmap h cfg = Some (r, h') \<and>
    (case r of Inl e \<Rightarrow> nametoindex (cfg_interface cfg) = 0 \<and> e = Interface_not_found (cfg_interface cfg) \<and> h' = h
     | Inr s \<Rightarrow> nametoindex (cfg_interface cfg) \<noteq> 0 \<and> xsk_socket_destroy True s h' = ([], h) \<and>
         (registered_size (config s) = total_size (umem_region s) \<longleftrightarrow>
          unat (cfg_num_frames cfg) * unat (cfg_frame_size cfg) < 2 ^ 32))"
proof -
  obtain u h1 where u: "umem_new mmap h (cfg_num_frames cfg) (cfg_frame_size cfg) = Some (u, h1)"
    "umem_destroy u h1 = h"
    and size: "total_size u = ucast (cfg_num_frames cfg) * ucast (cfg_frame_size cfg)"
    by (cases rule: umem_new_cases [OF assms, of h "cfg_num_frames cfg" "cfg_frame_size cfg"])
      (auto simp: umem_destroy_def total_size_def)
  have "registered_size cfg = total_size u \<longleftrightarrow>
      unat (cfg_num_frames cfg) * unat (cfg_frame_size cfg) < 2 ^ 32"
  proof -
    have "registered_size cfg = total_size u \<longleftrightarrow> unat (registered_size cfg) = unat (total_size u)"
      by (simp only: word_unat_eq_iff)
    also have "unat (registered_size cfg) = unat (cfg_num_frames cfg) * unat (cfg_frame_size cfg) mod 2 ^ 32"
      by (simp add: registered_size_def unat_word_ariths)
    also have "unat (total_size u) = unat (cfg_num_frames cfg) * unat (cfg_frame_size cfg)"
      by (simp only: size unat_total)
    also have "n mod 2 ^ 32 = n \<longleftrightarrow> n < 2 ^ 32" for n :: nat
      by (metis mod_less mod_less_divisor zero_less_numeral zero_less_power)
    finally show ?thesis .
  qed
  then show ?thesis using u
    by (auto simp: xsk_socket_new_def Let_def xsk_socket_destroy_def)
qed

lemma xsk_memory_ownership_witness:
  "\<exists>mmap cfg. (\<exists>u h1. umem_new mmap (\<lambda>a. None) (cfg_num_frames cfg) (cfg_frame_size cfg) = Some (u, h1) \<and> h1 4096 = Some 0) \<and>
    xsk_socket_new True (\<lambda>n. 0) mmap (\<lambda>a. None) cfg = Some (Inl (Interface_not_found ''eth0''), \<lambda>a. None) \<and>
    (\<exists>s h'. xsk_socket_new True (\<lambda>n. 2) mmap (\<lambda>a. None) cfg = Some (Inr s, h') \<and> h' 4096 = Some 0 \<and>
      xsk_socket_destroy True s h' = ([], \<lambda>a. None) \<and> registered_size (config s) \<noteq> total_size (umem_region s))"
proof -
  let ?cfg = "\<lparr>cfg_interface = ''eth0'', cfg_fix_port = 0, cfg_queue_id = 0, cfg_num_frames = 0x200000,
       cfg_frame_size = 2048, cfg_force_zero_copy = False\<rparr> :: xsk_config"
  let ?mmap = "\<lambda>h n. if n = 0x100000000 \<and> h = (\<lambda>a. None) then Some (4096, \<lambda>a. 7) else None"
  have fresh: "mmap_fresh ?mmap" by (auto simp: mmap_fresh_def split: if_splits)
  have u: "\<exists>u h1. umem_new ?mmap (\<lambda>a. None) (cfg_num_frames ?cfg) (cfg_frame_size ?cfg) = Some (u, h1) \<and> h1 4096 = Some 0"
    by (simp add: umem_new_result)
  have lost: "xsk_socket_new True (\<lambda>n. 0) ?mmap (\<lambda>a. None) ?cfg = Some (Inl (Interface_not_found ''eth0''), \<lambda>a. None)"
  proof -
    obtain r h' where "xsk_socket_new True (\<lambda>n. 0) ?mmap (\<lambda>a. None) ?cfg = Some (r, h')"
      "case r of Inl e \<Rightarrow> e = Interface_not_found ''eth0'' \<and> h' = (\<lambda>a. None) | Inr s \<Rightarrow> False"
      using xsk_memory_ownership [OF fresh, of "\<lambda>n. 0" "\<lambda>a. None" ?cfg]
      by (elim exE conjE) (auto split: sum.splits simp del: not_None_eq)
    then show ?thesis by (cases r) auto
  qed
  obtain r h' where r: "xsk_socket_new True (\<lambda>n. 2) ?mmap (\<lambda>a. None) ?cfg = Some (r, h')"
    "case r of Inl e \<Rightarrow> False
     | Inr s \<Rightarrow> xsk_socket_destroy True s h' = ([], \<lambda>a. None) \<and> registered_size (config s) \<noteq> total_size (umem_region s)"
    using xsk_memory_ownership [OF fresh, of "\<lambda>n. 2" "\<lambda>a. None" ?cfg]
    by (elim exE conjE) (auto split: sum.splits simp del: not_None_eq)
  have "h' 4096 = Some 0"
    using r(1) by (auto simp: xsk_socket_new_def umem_new_result Let_def)
  then have "\<exists>s h'. xsk_socket_new True (\<lambda>n. 2) ?mmap (\<lambda>a. None) ?cfg = Some (Inr s, h') \<and> h' 4096 = Some 0 \<and>
      xsk_socket_destroy True s h' = ([], \<lambda>a. None) \<and> registered_size (config s) \<noteq> total_size (umem_region s)"
    using r by (cases r) auto
  with u lost show ?thesis by blast
qed

text \<open>
  C30. \<^verbatim>\<open>fill_rx_ring\<close> writes the frames the allocator grants, in order, to the slots from the fill
  index on and leaves every other slot as it was, but submits the whole request: when the
  allocator runs dry the remaining slots are handed to the kernel with the addresses they
  held before. When the ring asks for a wakeup the request is the number of frames of the
  configuration and the index is the old one, since nothing was reserved.
\<close>

theorem fill_rx_ring_effect:
  assumes "n = (if nw then cfg_num_frames (config s) else fst rsv)" and "n \<noteq> 0"
    and "idx = (if nw then fill_idx s else snd rsv)"
  shows "fill_rx_ring True alloc invalid nw rsv s a ring =
    (s\<lparr>fill_idx := idx\<rparr>, snd (granted alloc invalid (unat n) a),
     write_slots idx (fst (granted alloc invalid (unat n) a)) ring, Some n)"
proof -
  have "unat n \<le> 2 ^ 32" by (simp add: less_imp_le)
  then show ?thesis
    using assms by (cases nw) (simp_all add: fill_rx_ring_def fill_loop_result)
qed

lemma fill_rx_ring_effect_witness:
  "fill_rx_ring True (\<lambda>fs. case fs of [] \<Rightarrow> (99, []) | f # fs' \<Rightarrow> (f, fs')) 99 False (32, 7)
     socket_example [2048] (\<lambda>x. 5) =
   (socket_example\<lparr>fill_idx := 7\<rparr>, [], (\<lambda>x. if unat (x - 7) < 1 then [2048] ! unat (x - 7) else 5), Some 32)"
proof -
  have "granted (\<lambda>fs. case fs of [] \<Rightarrow> (99, []) | f # fs' \<Rightarrow> (f, fs')) 99 (unat (32 :: u32)) [2048] = ([2048], [])"
    by code_simp
  then show ?thesis
    by (subst fill_rx_ring_effect [where n = 32 and idx = 7]) (simp_all add: write_slots_def)
qed

text \<open>
  C21. The receive loop accounts for every packet: after any rounds the callback has been
  called exactly for the frames of the batches that parse, in order of arrival; the packet
  counter has grown by the number of these calls and the error counter by the number of
  frames that do not parse, both modulo \<open>2 ^ 64\<close>; and the loop's total is the sum of the batch
  sizes.
\<close>

theorem rx_loop_accounting:
  assumes "xsk s = Some x" and "st = run_rx_loop True alloc invalid rounds s a slots"
  shows "callbacks st = concat (map (\<lambda>r. delivered (rx_side r) (round_items r)) rounds) \<and>
    pkt_count (sock st) = pkt_count s + word_of_nat (length (callbacks st)) \<and>
    parse_errors (sock st) =
      parse_errors s + word_of_nat (\<Sum>r\<leftarrow>rounds. length (rejected (rx_side r) (round_items r))) \<and>
    total_packets st = sum_list (map round_packets rounds)"
proof -
  let ?st0 = "\<lparr>sock = s, pool = a, fill_slots = slots, total_packets = 0, released = [], callbacks = []\<rparr>"
  have "st = fold (rx_iteration alloc invalid) rounds ?st0" using assms by (simp add: run_rx_loop_def)
  then show ?thesis using rx_rounds_effect [of alloc invalid rounds ?st0] by simp
qed

lemma rx_loop_accounting_witness:
  "pkt_count (sock (run_rx_loop True (\<lambda>u. (0, u)) 0
     [\<lparr>need_wakeup = False, reserved = (0, 0), peeked = (2, 5),
       rx_side = \<lparr>rx_desc = (\<lambda>i. (ucast i, 5)), get_frame = Some,
         frame_bytes = (\<lambda>p n. if p = 5 then [51, 53, 61, 68, 1] else []),
         parse3 = (\<lambda>bs. if bs = [] then None else Some fix_message_default),
         recv_tsc = (\<lambda>i. 0), free_frame = (\<lambda>f u. u)\<rparr>\<rparr>]
     (socket_example\<lparr>xsk := Some 1\<rparr>) () (\<lambda>i. 0))) = 1"
  using rx_loop_accounting [of "socket_example\<lparr>xsk := Some 1\<rparr>" 1, OF _ refl, of "\<lambda>u. (0, u)" 0
      "[\<lparr>need_wakeup = False, reserved = (0, 0), peeked = (2, 5),
         rx_side = \<lparr>rx_desc = (\<lambda>i. (ucast i, 5)), get_frame = Some,
           frame_bytes = (\<lambda>p n. if p = 5 then [51, 53, 61, 68, 1] else []),
           parse3 = (\<lambda>bs. if bs = [] then None else Some fix_message_default),
           recv_tsc = (\<lambda>i. 0), free_frame = (\<lambda>f u. u)\<rparr>\<rparr>]" "()" "\<lambda>i. 0"]
  by (simp add: round_items_def socket_example_def upt_rec)

end
