(* ===== verification/Book_Ladders.thy ===== *)
theory Book_Ladders
  imports Book_Runs
begin

text \<open>
  Books in the shape the benchmark programs build: levels at regular prices, best price
  first, with a quantity per level. How such a book absorbs resting orders and how an
  aggressive order eats its best levels, on the abstract book.
\<close>

subsection \<open>Sweeps of whole levels\<close>

lemma sweep_whole_levels:
  assumes "list_all (\<lambda>(p, n). ok p \<and> 0 < n \<and> n < 2 ^ 32) xs"
    and "\<not> (\<exists>p n zs. ys = (p, n) # zs \<and> ok p) \<or> q = total_qty xs" and "total_qty xs \<le> q"
  shows "sweep ok q (xs @ ys) = Some (xs, q - total_qty xs, ys)"
  using assms
proof (induction xs arbitrary: q)
  case Nil
  then show ?case by (cases ys) auto
next
  case (Cons x xs)
  obtain p n where x: "x = (p, n)" by (cases x)
  have n: "ok p" "0 < n" "n < 2 ^ 32" "n \<le> q" using Cons.prems by (auto simp: x)
  have IH: "sweep ok (q - n) (xs @ ys) = Some (xs, q - n - total_qty xs, ys)"
    using Cons.prems by (intro Cons.IH) (auto simp: x)
  show ?case
  proof (cases "q = n")
    case True
    then have "xs = []"
      using Cons.prems(1,3) by (cases xs) (auto simp: x)
    then show ?thesis using n True by (simp add: x)
  next
    case False
    then have "\<not> q \<le> n mod 2 ^ 32" using n by simp
    moreover have "q \<noteq> 0" "\<not> (q = 0 \<or> \<not> ok p)" using n by auto
    ultimately show ?thesis using n IH
      by (simp only: x append_Cons sweep.simps if_False if_True option.map prod.case) simp
  qed
qed

lemma sweep_none:
  "\<not> (\<exists>p n zs. ys = (p, n) # zs \<and> ok p) \<Longrightarrow> sweep ok q ys = Some ([], q, ys)"
  using sweep_whole_levels [of ok "[]" ys q] by simp

lemma spec_add_rests:
  assumes "\<not> (\<exists>x n zs. bk (opposite sd) = (x, n) # zs \<and> within_limit sd p x)" and "0 < q"
  shows "spec_add sd p q bk = Some ([], bk(sd := rest_level sd p q (bk sd)))"
  using assms(2) by (simp add: spec_add_def sweep_none [OF assms(1)] fun_upd_idem_iff)

lemma spec_add_eats:
  assumes "bk (opposite sd) = xs @ ys" and "list_all (\<lambda>(x, n). within_limit sd p x \<and> 0 < n \<and> n < 2 ^ 32) xs"
    and "q = total_qty xs"
  shows "spec_add sd p q bk = Some (xs, bk(opposite sd := ys))"
proof -
  have "sweep (within_limit sd p) q (bk (opposite sd)) = Some (xs, 0, ys)"
    using sweep_whole_levels [OF assms(2), of ys q] by (simp only: assms(1,3)) simp
  then show ?thesis by (cases sd) (auto simp: spec_add_def fun_eq_iff simp del: side_simps(5,6))
qed

lemma spec_add_eats_all:
  assumes "bk (opposite sd) = xs" and "list_all (\<lambda>(x, n). within_limit sd p x \<and> 0 < n \<and> n < 2 ^ 32) xs"
    and "total_qty xs < q"
  shows "spec_add sd p q bk = Some (xs, bk(opposite sd := [], sd := rest_level sd p (q - total_qty xs) (bk sd)))"
proof -
  have "sweep (within_limit sd p) q (bk (opposite sd)) = Some (xs, q - total_qty xs, [])"
    using sweep_whole_levels [OF assms(2), of "[]" q] assms(3) by (simp only: assms(1)) simp
  then show ?thesis using assms(3) by (auto simp: spec_add_def simp del: side_simps(5,6))
qed

lemma spec_run_append:
  "spec_run (xs @ ys) bk = (case spec_run xs bk of None \<Rightarrow> None
     | Some (fs, bk') \<Rightarrow> map_option (\<lambda>(gs, bk''). (fs @ gs, bk'')) (spec_run ys bk'))"
proof (induction xs bk rule: spec_run.induct)
  case (3 sd p q t ops bk)
  show ?case
  proof (cases "spec_add sd p (unat q) bk")
    case (Some r)
    obtain fs bk' where r: "r = (fs, bk')" by (cases r)
    show ?thesis using "3.IH" [OF Some r [symmetric]] Some r
      by (auto simp: option.map_comp comp_def case_prod_unfold split: option.split)
  qed simp
qed (auto simp: option.map_id split: prod.split option.split)

lemma spec_run_repeat:
  assumes "\<And>k. k < n \<Longrightarrow> spec_run ops (bk k) = Some (fs k, bk (Suc k))"
  shows "spec_run (concat (replicate n ops)) (bk 0) = Some (concat (map fs [0..<n]), bk n)"
  using assms
proof (induction n)
  case (Suc n)
  have "concat (replicate (Suc n) ops) = concat (replicate n ops) @ ops"
    by (simp flip: replicate_append_same)
  then show ?case using Suc.IH Suc.prems [of n] Suc.prems by (simp add: spec_run_append)
qed simp

subsection \<open>Ladders\<close>

text \<open>Prices in the order in which an incoming order meets them on side \<open>sd\<close>.\<close>

definition best_first :: "side \<Rightarrow> (nat \<Rightarrow> int) \<Rightarrow> bool" where
  "best_first sd pr \<longleftrightarrow> (\<forall>i j. within_limit sd (pr i) (pr j) \<longleftrightarrow> i \<le> j)"

definition levels :: "(nat \<Rightarrow> int) \<Rightarrow> (nat \<Rightarrow> nat) \<Rightarrow> nat list \<Rightarrow> (int \<times> nat) list" where
  "levels pr f is = map (\<lambda>i. (pr i, f i)) (filter (\<lambda>i. 0 < f i) is)"

lemma levels_simps [simp]:
  "levels pr f [] = []"
  "levels pr f (i # is) = (if 0 < f i then (pr i, f i) # levels pr f is else levels pr f is)"
  by (simp_all add: levels_def)

lemma levels_append: "levels pr f (is @ js) = levels pr f is @ levels pr f js"
  by (simp add: levels_def)

lemma levels_cong: "(\<And>i. i \<in> set is \<Longrightarrow> f i = g i) \<Longrightarrow> levels pr f is = levels pr g is"
  by (induction "is") auto

lemma levels_zero: "(\<And>i. i \<in> set is \<Longrightarrow> f i = 0) \<Longrightarrow> levels pr f is = []"
  by (induction "is") auto

lemma best_first_inj: "best_first sd pr \<Longrightarrow> pr i = pr j \<longleftrightarrow> i = j"
  unfolding best_first_def by (metis order_antisym order_refl)

lemma rest_level_front:
  assumes "best_first sd pr" and "\<And>j. j \<in> set js \<Longrightarrow> i < j"
  shows "rest_level sd (pr i) q (levels pr f js) = (pr i, q) # levels pr f js"
proof (cases "levels pr f js")
  case (Cons x xs)
  then have "\<exists>j \<in> set js. x = (pr j, f j)" by (auto simp: levels_def map_eq_Cons_conv filter_eq_Cons_iff)
  then obtain j where "x = (pr j, f j)" "i < j" using assms(2) by blast
  then show ?thesis using assms(1) Cons best_first_inj [OF assms(1), of j i]
    by (simp add: best_first_def)
qed simp

lemma rest_level_levels:
  assumes "best_first sd pr" and "a \<le> i" and "i < m" and "0 < q"
  shows "rest_level sd (pr i) q (levels pr f [a..<m]) = levels pr (f(i := f i + q)) [a..<m]"
  using assms(2)
proof (induction "i - a" arbitrary: a)
  case 0
  then have a: "a = i" by simp
  have upt: "[a..<m] = i # [Suc i..<m]" using assms(3) a by (simp add: upt_conv_Cons)
  have same: "levels pr (f(i := f i + q)) [Suc i..<m] = levels pr f [Suc i..<m]"
    by (rule levels_cong) simp
  show ?case
    using assms(4) rest_level_front [OF assms(1), of "[Suc i..<m]" i q f] by (auto simp: upt same simp del: fun_upd_apply)
      (simp_all add: same [unfolded fun_upd_def])
next
  case (Suc k)
  then have lt: "a < i" by simp
  have upt: "[a..<m] = a # [Suc a..<m]" using lt assms(3) by (simp add: upt_conv_Cons)
  have IH: "rest_level sd (pr i) q (levels pr f [Suc a..<m]) = levels pr (f(i := f i + q)) [Suc a..<m]"
    using Suc lt by (intro Suc.hyps(1)) simp_all
  have "pr a \<noteq> pr i" "\<not> within_limit sd (pr i) (pr a)"
    using assms(1) lt best_first_inj [OF assms(1), of a i] by (auto simp: best_first_def)
  then show ?case using IH lt by (simp add: upt)
qed

text \<open>A book of ladders on both sides that do not meet.\<close>

definition ladder_book :: "(side \<Rightarrow> nat \<Rightarrow> int) \<Rightarrow> nat \<Rightarrow> (side \<Rightarrow> nat \<Rightarrow> nat) \<Rightarrow> side \<Rightarrow> (int \<times> nat) list" where
  "ladder_book pr m f = (\<lambda>sd. levels (pr sd) (f sd) [0..<m])"

definition apart :: "(side \<Rightarrow> nat \<Rightarrow> int) \<Rightarrow> bool" where
  "apart pr \<longleftrightarrow> best_first Buy (pr Buy) \<and> best_first Sell (pr Sell) \<and> (\<forall>i j. pr Buy i < pr Sell j)"

lemma apart_limit: "apart pr \<Longrightarrow> \<not> within_limit sd (pr sd i) (pr (opposite sd) j)"
  by (cases sd) (auto simp: apart_def not_le)

lemma ladder_book_empty: "ladder_book pr m (\<lambda>sd i. 0) = (\<lambda>sd. [])"
  by (simp add: ladder_book_def levels_def)

lemma spec_add_ladder:
  assumes "apart pr" and "i < m" and "0 < q"
  shows "spec_add sd (pr sd i) q (ladder_book pr m f) =
    Some ([], ladder_book pr m (f(sd := (f sd)(i := f sd i + q))))"
proof -
  have "\<not> (\<exists>x n zs. ladder_book pr m f (opposite sd) = (x, n) # zs \<and> within_limit sd (pr sd i) x)"
    using apart_limit [OF assms(1), of sd i]
    by (auto simp: ladder_book_def levels_def map_eq_Cons_conv)
  moreover have "best_first sd (pr sd)" using assms(1) by (cases sd) (simp_all add: apart_def)
  from rest_level_levels [OF this _ assms(2,3), of 0]
  have "(ladder_book pr m f)(sd := rest_level sd (pr sd i) q (ladder_book pr m f sd)) =
      ladder_book pr m (f(sd := (f sd)(i := f sd i + q)))"
    by (auto simp: ladder_book_def fun_eq_iff)
  ultimately show ?thesis using spec_add_rests [of "ladder_book pr m f" sd] assms(3) by simp
qed

text \<open>A list of resting orders, each given by side, level and quantity.\<close>

definition resting_op :: "(side \<Rightarrow> nat \<Rightarrow> int) \<Rightarrow> side \<times> nat \<times> u32 \<Rightarrow> book_op" where
  "resting_op pr = (\<lambda>(sd, i, q). Add sd (pr sd i) q Limit)"

definition added :: "(side \<times> nat \<times> u32) list \<Rightarrow> side \<Rightarrow> nat \<Rightarrow> nat" where
  "added os sd i = (\<Sum>(s, j, q)\<leftarrow>os. if s = sd \<and> j = i then unat q else 0)"

lemma spec_run_ladder:
  assumes "apart pr" and "list_all (\<lambda>(sd, i, q). i < m \<and> 0 < q) os"
  shows "spec_run (map (resting_op pr) os) (ladder_book pr m f) =
    Some ([], ladder_book pr m (\<lambda>sd i. f sd i + added os sd i))"
  using assms(2)
proof (induction os arbitrary: f)
  case (Cons x os)
  obtain s j q where o: "x = (s, j, q)" by (metis prod_cases3)
  have "j < m" "0 < unat q" using Cons.prems by (auto simp: o unat_gt_0 word_gt_0)
  from spec_add_ladder [OF assms(1) this] Cons.IH Cons.prems
  have "spec_run (map (resting_op pr) (x # os)) (ladder_book pr m f) =
      Some ([], ladder_book pr m (\<lambda>sd i. (f(s := (f s)(j := f s j + unat q))) sd i + added os sd i))"
    by (simp add: o resting_op_def)
  moreover have "(\<lambda>sd i. (f(s := (f s)(j := f s j + unat q))) sd i + added os sd i) =
      (\<lambda>sd i. f sd i + added (x # os) sd i)"
    by (auto simp: fun_eq_iff added_def o)
  ultimately show ?case by simp
qed (simp add: added_def)

end
