(* ===== verification/Latency_Stats.thy ===== *)
theory Latency_Stats
  imports Prelude "HOL-Library.Multiset"
begin

text \<open>
  What the benchmark programs share: a timed loop that keeps at most as many samples as the
  vector has capacity for, and the counters read off the sorted samples. The two clock
  readings of an iteration come with its input; \<open>to_ns\<close> is the conversion applied to their
  difference (\<^verbatim>\<open>TscClock::tsc_to_ns\<close>, or the identity where cycles are reported). The harness
  decides how often the loop runs, so the iterations are a list.
\<close>

type_synonym counters = "(string \<times> u64) list"

definition record_latency :: "nat \<Rightarrow> u64 \<Rightarrow> u64 list \<Rightarrow> u64 list" where
  "record_latency capacity l ls = (if length ls < capacity then ls @ [l] else ls)"

fun timed_loop ::
  "nat \<Rightarrow> (u64 \<Rightarrow> u64) \<Rightarrow> ('i \<Rightarrow> 's \<Rightarrow> 's option) \<Rightarrow> ('i \<times> u64 \<times> u64) list \<Rightarrow> 's \<Rightarrow> u64 list \<Rightarrow>
   ('s \<times> u64 list) option" where
  "timed_loop capacity to_ns body [] s ls = Some (s, ls)"
| "timed_loop capacity to_ns body ((x, t0, t1) # its) s ls =
     (case body x s of None \<Rightarrow> None
      | Some s' \<Rightarrow> timed_loop capacity to_ns body its s' (record_latency capacity (to_ns (t1 - t0)) ls))"

text \<open>\<^verbatim>\<open>latencies[latencies.size() * num / den]\<close>, undefined past the end.\<close>

definition percentile :: "nat \<Rightarrow> nat \<Rightarrow> u64 list \<Rightarrow> u64 option" where
  "percentile num den ls =
     (let i = length ls * num div den in if i < length ls then Some (ls ! i) else None)"

fun read_counters :: "(string \<times> nat \<times> nat) list \<Rightarrow> u64 list \<Rightarrow> counters option" where
  "read_counters [] ls = Some []"
| "read_counters ((name, num, den) # ps) ls =
     (case (percentile num den ls, read_counters ps ls) of
        (Some v, Some cs) \<Rightarrow> Some ((name, v) # cs)
      | _ \<Rightarrow> None)"

text \<open>The counters of a benchmark: nothing when there is no sample, otherwise the percentiles of
  the sorted samples and, where a name is given, their last element.\<close>

definition report :: "(string \<times> nat \<times> nat) list \<Rightarrow> string option \<Rightarrow> u64 list \<Rightarrow> counters option" where
  "report ps max_name ls =
     (if ls = [] then Some []
      else let sorted_ls = sort ls
           in map_option (\<lambda>cs. cs @ (case max_name of None \<Rightarrow> [] | Some n \<Rightarrow> [(n, last sorted_ls)]))
                (read_counters ps sorted_ls))"

text \<open>The inputs of the iterations together with the readings \<open>clock k\<close> around the \<open>k\<close>-th of them.\<close>

definition stamped :: "(nat \<Rightarrow> u64 \<times> u64) \<Rightarrow> 'i list \<Rightarrow> ('i \<times> u64 \<times> u64) list" where
  "stamped clock xs = zip xs (map clock [0..<length xs])"

lemma map_fst_stamped [simp]: "map fst (stamped clock xs) = xs"
  by (simp add: stamped_def)

subsection \<open>The loop\<close>

primrec iterate :: "('i \<Rightarrow> 's \<Rightarrow> 's option) \<Rightarrow> 'i list \<Rightarrow> 's \<Rightarrow> 's option" where
  "iterate body [] s = Some s"
| "iterate body (x # xs) s = (case body x s of None \<Rightarrow> None | Some s' \<Rightarrow> iterate body xs s')"

lemma iterate_cong: "(\<And>x. body x = body' x) \<Longrightarrow> iterate body xs s = iterate body' xs s"
  by (induction xs arbitrary: s) (auto split: option.split)

lemma iterate_append:
  "iterate body (xs @ ys) s = (case iterate body xs s of None \<Rightarrow> None | Some s' \<Rightarrow> iterate body ys s')"
  by (induction xs arbitrary: s) (auto split: option.split)

definition samples :: "(u64 \<Rightarrow> u64) \<Rightarrow> ('i \<times> u64 \<times> u64) list \<Rightarrow> u64 list" where
  "samples to_ns its = map (\<lambda>(x, t0, t1). to_ns (t1 - t0)) its"

lemma timed_loop_result:
  "length ls \<le> capacity \<Longrightarrow>
   timed_loop capacity to_ns body its s ls =
     map_option (\<lambda>s'. (s', take capacity (ls @ samples to_ns its))) (iterate body (map fst its) s)"
proof (induction its arbitrary: s ls)
  case (Cons it its)
  obtain x t0 t1 where it: "it = (x, t0, t1)" by (metis prod_cases3)
  have "length (record_latency capacity l ls) \<le> capacity" for l
    using Cons.prems by (simp add: record_latency_def)
  moreover have "take capacity (record_latency capacity l ls @ zs) = take capacity (ls @ l # zs)" for l zs
    using Cons.prems by (auto simp: record_latency_def take_Cons')
  ultimately show ?case
    using Cons.IH by (simp add: it samples_def split: option.split)
qed (simp add: samples_def)

corollary timed_loop_new:
  "timed_loop capacity to_ns body its s [] =
     map_option (\<lambda>s'. (s', take capacity (samples to_ns its))) (iterate body (map fst its) s)"
  by (simp add: timed_loop_result)

subsection \<open>Percentiles\<close>

lemma percentile_Some:
  assumes "ls \<noteq> []" and "num < den"
  shows "percentile num den ls = Some (ls ! (length ls * num div den))" and "length ls * num div den < length ls"
proof -
  have "length ls * num < length ls * den" using assms by simp
  then show "length ls * num div den < length ls"
    using assms(2) by (simp add: div_less_iff_less_mult mult.commute)
  then show "percentile num den ls = Some (ls ! (length ls * num div den))"
    by (simp add: percentile_def Let_def)
qed

lemma count_le_nth:
  assumes "sorted xs" and "i < length xs"
  shows "i < length (filter (\<lambda>x. x \<le> xs ! i) xs)"
proof -
  have "filter (\<lambda>x. x \<le> xs ! i) (take (Suc i) xs) = take (Suc i) xs"
    using assms by (auto simp: filter_id_conv in_set_conv_nth intro!: sorted_nth_mono)
  then have "length (filter (\<lambda>x. x \<le> xs ! i) (take (Suc i) xs @ drop (Suc i) xs)) \<ge> Suc i"
    using assms(2) by (simp only: filter_append length_append length_take)
  then show ?thesis by simp
qed

lemma count_less_nth:
  assumes "sorted xs" and "i < length xs"
  shows "length (filter (\<lambda>x. x < xs ! i) xs) \<le> i"
proof -
  have "filter (\<lambda>x. x < xs ! i) (drop i xs) = []"
    using assms by (auto simp: filter_empty_conv in_set_conv_nth not_less intro!: sorted_nth_mono)
  then have "length (filter (\<lambda>x. x < xs ! i) (take i xs @ drop i xs)) \<le> i"
    by (simp only: filter_append length_append) (simp add: le_trans [OF length_filter_le])
  then show ?thesis by simp
qed

lemma length_filter_sort: "length (filter P (sort xs)) = length (filter P xs)"
  by (metis mset_filter mset_sort size_mset)

lemma read_counters_Some:
  assumes "ls \<noteq> []" and "list_all (\<lambda>(name, num, den). num < den) ps"
  shows "read_counters ps ls = Some (map (\<lambda>(name, num, den). (name, ls ! (length ls * num div den))) ps)"
  using assms(2)
proof (induction ps)
  case (Cons p ps)
  obtain name num den where p: "p = (name, num, den)" by (metis prod_cases3)
  then show ?case using Cons percentile_Some(1) [OF assms(1), of num den] by simp
qed simp

subsection \<open>Properties\<close>

text \<open>
  A percentile below one hundred percent of a non-empty set of samples is read inside the
  vector and is the order statistic it is named for: it is one of the samples, more than the
  given fraction of them are not above it, and at most the given fraction are below it.
\<close>

lemma percentile_is_order_statistic:
  assumes "ls \<noteq> []" and "num < den"
  shows "\<exists>v. percentile num den (sort ls) = Some v \<and> v \<in> set ls \<and>
    length ls * num < length (filter (\<lambda>x. x \<le> v) ls) * den \<and>
    length (filter (\<lambda>x. x < v) ls) * den \<le> length ls * num"
proof -
  let ?i = "length ls * num div den" and ?s = "sort ls"
  have ne: "?s \<noteq> []" using assms(1) by (metis length_greater_0_conv length_sort)
  have i: "?i < length ?s" using percentile_Some(2) [OF ne assms(2)] by simp
  have le: "Suc ?i \<le> length (filter (\<lambda>x. x \<le> ?s ! ?i) ls)"
    using count_le_nth [OF sorted_sort i] by (simp add: length_filter_sort)
  have less: "length (filter (\<lambda>x. x < ?s ! ?i) ls) \<le> ?i"
    using count_less_nth [OF sorted_sort i] by (simp add: length_filter_sort)
  have den: "0 < den" using assms(2) by simp
  have "length ls * num < Suc ?i * den" using dividend_less_div_times [OF den, of "length ls * num"] by simp
  also have "\<dots> \<le> length (filter (\<lambda>x. x \<le> ?s ! ?i) ls) * den" by (rule mult_right_mono [OF le]) simp
  finally have 1: "length ls * num < length (filter (\<lambda>x. x \<le> ?s ! ?i) ls) * den" .
  have "length (filter (\<lambda>x. x < ?s ! ?i) ls) * den \<le> ?i * den" by (rule mult_right_mono [OF less]) simp
  also have "\<dots> \<le> length ls * num" by (rule div_times_less_eq_dividend)
  finally have 2: "length (filter (\<lambda>x. x < ?s ! ?i) ls) * den \<le> length ls * num" .
  have "?s ! ?i \<in> set ls" using nth_mem [OF i] by simp
  then show ?thesis using 1 2 percentile_Some(1) [OF ne assms(2)] by simp
qed

text \<open>The counters of a benchmark that has samples: all are read, they grow with the percentile,
  and the maximum is the largest.\<close>

lemma report_defined:
  assumes "list_all (\<lambda>(name, num, den). num < den) ps"
  shows "\<exists>cs. report ps mx ls = Some cs"
proof (cases "ls = []")
  case False
  then have "sort ls \<noteq> []" by (metis length_greater_0_conv length_sort)
  then show ?thesis using read_counters_Some [OF _ assms] False by (simp add: report_def Let_def)
qed (simp add: report_def)

lemma percentile_mono:
  assumes "percentile n1 d1 (sort ls) = Some v" and "percentile n2 d2 (sort ls) = Some w"
    and "n1 * d2 \<le> n2 * d1" and "0 < d1" and "0 < d2"
  shows "v \<le> w"
proof -
  let ?n = "length ls"
  have "?n * n1 div d1 = ?n * n1 * d2 div (d1 * d2)" using assms(5) by simp
  also have "\<dots> \<le> ?n * n2 * d1 div (d1 * d2)"
    using assms(3) by (intro div_le_mono) (simp add: mult.assoc)
  also have "\<dots> = ?n * n2 div d2" using assms(4) by simp
  finally show ?thesis
    using assms(1,2) by (auto simp: percentile_def Let_def split: if_splits intro: sorted_nth_mono)
qed

end
