(* ===== verification/Bench_Book.thy ===== *)
theory Bench_Book
  imports Book_Ladders Latency_Stats
begin

text \<open>
  The order book workloads of \<^verbatim>\<open>1_orderbook/bench/bench_orderbook.cpp\<close>, \<^verbatim>\<open>bench_realistic.cpp\<close> and
  \<^verbatim>\<open>bench_profiling.cpp\<close>. A benchmark builds a book, runs a timed loop on it and reports
  percentiles of the samples. The number of iterations, which the harness chooses, the
  values drawn from random generators and the clock readings are arguments; the readings
  inside the book come from \<open>tsc\<close>. The vectors of samples hold exactly what is reserved for
  them. The result is the final book and the counters.
\<close>

definition bench_book ::
  "(nat \<Rightarrow> u64) \<Rightarrow> nat \<Rightarrow> (u64 \<Rightarrow> u64) \<Rightarrow> (nat \<Rightarrow> u64 \<times> u64) \<Rightarrow> (u64 \<Rightarrow> u32) \<Rightarrow> book_op list \<Rightarrow>
   ('i \<Rightarrow> order_book \<Rightarrow> order_book option) \<Rightarrow> 'i list \<Rightarrow> (string \<times> nat \<times> nat) list \<Rightarrow> string option \<Rightarrow>
   (order_book \<times> counters) option" where
  "bench_book tsc capacity to_ns clock d setup body inputs ps mx =
     (case run_ops tsc setup (order_book_new 1 d) of None \<Rightarrow> None
      | Some ob \<Rightarrow>
          (case timed_loop capacity to_ns body (stamped clock inputs) ob [] of None \<Rightarrow> None
           | Some (ob', ls) \<Rightarrow> map_option (Pair ob') (report ps mx ls)))"

abbreviation P50 :: "nat \<times> nat" where "P50 \<equiv> (1, 2)"
abbreviation P95 :: "nat \<times> nat" where "P95 \<equiv> (95, 100)"
abbreviation P99 :: "nat \<times> nat" where "P99 \<equiv> (99, 100)"
abbreviation P99_9 :: "nat \<times> nat" where "P99_9 \<equiv> (999, 1000)"
abbreviation P99_99 :: "nat \<times> nat" where "P99_99 \<equiv> (9999, 10000)"

subsection \<open>bench_orderbook.cpp\<close>

definition orderbook_add_order_no_match ::
  "(nat \<Rightarrow> u64) \<Rightarrow> (u64 \<Rightarrow> u64) \<Rightarrow> (nat \<Rightarrow> u64 \<times> u64) \<Rightarrow> (u64 \<Rightarrow> u32) \<Rightarrow> (int \<times> u32) list \<Rightarrow>
   (order_book \<times> counters) option" where
  "orderbook_add_order_no_match tsc to_ns clock d draws =
     bench_book tsc 100000 to_ns clock d []
       (\<lambda>(p, q). book_step tsc (Add Buy p q Limit)) draws
       [(''p50_ns'', P50), (''p95_ns'', P95), (''p99_ns'', P99), (''p99.9_ns'', P99_9)] None"

definition with_matching_setup :: "book_op list" where
  "with_matching_setup = concat (map (\<lambda>i. [Add Buy (10000 - int i * 10) 100 Limit,
     Add Sell (10100 + int i * 10) 100 Limit]) [0..<50])"

definition orderbook_with_matching ::
  "(nat \<Rightarrow> u64) \<Rightarrow> (u64 \<Rightarrow> u64) \<Rightarrow> (nat \<Rightarrow> u64 \<times> u64) \<Rightarrow> (u64 \<Rightarrow> u32) \<Rightarrow> nat \<Rightarrow> (order_book \<times> counters) option" where
  "orderbook_with_matching tsc to_ns clock d n =
     bench_book tsc 100000 to_ns clock d with_matching_setup
       (\<lambda>_. book_step tsc (Add Sell 9500 100 Limit)) (replicate n ())
       [(''p50_ns'', P50), (''p95_ns'', P95), (''p99_ns'', P99)] None"

text \<open>The inner loop runs a thousand times in each of the \<open>n\<close> iterations and is timed itself.\<close>

definition orderbook_sequential_adds ::
  "(nat \<Rightarrow> u64) \<Rightarrow> (u64 \<Rightarrow> u64) \<Rightarrow> (nat \<Rightarrow> u64 \<times> u64) \<Rightarrow> (u64 \<Rightarrow> u32) \<Rightarrow> nat \<Rightarrow> (order_book \<times> counters) option" where
  "orderbook_sequential_adds tsc to_ns clock d n =
     bench_book tsc 1000000 to_ns clock d []
       (\<lambda>i. book_step tsc (Add (if i mod 2 = 0 then Buy else Sell) (10000 + int i) 100 Limit))
       (concat (replicate n [0..<1000]))
       [(''p50_ns'', P50), (''p99_ns'', P99), (''p99.99_ns'', P99_99)] (Some ''max_ns'')"

subsection \<open>bench_realistic.cpp\<close>

definition deep_ladder_setup :: "book_op list" where
  "deep_ladder_setup = concat (map (\<lambda>i. [Add Buy (10000 - int i) 100 Limit,
     Add Sell (10001 + int i) 100 Limit]) [0..<500])"

definition realistic_deep_ladder_insert ::
  "(nat \<Rightarrow> u64) \<Rightarrow> (u64 \<Rightarrow> u64) \<Rightarrow> (nat \<Rightarrow> u64 \<times> u64) \<Rightarrow> (u64 \<Rightarrow> u32) \<Rightarrow> nat \<Rightarrow> (order_book \<times> counters) option" where
  "realistic_deep_ladder_insert tsc to_ns clock d n =
     bench_book tsc 10000 to_ns clock d deep_ladder_setup
       (\<lambda>_. book_step tsc (Add Buy 9900 50 Limit)) (replicate n ())
       [(''p50_ns'', P50), (''p95_ns'', P95), (''p99_ns'', P99), (''p99.9_ns'', P99_9)] None"

definition multi_level_setup :: "book_op list" where
  "multi_level_setup = concat (map (\<lambda>i. [Add Buy (10000 - int i * 10) 100 Limit,
     Add Sell (10001 + int i * 10) 100 Limit]) [0..<20])"

definition realistic_multi_level_match ::
  "(nat \<Rightarrow> u64) \<Rightarrow> (u64 \<Rightarrow> u64) \<Rightarrow> (nat \<Rightarrow> u64 \<times> u64) \<Rightarrow> (u64 \<Rightarrow> u32) \<Rightarrow> nat \<Rightarrow> (order_book \<times> counters) option" where
  "realistic_multi_level_match tsc to_ns clock d n =
     bench_book tsc 10000 to_ns clock d multi_level_setup
       (\<lambda>_. book_step tsc (Add Sell 9500 1500 Limit)) (replicate n ())
       [(''p50_ns'', P50), (''p95_ns'', P95), (''p99_ns'', P99)] None"

text \<open>The hundred sells of an iteration come before its clock is read; only the buy is timed.\<close>

definition worst_case_round :: "book_op list" where
  "worst_case_round = map (\<lambda>i. Add Sell (10001 + int i) 100 Limit) [0..<100] @ [Add Buy 10500 10000 Limit]"

definition realistic_market_order_worst_case ::
  "(nat \<Rightarrow> u64) \<Rightarrow> (u64 \<Rightarrow> u64) \<Rightarrow> (nat \<Rightarrow> u64 \<times> u64) \<Rightarrow> (u64 \<Rightarrow> u32) \<Rightarrow> nat \<Rightarrow> (order_book \<times> counters) option" where
  "realistic_market_order_worst_case tsc to_ns clock d n =
     bench_book tsc 1000 to_ns clock d []
       (\<lambda>_. run_ops tsc worst_case_round) (replicate n ())
       [(''p50_ns'', P50), (''p99_ns'', P99)] (Some ''max_ns'')"

subsection \<open>bench_profiling.cpp\<close>

text \<open>The counter that repeats the argument is set together with the others.\<close>

definition with_counter :: "string \<Rightarrow> u64 \<Rightarrow> order_book \<times> counters \<Rightarrow> order_book \<times> counters" where
  "with_counter name v = (\<lambda>(ob, cs). (ob, if cs = [] then [] else (name, v) # cs))"

definition profile_orderbook_add_scaling ::
  "(nat \<Rightarrow> u64) \<Rightarrow> (nat \<Rightarrow> u64 \<times> u64) \<Rightarrow> (u64 \<Rightarrow> u32) \<Rightarrow> nat \<Rightarrow> nat list \<Rightarrow> (order_book \<times> counters) option" where
  "profile_orderbook_add_scaling tsc clock d num_levels draws =
     map_option (with_counter ''levels'' (of_nat num_levels))
       (bench_book tsc 10000 (\<lambda>x. x) clock d
         (concat (map (\<lambda>i. [Add Buy (10000 - int i) 100 Limit, Add Sell (10001 + int i) 100 Limit])
           [0..<num_levels]))
         (\<lambda>r. book_step tsc (Add Buy (9900 + int (r mod 100)) 50 Limit)) draws
         [(''p50_cycles'', P50), (''p99_cycles'', P99)] None)"

definition match_scaling_populate :: "nat \<Rightarrow> book_op list" where
  "match_scaling_populate cross_levels =
     map (\<lambda>i. Add Buy (10000 - int i) 100 Limit) [0..<cross_levels + 10]"

definition profile_orderbook_match_scaling ::
  "(nat \<Rightarrow> u64) \<Rightarrow> (nat \<Rightarrow> u64 \<times> u64) \<Rightarrow> (u64 \<Rightarrow> u32) \<Rightarrow> nat \<Rightarrow> nat \<Rightarrow> (order_book \<times> counters) option" where
  "profile_orderbook_match_scaling tsc clock d cross_levels n =
     map_option (with_counter ''cross_levels'' (of_nat cross_levels))
       (bench_book tsc 1000 (\<lambda>x. x) clock d (match_scaling_populate cross_levels)
         (\<lambda>_. run_ops tsc (Add Sell (10000 - int cross_levels) (of_nat (100 * cross_levels)) Limit #
            match_scaling_populate cross_levels)) (replicate n ())
         [(''p50_cycles'', P50), (''p99_cycles'', P99)] (Some ''max_cycles''))"

subsection \<open>From the benchmark to the abstract book\<close>

lemma iterate_book_step: "iterate (\<lambda>x. book_step tsc (f x)) xs ob = run_ops tsc (map f xs) ob"
  by (induction xs arbitrary: ob) (simp_all split: option.split)

lemma iterate_run_ops: "iterate (\<lambda>x. run_ops tsc ops) xs ob = run_ops tsc (concat (replicate (length xs) ops)) ob"
  by (induction xs arbitrary: ob) (simp_all add: run_ops_append split: option.split)

lemma bench_book_spec:
  assumes "\<And>ob. iterate body inputs ob = run_ops tsc ops ob"
    and "list_all submission (setup @ ops)" and "length (setup @ ops) < 2 ^ 20"
    and "spec_run (setup @ ops) (\<lambda>sd. []) = Some (fs, bk)"
    and "list_all (\<lambda>(name, num, den). num < den) ps"
  shows "\<exists>ob cs. bench_book tsc capacity to_ns clock d setup body inputs ps mx = Some (ob, cs) \<and>
    abs_book ob = bk \<and> reported_fills ob = fs"
proof -
  obtain ob where ob: "run_ops tsc (setup @ ops) (order_book_new 1 d) = Some ob"
    "abs_book ob = bk" "reported_fills ob = fs"
    using run_new_spec [OF assms(2,3), of tsc 1 d] assms(4) by auto
  obtain ob1 where ob1: "run_ops tsc setup (order_book_new 1 d) = Some ob1" "run_ops tsc ops ob1 = Some ob"
    using ob(1) by (auto simp: run_ops_append split: option.splits)
  obtain cs where "report ps mx (take capacity (samples to_ns (stamped clock inputs))) = Some cs"
    using report_defined [OF assms(5)] by blast
  then have "bench_book tsc capacity to_ns clock d setup body inputs ps mx = Some (ob, cs)"
    by (simp add: bench_book_def ob1 timed_loop_new assms(1))
  then show ?thesis using ob(2,3) by blast
qed

subsection \<open>Resting workloads\<close>

text \<open>Levels one tick, or ten ticks, apart on both sides of a price.\<close>

definition unit_prices :: "side \<Rightarrow> nat \<Rightarrow> int" where
  "unit_prices sd i = (case sd of Buy \<Rightarrow> 10000 - int i | Sell \<Rightarrow> 10001 + int i)"

definition ten_prices :: "int \<Rightarrow> side \<Rightarrow> nat \<Rightarrow> int" where
  "ten_prices ask sd i = (case sd of Buy \<Rightarrow> 10000 - int i * 10 | Sell \<Rightarrow> ask + int i * 10)"

lemma apart_unit: "apart unit_prices"
  by (simp add: apart_def best_first_def unit_prices_def)

lemma apart_ten: "10000 < ask \<Longrightarrow> apart (ten_prices ask)"
  by (auto simp: apart_def best_first_def ten_prices_def)

definition both_sides :: "nat \<Rightarrow> (side \<times> nat \<times> u32) list" where
  "both_sides m = concat (map (\<lambda>i. [(Buy, i, 100), (Sell, i, 100)]) [0..<m])"

lemma both_sides_ok: "m \<le> m' \<Longrightarrow> list_all (\<lambda>(sd, i, q). i < m' \<and> 0 < q) (both_sides m)"
  by (auto simp: both_sides_def list_all_iff)

lemma added_both_sides: "added (both_sides m) sd i = (if i < m then 100 else 0)"
  by (induction m) (cases sd; simp add: both_sides_def added_def)+

lemma spec_run_both_sides:
  assumes "apart pr"
  shows "spec_run (map (resting_op pr) (both_sides m)) (\<lambda>sd. []) =
    Some ([], ladder_book pr m (\<lambda>sd i. if i < m then 100 else 0))"
  using spec_run_ladder [OF assms both_sides_ok [OF order_refl], where f = "\<lambda>sd i. 0"]
  by (simp add: ladder_book_empty added_both_sides)

lemma map_both_sides:
  "map (resting_op pr) (both_sides m) =
     concat (map (\<lambda>i. [Add Buy (pr Buy i) 100 Limit, Add Sell (pr Sell i) 100 Limit]) [0..<m])"
  by (simp add: both_sides_def resting_op_def map_concat comp_def)

lemma length_concat_pairs: "length (concat (map (\<lambda>i. [f i, g i]) xs)) = 2 * length xs"
  by (induction xs) simp_all

lemma setups_both_sides:
  "deep_ladder_setup = map (resting_op unit_prices) (both_sides 500)"
  "multi_level_setup = map (resting_op (ten_prices 10001)) (both_sides 20)"
  "with_matching_setup = map (resting_op (ten_prices 10100)) (both_sides 50)"
  by (simp_all only: map_both_sides deep_ladder_setup_def multi_level_setup_def with_matching_setup_def)
    (simp_all add: unit_prices_def ten_prices_def)

lemma submission_resting [simp]: "submission (resting_op pr x)"
  by (cases x) (simp add: resting_op_def)

lemma length_both_sides [simp]: "length (both_sides m) = 2 * m"
  by (simp add: both_sides_def length_concat_pairs)

text \<open>Orders on one side only never trade, whatever their prices.\<close>

lemma spec_run_buys:
  assumes "bk Sell = []"
  shows "\<exists>bk'. spec_run (map (\<lambda>(p, q). Add Buy p q Limit) draws) bk = Some ([], bk') \<and> bk' Sell = []"
  using assms
proof (induction draws arbitrary: bk)
  case (Cons x draws)
  obtain p q where x: "x = (p, q)" by (cases x)
  have "\<exists>bk1. spec_add Buy p (unat q) bk = Some ([], bk1) \<and> bk1 Sell = []"
    using Cons.prems by (simp add: spec_add_def)
  then show ?case using Cons.IH by (force simp: x)
qed simp

lemma add_order_no_match_never_matches:
  assumes "length draws < 2 ^ 20"
  shows "\<exists>ob cs. orderbook_add_order_no_match tsc to_ns clock d draws = Some (ob, cs) \<and>
    reported_fills ob = [] \<and> abs_book ob Sell = []"
proof -
  obtain bk where bk: "spec_run (map (\<lambda>(p, q). Add Buy p q Limit) draws) (\<lambda>sd. []) = Some ([], bk)"
    "bk Sell = []" using spec_run_buys [of "\<lambda>sd. []" draws] by blast
  have "\<exists>ob cs. orderbook_add_order_no_match tsc to_ns clock d draws = Some (ob, cs) \<and>
      abs_book ob = bk \<and> reported_fills ob = []"
    unfolding orderbook_add_order_no_match_def
  proof (rule bench_book_spec [where ops = "map (\<lambda>(p, q). Add Buy p q Limit) draws"])
    fix ob show "iterate (\<lambda>(p, q). book_step tsc (Add Buy p q Limit)) draws ob =
        run_ops tsc (map (\<lambda>(p, q). Add Buy p q Limit) draws) ob"
      using iterate_book_step [of tsc "\<lambda>(p, q). Add Buy p q Limit"] by (simp add: case_prod_unfold)
  qed (use assms bk in \<open>auto simp: list_all_iff\<close>)
  then show ?thesis using bk(2) by metis
qed

text \<open>A benchmark whose iterations all do the same, by the states between them.\<close>

lemma bench_rounds:
  assumes "\<And>x. body x = run_ops tsc ops"
    and "spec_run setup (\<lambda>sd. []) = Some (fs0, bk 0)"
    and "\<And>k. k < n \<Longrightarrow> spec_run ops (bk k) = Some (fs k, bk (Suc k))"
    and "list_all submission setup" and "list_all submission ops"
    and "length setup + n * length ops < 2 ^ 20"
    and "list_all (\<lambda>(name, num, den). num < den) ps"
  shows "\<exists>ob cs. bench_book tsc capacity to_ns clock d setup body (replicate n ()) ps mx = Some (ob, cs) \<and>
    abs_book ob = bk n \<and> reported_fills ob = fs0 @ concat (map fs [0..<n])"
proof (rule bench_book_spec [where ops = "concat (replicate n ops)"])
  fix ob show "iterate body (replicate n ()) ob = run_ops tsc (concat (replicate n ops)) ob"
    using iterate_run_ops [of tsc ops "replicate n ()" ob] assms(1) by (simp cong: iterate_cong)
next
  show "spec_run (setup @ concat (replicate n ops)) (\<lambda>sd. []) = Some (fs0 @ concat (map fs [0..<n]), bk n)"
    using spec_run_repeat [of n ops bk fs, OF assms(3)] assms(2) by (simp add: spec_run_append)
next
  show "length (setup @ concat (replicate n ops)) < 2 ^ 20"
    using assms(6) by (simp add: length_concat sum_list_replicate)
next
  show "list_all submission (setup @ concat (replicate n ops))"
    using assms(4,5) by (auto simp: list_all_iff)
qed (rule assms(7))

lemma book_step_run: "book_step tsc op = run_ops tsc [op]"
  by (rule ext) (simp split: option.split)

text \<open>Inserting at 9900 lands a hundred levels below the best bid and never trades.\<close>

lemma deep_ladder_never_matches:
  assumes "n < 1000000"
  shows "\<exists>ob cs. realistic_deep_ladder_insert tsc to_ns clock d n = Some (ob, cs) \<and>
    abs_book ob = ladder_book unit_prices 500 (\<lambda>sd i. if sd = Buy \<and> i = 100 then 100 + n * 50 else 100) \<and>
    reported_fills ob = [] @ concat (map (\<lambda>k. []) [0..<n])"
  unfolding realistic_deep_ladder_insert_def
proof (rule bench_rounds [where ops = "[Add Buy 9900 50 Limit]" and
      bk = "\<lambda>k. ladder_book unit_prices 500 (\<lambda>sd i. if sd = Buy \<and> i = 100 then 100 + k * 50 else 100)"])
  have "ladder_book unit_prices 500 (\<lambda>sd i. if i < 500 then 100 else 0) =
      ladder_book unit_prices 500 (\<lambda>sd i. if sd = Buy \<and> i = 100 then 100 + 0 * 50 else 100)"
    unfolding ladder_book_def by (rule ext, rule levels_cong) simp
  then show "spec_run deep_ladder_setup (\<lambda>sd. []) =
      Some ([], ladder_book unit_prices 500 (\<lambda>sd i. if sd = Buy \<and> i = 100 then 100 + 0 * 50 else 100))"
    by (simp add: setups_both_sides spec_run_both_sides [OF apart_unit])
next
  fix k
  let ?f = "\<lambda>k sd i. if sd = Buy \<and> i = (100 :: nat) then 100 + k * 50 else (100 :: nat)"
  have "(?f k)(Buy := (?f k Buy)(100 := ?f k Buy 100 + 50)) = ?f (Suc k)"
    by (auto simp: fun_eq_iff)
  then show "spec_run [Add Buy 9900 50 Limit] (ladder_book unit_prices 500 (?f k)) =
      Some ([], ladder_book unit_prices 500 (?f (Suc k)))"
    using spec_add_ladder [OF apart_unit, of 100 500 50 Buy "?f k"] by (simp add: unit_prices_def)
qed (use assms in \<open>simp_all add: book_step_run setups_both_sides list_all_iff\<close>)

subsection \<open>Matching workloads\<close>

lemma levels_split: "c \<le> m \<Longrightarrow> levels pr f [0..<m] = levels pr f [0..<c] @ levels pr f [c..<m]"
  using upt_add_eq_append [of 0 c "m - c"] by (simp add: levels_append)

lemma levels_const: "0 < n \<Longrightarrow> levels pr (\<lambda>i. n) is = map (\<lambda>i. (pr i, n)) is"
  by (induction "is") simp_all

lemma total_qty_const: "total_qty (map (\<lambda>i. (pr i, n)) is) = length is * n"
  by (induction "is") simp_all

lemmas total_qty_const_comp = total_qty_const [unfolded list.map_comp]

text \<open>An order for exactly the first \<open>c\<close> levels of a ladder takes them and nothing else.\<close>

lemma eat_levels:
  assumes "bk (opposite sd) = levels pr f [0..<m]" and "c \<le> m" and "\<And>i. i < c \<Longrightarrow> f i = n"
    and "\<And>i. i < c \<Longrightarrow> within_limit sd p (pr i)" and "0 < n" and "n < 2 ^ 32"
  shows "spec_add sd p (c * n) bk =
    Some (map (\<lambda>i. (pr i, n)) [0..<c], bk(opposite sd := levels pr (\<lambda>i. if i < c then 0 else f i) [0..<m]))"
proof -
  let ?xs = "map (\<lambda>i. (pr i, n)) [0..<c]" and ?ys = "levels pr f [c..<m]"
  have "levels pr f [0..<c] = levels pr (\<lambda>i. n) [0..<c]" using assms(3) by (intro levels_cong) simp
  then have bk: "bk (opposite sd) = ?xs @ ?ys"
    using assms(1) levels_split [OF assms(2)] levels_const [OF assms(5)] by simp
  have "levels pr (\<lambda>i. if i < c then 0 else f i) [0..<m] = ?ys"
    unfolding levels_split [OF assms(2)]
    using levels_zero [of "[0..<c]" "\<lambda>i. if i < c then 0 else f i"]
      levels_cong [of "[c..<m]" "\<lambda>i. if i < c then 0 else f i" f] by simp
  moreover have "spec_add sd p (c * n) bk = Some (?xs, bk(opposite sd := ?ys))"
    by (rule spec_add_eats [where xs = ?xs]) (use assms(4-6) bk in \<open>auto simp: list_all_iff total_qty_const_comp\<close>)
  ultimately show ?thesis by simp
qed

lemma added_buys: "added (map (\<lambda>i. (Buy, i, q)) [0..<m]) sd i = (if sd = Buy \<and> i < m then unat q else 0)"
  by (induction m) (auto simp: added_def)

lemma populate_resting:
  "match_scaling_populate c = map (resting_op unit_prices) (map (\<lambda>i. (Buy, i, 100)) [0..<c + 10])"
  by (simp add: match_scaling_populate_def resting_op_def unit_prices_def)

lemma spec_run_populate:
  "spec_run (match_scaling_populate c) (ladder_book unit_prices (c + 10) f) =
     Some ([], ladder_book unit_prices (c + 10) (\<lambda>sd i. f sd i + (if sd = Buy \<and> i < c + 10 then 100 else 0)))"
  unfolding populate_resting
  by (subst spec_run_ladder [OF apart_unit]) (auto simp: list_all_iff added_buys cong: if_cong)

text \<open>The bids of the scaling benchmark after \<open>k\<close> rounds.\<close>

definition scaling_book :: "nat \<Rightarrow> nat \<Rightarrow> side \<Rightarrow> nat \<Rightarrow> nat" where
  "scaling_book c k sd i = (if sd = Sell then 0 else if i < c then 100 else 100 * (k + 1))"

lemma scaling_round:
  assumes "100 * c < 2 ^ 32"
  shows "spec_run (Add Sell (10000 - int c) (of_nat (100 * c)) Limit # match_scaling_populate c)
      (ladder_book unit_prices (c + 10) (scaling_book c k)) =
    Some (map (\<lambda>i. (10000 - int i, 100)) [0..<c], ladder_book unit_prices (c + 10) (scaling_book c (Suc k)))"
proof -
  let ?bk = "ladder_book unit_prices (c + 10) (scaling_book c k)"
  let ?f = "\<lambda>sd i. if sd = Buy \<and> i < c then 0 else scaling_book c k sd i"
  have q: "unat (of_nat (100 * c) :: u32) = c * 100" using assms by (simp only: unat_of_nat) simp
  have prices: "map (\<lambda>i. (unit_prices Buy i, 100)) [0..<c] = map (\<lambda>i. (10000 - int i, 100)) [0..<c]"
    by (simp add: unit_prices_def)
  have "?bk(Buy := levels (unit_prices Buy) (\<lambda>i. if i < c then 0 else scaling_book c k Buy i) [0..<c + 10]) =
      ladder_book unit_prices (c + 10) ?f"
    by (auto simp: ladder_book_def fun_eq_iff)
  moreover have "spec_add Sell (10000 - int c) (c * 100) ?bk = Some (map (\<lambda>i. (unit_prices Buy i, 100)) [0..<c],
      ?bk(Buy := levels (unit_prices Buy) (\<lambda>i. if i < c then 0 else scaling_book c k Buy i) [0..<c + 10]))"
    using eat_levels [of ?bk Sell "unit_prices Buy" "scaling_book c k Buy" "c + 10" c 100 "10000 - int c"]
    by (simp add: ladder_book_def scaling_book_def unit_prices_def)
  ultimately have sell: "spec_add Sell (10000 - int c) (c * 100) ?bk =
      Some (map (\<lambda>i. (10000 - int i, 100)) [0..<c], ladder_book unit_prices (c + 10) ?f)"
    by (simp only: prices)
  have "ladder_book unit_prices (c + 10) (\<lambda>sd i. ?f sd i + (if sd = Buy \<and> i < c + 10 then 100 else 0)) =
      ladder_book unit_prices (c + 10) (scaling_book c (Suc k))"
    unfolding ladder_book_def
  proof (rule ext, rule levels_cong)
    fix sd i assume "i \<in> set [0..<c + 10]"
    then show "?f sd i + (if sd = Buy \<and> i < c + 10 then 100 else 0) = scaling_book c (Suc k) sd i"
      by (cases sd) (auto simp: scaling_book_def)
  qed
  then show ?thesis by (simp only: spec_run.simps q sell option.case prod.case spec_run_populate option.map append_Nil2)
qed

lemma added_sells: "added (map (\<lambda>i. (Sell, i, q)) [0..<m]) sd i = (if sd = Sell \<and> i < m then unat q else 0)"
  by (induction m) (auto simp: added_def)

lemma worst_case_spec:
  "spec_run worst_case_round (\<lambda>sd. []) = Some (map (\<lambda>i. (10001 + int i, 100)) [0..<100], \<lambda>sd. [])"
proof -
  let ?f = "\<lambda>sd i. if sd = Sell \<and> i < (100 :: nat) then (100 :: nat) else 0"
  let ?bk = "ladder_book unit_prices 100 ?f"
  have sells: "map (\<lambda>i. Add Sell (10001 + int i) 100 Limit) [0..<100] =
      map (resting_op unit_prices) (map (\<lambda>i. (Sell, i, 100)) [0..<100])"
    by (simp add: resting_op_def unit_prices_def del: upt_Suc upt_rec_numeral)
  have build: "spec_run (map (\<lambda>i. Add Sell (10001 + int i) 100 Limit) [0..<100]) (\<lambda>sd. []) = Some ([], ?bk)"
    using spec_run_ladder [OF apart_unit, of 100 "map (\<lambda>i. (Sell, i, 100)) [0..<100]" "\<lambda>sd i. 0"]
    unfolding sells ladder_book_empty
    by (simp add: list_all_iff added_sells del: upt_Suc upt_rec_numeral cong: if_cong)
  have "spec_add Buy 10500 (100 * 100) ?bk = Some (map (\<lambda>i. (unit_prices Sell i, 100)) [0..<100],
      ?bk(Sell := levels (unit_prices Sell) (\<lambda>i. if i < 100 then 0 else ?f Sell i) [0..<100]))"
    using eat_levels [of ?bk Buy "unit_prices Sell" "?f Sell" 100 100 100 10500]
    by (simp add: ladder_book_def unit_prices_def del: upt_Suc upt_rec_numeral)
  moreover have "?bk(Sell := levels (unit_prices Sell) (\<lambda>i. if i < 100 then 0 else ?f Sell i) [0..<100]) = (\<lambda>sd. [])"
    using levels_zero [of "[0..<100]" "\<lambda>i. if i < 100 then 0 else ?f Sell i" "unit_prices Sell"]
      levels_zero [of "[0..<100]" "?f Buy" "unit_prices Buy"]
    by (auto simp: ladder_book_def fun_eq_iff split: side.split simp del: upt_Suc upt_rec_numeral)
       (metis side.exhaust)
  moreover have "map (\<lambda>i. (unit_prices Sell i, 100)) [0..<100] = map (\<lambda>i. (10001 + int i, 100)) [0..<100]"
    by (simp add: unit_prices_def del: upt_Suc upt_rec_numeral)
  ultimately have "spec_add Buy 10500 10000 ?bk = Some (map (\<lambda>i. (10001 + int i, 100)) [0..<100], \<lambda>sd. [])"
    by simp
  then show ?thesis
    by (simp add: worst_case_round_def spec_run_append build del: upt_Suc upt_rec_numeral)
qed

subsection \<open>Properties\<close>

text \<open>
  The matching benchmark measures what it is named for: in every iteration the
  aggressive sell takes exactly the \<open>c\<close> best bid levels, one fill of a hundred each, best
  price first, and nothing of it rests; the ten levels behind them are never touched and
  gain a hundred in every iteration.
\<close>

lemma match_scaling_crosses_levels:
  assumes "100 * c < 2 ^ 32" and "c + 10 + n * (c + 11) < 2 ^ 20"
  shows "\<exists>ob cs. profile_orderbook_match_scaling tsc clock d c n = Some (ob, cs) \<and>
    abs_book ob = ladder_book unit_prices (c + 10) (scaling_book c n) \<and>
    reported_fills ob = concat (replicate n (map (\<lambda>i. (10000 - int i, 100)) [0..<c]))"
proof -
  have "spec_run (match_scaling_populate c) (\<lambda>sd. []) =
      Some ([], ladder_book unit_prices (c + 10) (scaling_book c 0))"
  proof -
    have "ladder_book unit_prices (c + 10) (\<lambda>sd i. 0 + (if sd = Buy \<and> i < c + 10 then 100 else 0)) =
        ladder_book unit_prices (c + 10) (scaling_book c 0)"
      unfolding ladder_book_def
    proof (rule ext, rule levels_cong)
      fix sd i assume "i \<in> set [0..<c + 10]"
      then show "0 + (if sd = Buy \<and> i < c + 10 then 100 else 0) = scaling_book c 0 sd i"
        by (cases sd) (auto simp: scaling_book_def)
    qed
    then show ?thesis
      using spec_run_populate [of c "\<lambda>sd i. 0"] by (simp only: ladder_book_empty)
  qed
  from bench_rounds [where bk = "\<lambda>k. ladder_book unit_prices (c + 10) (scaling_book c k)" and
      body = "\<lambda>_. run_ops tsc (Add Sell (10000 - int c) (of_nat (100 * c)) Limit # match_scaling_populate c)",
      OF refl this scaling_round [OF assms(1)], of n "[(''p50_cycles'', P50), (''p99_cycles'', P99)]"
      1000 "\<lambda>x. x" clock d "Some ''max_cycles''"]
  obtain ob cs where "bench_book tsc 1000 (\<lambda>x. x) clock d (match_scaling_populate c)
      (\<lambda>_. run_ops tsc (Add Sell (10000 - int c) (of_nat (100 * c)) Limit # match_scaling_populate c))
      (replicate n ()) [(''p50_cycles'', P50), (''p99_cycles'', P99)] (Some ''max_cycles'') = Some (ob, cs)"
    "abs_book ob = ladder_book unit_prices (c + 10) (scaling_book c n)"
    "reported_fills ob = [] @ concat (map (\<lambda>k. map (\<lambda>i. (10000 - int i, 100)) [0..<c]) [0..<n])"
    using assms(2) by (auto simp: match_scaling_populate_def list_all_iff add.commute)
  then show ?thesis
    by (auto simp: profile_orderbook_match_scaling_def with_counter_def map_replicate_const)
qed

text \<open>Every iteration of the worst case takes the hundred levels and leaves the book empty.\<close>

lemma worst_case_empties_book:
  assumes "n \<le> 10000"
  shows "\<exists>ob cs. realistic_market_order_worst_case tsc to_ns clock d n = Some (ob, cs) \<and>
    abs_book ob = (\<lambda>sd. []) \<and>
    reported_fills ob = [] @ concat (map (\<lambda>k. map (\<lambda>i. (10001 + int i, 100)) [0..<100]) [0..<n])"
  unfolding realistic_market_order_worst_case_def
proof (rule bench_rounds [where ops = worst_case_round and bk = "\<lambda>k sd. []"])
  show "length [] + n * length worst_case_round < 2 ^ 20"
    using assms by (simp add: worst_case_round_def del: upt_Suc upt_rec_numeral)
next
  show "list_all submission worst_case_round"
    by (simp add: worst_case_round_def list_all_iff del: upt_Suc upt_rec_numeral)
qed (simp_all add: worst_case_spec)

subsection \<open>Workloads that run dry\<close>

text \<open>The asks of both benchmarks stay where they are; what the sells leave rests at 9500, in
  front of them.\<close>

definition asks_at :: "int \<Rightarrow> nat \<Rightarrow> (int \<times> nat) list" where
  "asks_at ask m = levels (ten_prices ask Sell) (\<lambda>i. 100) [0..<m]"

definition bids_from :: "nat \<Rightarrow> nat \<Rightarrow> (int \<times> nat) list" where
  "bids_from k m = map (\<lambda>i. (10000 - int i * 10, 100)) [k..<m]"

definition dry_book :: "int \<Rightarrow> nat \<Rightarrow> nat \<Rightarrow> nat \<Rightarrow> side \<Rightarrow> (int \<times> nat) list" where
  "dry_book ask m k r sd = (case sd of Buy \<Rightarrow> bids_from k m
     | Sell \<Rightarrow> (if r = 0 then asks_at ask m else (9500, r) # asks_at ask m))"

lemma dry_book_start:
  assumes "10000 < ask"
  shows "spec_run (map (resting_op (ten_prices ask)) (both_sides m)) (\<lambda>sd. []) = Some ([], dry_book ask m 0 0)"
proof -
  have "levels (ten_prices ask sd) (\<lambda>i. if i < m then 100 else 0) [0..<m] = dry_book ask m 0 0 sd" for sd
  proof -
    have "levels (ten_prices ask sd) (\<lambda>i. if i < m then 100 else 0) [0..<m] =
        levels (ten_prices ask sd) (\<lambda>i. 100) [0..<m]" by (rule levels_cong) simp
    then show ?thesis
      by (cases sd) (simp_all add: dry_book_def asks_at_def bids_from_def levels_const ten_prices_def)
  qed
  then show ?thesis
    using spec_run_both_sides [OF apart_ten [OF assms], of m] by (simp add: ladder_book_def)
qed

lemma rest_9500:
  assumes "10000 < ask" and "0 < q"
  shows "rest_level Sell 9500 q (dry_book ask m k r Sell) = dry_book ask m k (r + q) Sell"
  using assms by (cases "asks_at ask m") (auto simp: dry_book_def asks_at_def levels_def map_eq_Cons_conv ten_prices_def)

lemma dry_book_sell:
  assumes "10000 < ask" and "k \<le> m" and "m \<le> 51"
  shows "k + c \<le> m \<Longrightarrow> spec_add Sell 9500 (c * 100) (dry_book ask m k r) =
      Some (bids_from k (k + c), dry_book ask m (k + c) r)"
    and "(m - k) * 100 < q \<Longrightarrow> spec_add Sell 9500 q (dry_book ask m k r) =
      Some (bids_from k m, dry_book ask m m (r + (q - (m - k) * 100)))"
proof -
  have ok: "list_all (\<lambda>(x, n). within_limit Sell 9500 x \<and> 0 < n \<and> n < 2 ^ 32) (bids_from k j)" if "j \<le> m" for j
    using that assms(3) by (auto simp: bids_from_def list_all_iff)
  have total: "total_qty (bids_from k j) = (j - k) * 100" for j
    using total_qty_const [of "\<lambda>i. 10000 - int i * 10" 100 "[k..<j]"] by (simp only: bids_from_def) simp
  show "spec_add Sell 9500 (c * 100) (dry_book ask m k r) =
      Some (bids_from k (k + c), dry_book ask m (k + c) r)" if "k + c \<le> m"
  proof -
    have "bids_from k m = bids_from k (k + c) @ bids_from (k + c) m"
      using that upt_add_eq_append [of k "k + c" "m - (k + c)"] by (simp add: bids_from_def)
    then have "spec_add Sell 9500 (c * 100) (dry_book ask m k r) =
        Some (bids_from k (k + c), (dry_book ask m k r)(opposite Sell := bids_from (k + c) m))"
      using ok [OF that] total [of "k + c"] by (intro spec_add_eats) (simp_all add: dry_book_def)
    then show ?thesis by (simp add: dry_book_def fun_eq_iff split: side.split)
  qed
  show "spec_add Sell 9500 q (dry_book ask m k r) =
      Some (bids_from k m, dry_book ask m m (r + (q - (m - k) * 100)))" if "(m - k) * 100 < q"
  proof -
    have "spec_add Sell 9500 q (dry_book ask m k r) = Some (bids_from k m,
        (dry_book ask m k r)(opposite Sell := [], Sell := rest_level Sell 9500 (q - total_qty (bids_from k m)) (dry_book ask m k r Sell)))"
      using ok [OF order_refl] total [of m] that by (intro spec_add_eats_all) (simp_all add: dry_book_def)
    moreover have "(dry_book ask m k r)(opposite Sell := [], Sell := dry_book ask m k s Sell) = dry_book ask m m s" for s
      by (simp add: dry_book_def bids_from_def fun_eq_iff split: side.split)
    ultimately show ?thesis
      using that rest_9500 [OF assms(1), of "q - (m - k) * 100" m k r] by (simp only: total zero_less_diff)
  qed
qed

text \<open>Only the first fifty iterations of \<^verbatim>\<open>orderbook_with_matching\<close> match; all later sells rest.\<close>

lemma with_matching_runs_dry:
  assumes "n < 1000000"
  shows "\<exists>ob cs. orderbook_with_matching tsc to_ns clock d n = Some (ob, cs) \<and>
    abs_book ob = dry_book 10100 50 (min n 50) ((n - 50) * 100) \<and>
    reported_fills ob = [] @ concat (map (\<lambda>k. bids_from k (min (Suc k) 50)) [0..<n])"
  unfolding orderbook_with_matching_def
proof (rule bench_rounds [where ops = "[Add Sell 9500 100 Limit]" and
      bk = "\<lambda>k. dry_book 10100 50 (min k 50) ((k - 50) * 100)"])
  show "spec_run with_matching_setup (\<lambda>sd. []) = Some ([], dry_book 10100 50 (min 0 50) ((0 - 50) * 100))"
    using dry_book_start [of 10100 50] by (simp add: setups_both_sides)
next
  fix k
  show "spec_run [Add Sell 9500 100 Limit] (dry_book 10100 50 (min k 50) ((k - 50) * 100)) =
      Some (bids_from k (min (Suc k) 50), dry_book 10100 50 (min (Suc k) 50) ((Suc k - 50) * 100))"
  proof (cases "k < 50")
    case True
    then show ?thesis using dry_book_sell(1) [of 10100 k 50 1 0] by (simp add: min_def)
  next
    case False
    then have "bids_from k 50 = bids_from 50 50" by (simp add: bids_from_def)
    moreover have "(Suc k - 50) * 100 = (k - 50) * 100 + 100" using False by simp
    moreover have "min k 50 = 50" "min (Suc k) 50 = 50" using False by simp_all
    ultimately show ?thesis
      using dry_book_sell(2) [of 10100 50 50 100 "(k - 50) * 100"] by simp
  qed
qed (use assms in \<open>simp_all add: book_step_run setups_both_sides list_all_iff\<close>)

text \<open>The first sell of \<^verbatim>\<open>realistic_multi_level_match\<close> crosses fifteen levels, the second the last
  five, and every later one rests.\<close>

lemma multi_level_runs_dry:
  assumes "n < 1000000"
  shows "\<exists>ob cs. realistic_multi_level_match tsc to_ns clock d n = Some (ob, cs) \<and>
    abs_book ob = dry_book 10001 20 (min (15 * n) 20) (n * 1500 - 2000) \<and>
    reported_fills ob = [] @ concat (map (\<lambda>k. bids_from (15 * k) (min (15 * Suc k) 20)) [0..<n])"
  unfolding realistic_multi_level_match_def
proof (rule bench_rounds [where ops = "[Add Sell 9500 1500 Limit]" and
      bk = "\<lambda>k. dry_book 10001 20 (min (15 * k) 20) (k * 1500 - 2000)"])
  show "spec_run multi_level_setup (\<lambda>sd. []) = Some ([], dry_book 10001 20 (min (15 * 0) 20) (0 * 1500 - 2000))"
    using dry_book_start [of 10001 20] by (simp add: setups_both_sides)
next
  fix k
  show "spec_run [Add Sell 9500 1500 Limit] (dry_book 10001 20 (min (15 * k) 20) (k * 1500 - 2000)) =
      Some (bids_from (15 * k) (min (15 * Suc k) 20), dry_book 10001 20 (min (15 * Suc k) 20) (Suc k * 1500 - 2000))"
  proof (cases "k = 0")
    case True
    then show ?thesis using dry_book_sell(1) [of 10001 0 20 15 0] by simp
  next
    case False
    define a where "a = min (15 * k) 20"
    have "(20 - a) * 100 < 1500" "k * 1500 - 2000 + (1500 - (20 - a) * 100) = Suc k * 1500 - 2000"
      "min (15 * Suc k) 20 = 20" "a \<le> 20"
      using False by (auto simp: a_def min_def)
    moreover have "bids_from (15 * k) 20 = bids_from a 20" by (auto simp: a_def bids_from_def min_def)
    ultimately show ?thesis
      using dry_book_sell(2) [of 10001 a 20 1500 "k * 1500 - 2000"] by (simp flip: a_def)
  qed
qed (use assms in \<open>simp_all add: book_step_run setups_both_sides list_all_iff\<close>)

subsection \<open>Sequential additions\<close>

text \<open>Every buy but the first of a pass takes the sell before it; the first buy and the last sell
  of each pass stay.\<close>

definition seq_op :: "nat \<Rightarrow> book_op" where
  "seq_op i = Add (if i mod 2 = 0 then Buy else Sell) (10000 + int i) 100 Limit"

definition seq_book :: "nat \<Rightarrow> nat \<Rightarrow> side \<Rightarrow> (int \<times> nat) list" where
  "seq_book b a sd = (case sd of Buy \<Rightarrow> if b = 0 then [] else [(10000, b)] | Sell \<Rightarrow> if a = 0 then [] else [(10999, a)])"

lemma seq_pair:
  assumes "j < 499"
  shows "spec_run (map seq_op [2 * j + 1, 2 * j + 2]) (seq_book b a) = Some ([(10001 + 2 * int j, 100)], seq_book b a)"
proof -
  let ?p = "10001 + 2 * int j"
  let ?bk = "(seq_book b a)(Sell := (?p, 100) # seq_book b a Sell)"
  have "rest_level Sell ?p 100 (seq_book b a Sell) = (?p, 100) # seq_book b a Sell"
    using assms by (simp add: seq_book_def)
  then have "spec_add Sell ?p 100 (seq_book b a) = Some ([], ?bk)"
    using spec_add_rests [of "seq_book b a" Sell ?p 100] by (simp add: seq_book_def)
  moreover have "spec_add Buy (10002 + 2 * int j) 100 ?bk = Some ([(?p, 100)], ?bk(Sell := seq_book b a Sell))"
    using spec_add_eats [of ?bk Buy "[(?p, 100)]" "seq_book b a Sell" "10002 + 2 * int j" 100] by simp
  moreover have "?bk(Sell := seq_book b a Sell) = seq_book b a" by simp
  moreover have "map seq_op [2 * j + 1, 2 * j + 2] = [Add Sell ?p 100 Limit, Add Buy (10002 + 2 * int j) 100 Limit]"
  proof -
    have "(2 * j + 1) mod 2 = 1" "(2 * j + 2) mod 2 = 0" by presburger+
    then show ?thesis by (simp add: seq_op_def)
  qed
  moreover have "unat (100 :: u32) = 100" by simp
  ultimately show ?thesis by (simp only: spec_run.simps option.case prod.case option.map append.simps)
qed

lemma seq_pairs:
  "m \<le> 499 \<Longrightarrow> spec_run (map seq_op [1..<2 * m + 1]) (seq_book b a) =
     Some (map (\<lambda>j. (10001 + 2 * int j, 100)) [0..<m], seq_book b a)"
proof (induction m)
  case (Suc m)
  have "[1..<2 * Suc m + 1] = [1..<2 * m + 1] @ [2 * m + 1, 2 * m + 2]" by simp
  then show ?case
    using Suc seq_pair [of m] by (simp only: map_append spec_run_append option.case prod.case) simp
qed simp

lemma seq_pass:
  "spec_run (map seq_op [0..<1000]) (seq_book (k * 100) (k * 100)) =
     Some (map (\<lambda>j. (10001 + 2 * int j, 100)) [0..<499], seq_book (Suc k * 100) (Suc k * 100))"
proof -
  have "[999..<1000 :: nat] = [999]" by simp
  then have upt: "[0..<1000] = [0] @ [1..<2 * 499 + 1] @ [999]"
    using upt_add_eq_append [of 0 1 998] upt_add_eq_append [of 0 999 1] by (simp del: upt_rec_numeral)
  have first: "spec_run (map seq_op [0]) (seq_book (k * 100) (k * 100)) = Some ([], seq_book (Suc k * 100) (k * 100))"
    using spec_add_rests [of "seq_book (k * 100) (k * 100)" Buy 10000 100]
    by (simp add: seq_op_def) (auto simp: seq_book_def fun_eq_iff split: side.split)
  have last: "spec_run (map seq_op [999]) (seq_book (Suc k * 100) (k * 100)) = Some ([], seq_book (Suc k * 100) (Suc k * 100))"
    using spec_add_rests [of "seq_book (Suc k * 100) (k * 100)" Sell 10999 100]
    by (simp add: seq_op_def) (auto simp: seq_book_def fun_eq_iff split: side.split)
  show ?thesis
    unfolding upt map_append
    by (simp only: spec_run_append first last seq_pairs [OF order_refl] option.case prod.case option.map append_Nil append_Nil2)
qed

lemma sequential_adds_fills:
  assumes "n \<le> 1000"
  shows "\<exists>ob cs. orderbook_sequential_adds tsc to_ns clock d n = Some (ob, cs) \<and>
    abs_book ob = seq_book (n * 100) (n * 100) \<and>
    reported_fills ob = concat (map (\<lambda>k. map (\<lambda>j. (10001 + 2 * int j, 100)) [0..<499]) [0..<n])"
  unfolding orderbook_sequential_adds_def
proof (rule bench_book_spec [where ops = "concat (replicate n (map seq_op [0..<1000]))"])
  fix ob
  show "iterate (\<lambda>i. book_step tsc (Add (if i mod 2 = 0 then Buy else Sell) (10000 + int i) 100 Limit))
      (concat (replicate n [0..<1000])) ob = run_ops tsc (concat (replicate n (map seq_op [0..<1000]))) ob"
    using iterate_book_step [of tsc seq_op "concat (replicate n [0..<1000])"]
    by (simp add: seq_op_def map_concat del: upt_rec_numeral upt_Suc)
next
  have "seq_book (0 * 100) (0 * 100) = (\<lambda>sd. [])" by (simp add: seq_book_def fun_eq_iff split: side.split)
  then show "spec_run ([] @ concat (replicate n (map seq_op [0..<1000]))) (\<lambda>sd. []) =
      Some (concat (map (\<lambda>k. map (\<lambda>j. (10001 + 2 * int j, 100)) [0..<499]) [0..<n]), seq_book (n * 100) (n * 100))"
    using spec_run_repeat [of n "map seq_op [0..<1000]" "\<lambda>k. seq_book (k * 100) (k * 100)"
        "\<lambda>k. map (\<lambda>j. (10001 + 2 * int j, 100)) [0..<499]", OF seq_pass]
    by (simp only: append_Nil)
next
  show "length ([] @ concat (replicate n (map seq_op [0..<1000]))) < 2 ^ 20"
    using assms by (simp add: length_concat sum_list_replicate del: upt_rec_numeral upt_Suc)
next
  show "list_all submission ([] @ concat (replicate n (map seq_op [0..<1000])))"
    by (auto simp: list_all_iff seq_op_def simp del: upt_rec_numeral upt_Suc)
qed (simp add: list_all_iff)

end
