(* ===== verification/Bench_Churn.thy ===== *)
theory Bench_Churn
  imports Bench_Book Tsc_Clock
begin

text \<open>
  The two workloads that keep the ids of their orders and cancel some of them: \<^verbatim>\<open>realistic_order_churn\<close>
  of \<^verbatim>\<open>bench_realistic.cpp\<close> and \<^verbatim>\<open>profile_realistic_workload_mix\<close> of \<^verbatim>\<open>bench_profiling.cpp\<close>. The values
  drawn from the random generators are the inputs of the iterations.
\<close>

record churn =
  ch_book :: order_book
  ch_order_ids :: "u64 list"
  ch_latencies :: "u64 list"
  ch_timed :: nat

definition churn_new :: "(u64 \<Rightarrow> u32) \<Rightarrow> churn" where
  "churn_new d = \<lparr>ch_book = order_book_new 1 d, ch_order_ids = [], ch_latencies = [], ch_timed = 0\<rparr>"

text \<open>The readings around the next timed operation, and its sample.\<close>

definition lap :: "(u64 \<Rightarrow> u64) \<Rightarrow> (nat \<Rightarrow> u64 \<times> u64) \<Rightarrow> churn \<Rightarrow> churn" where
  "lap to_ns clock s =
     (let (tsc_start, tsc_end) = clock (ch_timed s)
      in s\<lparr>ch_latencies := record_latency 100000 (to_ns (tsc_end - tsc_start)) (ch_latencies s),
           ch_timed := ch_timed s + 1\<rparr>)"

definition submit_tracked :: "(nat \<Rightarrow> u64) \<Rightarrow> side \<Rightarrow> int \<Rightarrow> u32 \<Rightarrow> churn \<Rightarrow> churn option" where
  "submit_tracked tsc sd p q s =
     map_option (\<lambda>(oid, ob). s\<lparr>ch_book := ob,
         ch_order_ids := (if oid > 0 then ch_order_ids s @ [oid] else ch_order_ids s)\<rparr>)
       (add_order tsc sd p q Limit (ch_book s))"

definition cancel_back :: "churn \<Rightarrow> churn" where
  "cancel_back s = s\<lparr>ch_book := snd (cancel_order (last (ch_order_ids s)) (ch_book s)),
     ch_order_ids := butlast (ch_order_ids s)\<rparr>"

subsection \<open>realistic_order_churn\<close>






subsection \<open>profile_realistic_workload_mix\<close>

text \<open>An iteration draws an action, and for an addition a side, a price and a quantity.\<close>

definition mix_action :: "(nat \<Rightarrow> u64) \<Rightarrow> nat \<times> bool \<times> int \<times> u32 \<Rightarrow> churn \<Rightarrow> churn option" where
  "mix_action tsc = (\<lambda>(action, coin, p, q) s.
     if action < 70 then submit_tracked tsc (if coin then Buy else Sell) p q s
     else if action < 90 \<and> ch_order_ids s \<noteq> [] then Some (cancel_back s)
     else Some s)"

text \<open>The mean and the standard deviation, over reals with the rounding \<open>rnd\<close> after every
  operation.\<close>

definition mean_of :: "(real \<Rightarrow> real) \<Rightarrow> u64 list \<Rightarrow> real" where
  "mean_of rnd ls =
     rnd (fold (\<lambda>l acc. rnd (acc + rnd (real (unat l)))) ls 0 / rnd (real (length ls)))"

definition variance_sum :: "(real \<Rightarrow> real) \<Rightarrow> real \<Rightarrow> u64 list \<Rightarrow> real" where
  "variance_sum rnd mean ls =
     fold (\<lambda>l acc. let dev = rnd (rnd (real (unat l)) - mean) in rnd (acc + rnd (dev * dev))) ls 0"

text \<open>A square root of a negative number is not a number.\<close>

definition stddev_of :: "(real \<Rightarrow> real) \<Rightarrow> real \<Rightarrow> u64 list \<Rightarrow> real option" where
  "stddev_of rnd mean ls =
     (let v = rnd (variance_sum rnd mean ls / rnd (real (length ls)))
      in if v < 0 then None else Some (rnd (sqrt v)))"

definition profile_realistic_workload_mix ::
  "(real \<Rightarrow> real) \<Rightarrow> (nat \<Rightarrow> u64) \<Rightarrow> (nat \<Rightarrow> u64 \<times> u64) \<Rightarrow> (u64 \<Rightarrow> u32) \<Rightarrow> (nat \<times> bool \<times> int \<times> u32) list \<Rightarrow>
   (churn \<times> counters \<times> (real \<times> real option) option) option" where
  "profile_realistic_workload_mix rnd tsc clock d inputs =
     (case iterate (\<lambda>x s. map_option (lap (\<lambda>c. c) clock) (mix_action tsc x s)) inputs (churn_new d) of None \<Rightarrow> None
      | Some s \<Rightarrow>
          let ls = sort (ch_latencies s); mean = mean_of rnd ls
          in map_option (\<lambda>cs. (s, cs, if ls = [] then None else Some (mean, stddev_of rnd mean ls)))
               (report [(''p50_cycles'', P50), (''p95_cycles'', P95), (''p99_cycles'', P99), (''p99.9_cycles'', P99_9)]
                 (Some ''max_cycles'') (ch_latencies s)))"

subsection \<open>Invariant\<close>

text \<open>After \<open>k\<close> submissions of at most \<open>m\<close> each: the ids so far, and the slots that are left.\<close>

definition churn_inv :: "nat \<Rightarrow> nat \<Rightarrow> churn \<Rightarrow> bool" where
  "churn_inv m k s \<longleftrightarrow> book_inv (ch_book s) \<and> levels_within (m * k) (abs_book (ch_book s)) \<and>
     next_order_id (ch_book s) = of_nat (k + 1) \<and> 2 ^ 20 \<le> length (free_slots (ch_book s)) + k + 1"

lemma lap_simps [simp]:
  "ch_book (lap to_ns clock s) = ch_book s" "ch_order_ids (lap to_ns clock s) = ch_order_ids s"
  by (simp_all add: lap_def case_prod_unfold Let_def)

lemma churn_inv_lap [simp]: "churn_inv m k (lap to_ns clock s) = churn_inv m k s"
  by (simp add: churn_inv_def)

lemma churn_inv_new: "churn_inv m 0 (churn_new d)"
  by (simp add: churn_inv_def churn_new_def book_inv_new levels_within_new new_free_list(2))

lemma cancel_order_free_length:
  assumes "book_inv ob"
  shows "length (free_slots ob) \<le> length (free_slots (snd (cancel_order oid ob)))"
proof (cases rule: cancel_order_cases [of oid ob])
  case (accepted slot)
  have "spsc_inv MAX_ORDERS (free_list ob)" using assms by (simp add: book_inv_def pool_inv_def)
  from spsc.push_elems [OF this, of slot] show ?thesis by (simp add: accepted(4))
qed simp

lemma cancel_back_inv:
  assumes "churn_inv m k s"
  shows "churn_inv m k (cancel_back s)" and "abs_book (ch_book (cancel_back s)) = abs_book (ch_book s)"
proof -
  let ?ob = "snd (cancel_order (last (ch_order_ids s)) (ch_book s))"
  have inv: "book_inv (ch_book s)" "levels_within (m * k) (abs_book (ch_book s))"
    using assms by (simp_all add: churn_inv_def)
  have abs: "abs_book ?ob = abs_book (ch_book s)"
    using cancel_order_ladders [OF inv] by (intro abs_book_cong) simp_all
  then show "abs_book (ch_book (cancel_back s)) = abs_book (ch_book s)" by (simp add: cancel_back_def)
  show "churn_inv m k (cancel_back s)"
    using assms abs cancel_order_inv [OF inv(1)] cancel_order_free_length [OF inv(1), of "last (ch_order_ids s)"]
    by (simp add: churn_inv_def cancel_back_def cancel_order_next_id)
qed

lemma submit_tracked_inv:
  assumes "churn_inv m k s" and "unat q \<le> m" and "m * (k + 1) < 2 ^ 32" and "k + 1 < 2 ^ 20"
  shows "\<exists>s' fs. submit_tracked tsc sd p q s = Some s' \<and> churn_inv m (k + 1) s' \<and>
    ch_order_ids s' = ch_order_ids s @ [of_nat (k + 1)] \<and>
    spec_add sd p (unat q) (abs_book (ch_book s)) = Some (fs, abs_book (ch_book s'))"
proof -
  let ?ob = "ch_book s"
  have inv: "book_inv ?ob" "levels_within (m * k) (abs_book ?ob)" "next_order_id ?ob = of_nat (k + 1)"
    and len: "2 ^ 20 \<le> length (free_slots ?ob) + k + 1"
    using assms(1) by (simp_all add: churn_inv_def)
  obtain slot slots where free: "free_slots ?ob = slot # slots" using len assms(4) by (cases "free_slots ?ob") auto
  have le: "m * k + unat q < 2 ^ 32" using assms(2,3) by (simp add: algebra_simps)
  obtain oid ob' where add: "add_order tsc sd p q Limit ?ob = Some (oid, ob')"
    using add_order_returns [OF inv(1,2) le] by blast
  have small: "\<forall>l \<in> set (abs_book ?ob sd'). snd l < 2 ^ 32" for sd'
    using inv(2) le unfolding levels_within_def by (meson le_less_trans le_add1)
  obtain fs r rest where sw: "sweep (within_limit sd p) (unat q) (abs_book ?ob (opposite sd)) = Some (fs, r, rest)"
    using sweep_defined [of "abs_book ?ob (opposite sd)" "within_limit sd p" "unat q"] small by blast
  then obtain bk where bk: "spec_add sd p (unat q) (abs_book ?ob) = Some (fs, bk)" by (simp add: spec_add_def)
  have room: "room_for (unat q) (own_ladder sd ?ob)" using room_for_within [OF inv(2)] le by simp
  have res: "oid = of_nat (k + 1)" "abs_book ob' = bk"
    using add_order_spec [OF inv(1) order_type.distinct(3) _ room, of tsc p] bk add free inv(3) by auto
  have "0 < (of_nat (k + 1) :: u64)"
    using assms(4) by (simp only: word_less_nat_alt unat_of_nat) simp
  moreover have "levels_within (m * (k + 1)) (abs_book ob')"
    using levels_within_mono [OF add_order_within [OF inv(1,2) _ add]] le assms(2) by (simp add: algebra_simps)
  moreover have "length (free_slots ?ob) \<le> length (free_slots ob') + 1"
    using add_order_free_slots(1) [OF inv(1) _ free sw add] free by simp
  ultimately show ?thesis
    using res bk add len inv(3) add_order_inv [OF inv(1) add] add_order_next_id [OF inv(1) add]
    by (simp add: submit_tracked_def churn_inv_def)
qed

subsection \<open>Rounds\<close>








subsection \<open>The mix of actions\<close>

lemma mix_action_inv:
  assumes "churn_inv 1000 k s" and "unat (snd (snd (snd x))) \<le> 1000" and "k < 1000000"
  shows "\<exists>s' k'. mix_action tsc x s = Some s' \<and> churn_inv 1000 k' s' \<and> k' \<le> k + 1"
proof -
  obtain action coin p q where x: "x = (action, coin, p, q)" by (cases x)
  show ?thesis
  proof (cases "action < 70")
    case True
    obtain s' where "submit_tracked tsc (if coin then Buy else Sell) p q s = Some s'" "churn_inv 1000 (k + 1) s'"
      using submit_tracked_inv [OF assms(1), of q tsc "if coin then Buy else Sell" p] assms(2,3)
      by (auto simp: x)
    then show ?thesis using True by (auto simp: x mix_action_def)
  next
    case False
    then show ?thesis using assms(1) cancel_back_inv(1) [OF assms(1)] by (auto simp: x mix_action_def)
  qed
qed

lemma mix_returns:
  assumes "length inputs \<le> 1000000" and "\<forall>x \<in> set inputs. unat (snd (snd (snd x))) \<le> 1000"
  shows "\<exists>s cs m. profile_realistic_workload_mix rnd tsc clock d inputs = Some (s, cs, m) \<and> book_inv (ch_book s)"
proof -
  have "\<exists>s'. iterate (\<lambda>x s. map_option (lap (\<lambda>c. c) clock) (mix_action tsc x s)) xs s = Some s' \<and> book_inv (ch_book s')"
    if "churn_inv 1000 k s" "k + length xs \<le> 1000000" "\<forall>x \<in> set xs. unat (snd (snd (snd x))) \<le> 1000" for k s xs
    using that
  proof (induction xs arbitrary: k s)
    case (Cons x xs)
    obtain s1 k' where s1: "mix_action tsc x s = Some s1" "churn_inv 1000 k' s1" "k' \<le> k + 1"
      using mix_action_inv [OF Cons.prems(1), of x tsc] Cons.prems(2,3) by auto
    have "churn_inv 1000 k' (lap (\<lambda>c. c) clock s1)" "k' + length xs \<le> 1000000" "\<forall>x \<in> set xs. unat (snd (snd (snd x))) \<le> 1000"
      using s1(2,3) Cons.prems(2,3) by simp_all
    from Cons.IH [OF this] s1(1) show ?case by simp
  qed (simp add: churn_inv_def)
  from this [OF churn_inv_new, of inputs d] assms obtain s where
    "iterate (\<lambda>x s. map_option (lap (\<lambda>c. c) clock) (mix_action tsc x s)) inputs (churn_new d) = Some s" "book_inv (ch_book s)"
    by auto
  moreover obtain cs where "report [(''p50_cycles'', P50), (''p95_cycles'', P95), (''p99_cycles'', P99), (''p99.9_cycles'', P99_9)]
      (Some ''max_cycles'') (ch_latencies s) = Some cs"
    using report_defined [of "[(''p50_cycles'', P50), (''p95_cycles'', P95), (''p99_cycles'', P99), (''p99.9_cycles'', P99_9)]"
        "Some ''max_cycles''" "ch_latencies s"] by auto
  ultimately show ?thesis by (simp add: profile_realistic_workload_mix_def Let_def)
qed

text \<open>The sum of squares cannot become negative by rounding, so the square root is defined.\<close>

lemma stddev_defined:
  assumes "ieee_rounding rnd"
  shows "\<exists>v \<ge> 0. stddev_of rnd mean ls = Some v"
proof -
  have "0 \<le> fold (\<lambda>l acc. let dev = rnd (rnd (real (unat l)) - mean) in rnd (acc + rnd (dev * dev))) ls acc"
    if "0 \<le> acc" for acc
    using that
  proof (induction ls arbitrary: acc)
    case (Cons l ls)
    let ?dev = "rnd (rnd (real (unat l)) - mean)"
    have "0 \<le> rnd (acc + rnd (?dev * ?dev))"
      by (intro rnd_nonneg [OF assms] add_nonneg_nonneg Cons.prems) simp
    then show ?case using Cons.IH by (simp only: fold_simps Let_def)
  qed simp
  then have "0 \<le> variance_sum rnd mean ls" by (simp add: variance_sum_def)
  then have "0 \<le> rnd (variance_sum rnd mean ls / rnd (real (length ls)))"
    using rnd_nonneg [OF assms, of "real (length ls)"] by (intro rnd_nonneg [OF assms] divide_nonneg_nonneg) simp_all
  then show ?thesis
    using rnd_nonneg [OF assms, of "sqrt (rnd (variance_sum rnd mean ls / rnd (real (length ls))))"]
    by (simp add: stddev_of_def Let_def not_less)
qed

subsection \<open>Properties\<close>



end
