(* ===== verification/Bench_Micro.thy ===== *)
theory Bench_Micro
  imports Latency_Stats Tsc_Clock
begin

text \<open>
  The hardware benchmarks of \<^verbatim>\<open>bench_profiling.cpp\<close>: memory bandwidth, cache misses and branch
  prediction. They add up \<^verbatim>\<open>int\<close> values in a volatile variable, so what matters is when the sum
  leaves the range of \<^verbatim>\<open>int\<close>, which is undefined (\<open>None\<close>). Counters are reals with the rounding
  \<open>rnd\<close>; each iteration overwrites the counter, so the last one stays.
\<close>

subsection \<open>Machine operations\<close>

definition int_add :: "int \<Rightarrow> int \<Rightarrow> int option" where
  "int_add a b = (let c = a + b in if - (2 ^ 31) \<le> c \<and> c < 2 ^ 31 then Some c else None)"

definition vec_at :: "'a list \<Rightarrow> int \<Rightarrow> 'a option" where
  "vec_at v i = (if 0 \<le> i \<and> i < int (length v) then Some (v ! nat i) else None)"

text \<open>The counter after \<open>n\<close> iterations: the cycles of the last one, divided.\<close>

definition last_counter :: "(real \<Rightarrow> real) \<Rightarrow> (nat \<Rightarrow> u64 \<times> u64) \<Rightarrow> real \<Rightarrow> nat \<Rightarrow> real option" where
  "last_counter rnd clock by n =
     (if n = 0 then None
      else let (tsc_start, tsc_end) = clock (n - 1)
           in Some (rnd (rnd (real (unat (tsc_end - tsc_start))) / by)))"

subsection \<open>Memory bandwidth\<close>

definition bandwidth_data :: "u8 list" where
  "bandwidth_data = replicate (10000 * 64) 42"

definition bandwidth_pass :: "u64 \<Rightarrow> u64 option" where
  "bandwidth_pass = iterate (\<lambda>i sum. map_option (\<lambda>v. sum + ucast v) (vec_at bandwidth_data i))
     (map (\<lambda>i. int i * 64) [0..<10000])"

definition profile_memory_bandwidth ::
  "(real \<Rightarrow> real) \<Rightarrow> (nat \<Rightarrow> u64 \<times> u64) \<Rightarrow> nat \<Rightarrow> (u64 \<times> real option) option" where
  "profile_memory_bandwidth rnd clock n =
     map_option (\<lambda>sum. (sum, last_counter rnd clock (rnd (real (10000 * 64) / 1024)) n))
       (iterate (\<lambda>_. bandwidth_pass) (replicate n ()) 0)"

subsection \<open>Cache misses\<close>

definition chase_data :: "int list" where
  "chase_data = map (\<lambda>i. int ((i + 1) mod 1000000)) [0..<1000000]"

definition chase :: "int \<times> int \<Rightarrow> (int \<times> int) option" where
  "chase = (\<lambda>(idx, sum). case vec_at chase_data idx of None \<Rightarrow> None
     | Some idx' \<Rightarrow> map_option (Pair idx') (int_add sum idx'))"

definition profile_cache_miss_latency ::
  "(real \<Rightarrow> real) \<Rightarrow> (nat \<Rightarrow> u64 \<times> u64) \<Rightarrow> nat \<Rightarrow> ((int \<times> int) \<times> real option) option" where
  "profile_cache_miss_latency rnd clock n =
     map_option (\<lambda>s. (s, last_counter rnd clock 1000 n))
       (iterate (\<lambda>_. iterate (\<lambda>_. chase) (replicate 1000 ())) (replicate n ()) (0, 0))"

subsection \<open>Branch prediction\<close>

text \<open>The values drawn from the generator are an argument.\<close>

definition branch_pass :: "int list \<Rightarrow> int \<Rightarrow> int option" where
  "branch_pass = iterate (\<lambda>v sum. if v \<ge> 128 then int_add sum v else Some sum)"

definition profile_branch_prediction ::
  "(real \<Rightarrow> real) \<Rightarrow> (nat \<Rightarrow> u64 \<times> u64) \<Rightarrow> int list \<Rightarrow> nat \<Rightarrow> (int \<times> real option) option" where
  "profile_branch_prediction rnd clock values n =
     map_option (\<lambda>sum. (sum, last_counter rnd clock (rnd (real (length values))) n))
       (iterate (\<lambda>_. branch_pass values) (replicate n ()) 0)"

subsection \<open>What the loops compute\<close>

lemma iterate_concat:
  "iterate (\<lambda>_. iterate body xs) (replicate n ()) s = iterate body (concat (replicate n xs)) s"
  by (induction n arbitrary: s) (simp_all add: iterate_append split: option.split)

lemma concat_replicate_units: "concat (replicate n (replicate m ())) = replicate (n * m) ()"
  by (induction n) (simp_all add: replicate_add)

lemma int_add_nonneg: "0 \<le> a \<Longrightarrow> 0 \<le> b \<Longrightarrow> int_add a b = (if a + b < 2 ^ 31 then Some (a + b) else None)"
  by (simp add: int_add_def Let_def)

lemma vec_at_replicate: "0 \<le> i \<Longrightarrow> i < int n \<Longrightarrow> vec_at (replicate n x) i = Some x"
  by (simp add: vec_at_def)

lemma bandwidth_pass_sum: "bandwidth_pass acc = Some (acc + 420000)"
proof -
  have all: "iterate (\<lambda>i acc. map_option (\<lambda>v. acc + ucast v) (vec_at bandwidth_data i)) (map (\<lambda>i. int i * 64) is) acc =
      Some (acc + of_nat (42 * length is))" if "\<forall>i \<in> set is. i < 10000" for "is" :: "nat list" and acc :: u64
    using that
  proof (induction "is" arbitrary: acc)
    case (Cons i "is")
    have "vec_at bandwidth_data (int i * 64) = Some 42"
    proof -
      have "i < 10000" using Cons.prems by simp
      then have "int i * 64 < int (10000 * 64)" by linarith
      then show ?thesis unfolding bandwidth_data_def by (intro vec_at_replicate) simp
    qed
    moreover have "acc + 42 + of_nat (42 * length is) = acc + of_nat (42 * length (i # is))" by simp
    moreover have "\<forall>i \<in> set is. i < 10000" using Cons.prems by simp
    ultimately show ?case using Cons.IH [of "acc + 42"] by (simp only: list.map iterate.simps option.map option.case) simp
  qed simp
  have "bandwidth_pass acc = Some (acc + of_nat (42 * length [0..<10000]))"
    unfolding bandwidth_pass_def by (rule all) (auto simp del: upt_rec_numeral)
  then show ?thesis by (simp only: length_upt) simp
qed

lemma memory_bandwidth_sum: "map_option fst (profile_memory_bandwidth rnd clock n) = Some (of_nat (n * 420000))"
proof -
  have "iterate (\<lambda>_. bandwidth_pass) (replicate n ()) acc = Some (acc + of_nat (n * 420000))" for acc
    by (induction n arbitrary: acc) (simp_all add: bandwidth_pass_sum algebra_simps)
  then show ?thesis by (simp add: profile_memory_bandwidth_def)
qed

text \<open>The chain of indices is 0, 1, 2 and so on, so the sum is a triangular number.\<close>

lemma chase_step:
  assumes "j < 999999" and "0 \<le> s"
  shows "chase (int j, s) = (if s + int (j + 1) < 2 ^ 31 then Some (int (j + 1), s + int (j + 1)) else None)"
proof -
  have "vec_at chase_data (int j) = Some (int (j + 1))"
    using assms(1) by (simp add: vec_at_def chase_data_def del: upt_rec_numeral upt_Suc)
  then show ?thesis using int_add_nonneg [OF assms(2), of "int (j + 1)"] by (simp add: chase_def)
qed

lemma chase_prefix: "j \<le> 65535 \<Longrightarrow> iterate (\<lambda>_. chase) (replicate j ()) (0, 0) = Some (int j, int (j * (j + 1) div 2))"
proof (induction j)
  case (Suc j)
  have tri: "j * (j + 1) div 2 + (j + 1) = Suc j * (Suc j + 1) div 2" by simp
  have "Suc j * (Suc j + 1) \<le> 65535 * (65535 + 1)" using Suc.prems by (intro mult_le_mono) simp_all
  then have "Suc j * (Suc j + 1) div 2 < 2 ^ 31" by simp
  then have "chase (int j, int (j * (j + 1) div 2)) = Some (int (Suc j), int (Suc j * (Suc j + 1) div 2))"
    using chase_step [of j "int (j * (j + 1) div 2)"] Suc.prems by (simp only: tri [symmetric]) simp
  then show ?case using Suc
    by (simp only: replicate_Suc flip: replicate_append_same) (simp add: iterate_append)
qed simp

lemma chase_overflow: "65536 \<le> j \<Longrightarrow> iterate (\<lambda>_. chase) (replicate j ()) (0, 0) = None"
proof -
  assume "65536 \<le> j"
  then have j: "replicate j () = replicate 65535 () @ () # replicate (j - 65536) ()"
    by (simp flip: replicate_add replicate_Suc)
  have "chase (65535, 2147450880) = None" using chase_step [of 65535 2147450880] by simp
  then show ?thesis using chase_prefix [of 65535] by (simp add: j iterate_append del: replicate.simps)
qed

subsection \<open>Properties\<close>

text \<open>
  C39. The cache benchmark follows the indices 1, 2, 3, ... in order, a thousand in every
  iteration. It is defined for at most 65 iterations: in the 66th the sum leaves the range
  of \<^verbatim>\<open>int\<close>.
\<close>

theorem cache_miss_overflows:
  "profile_cache_miss_latency rnd clock n =
     (if n \<le> 65 then Some ((int (1000 * n), int (1000 * n * (1000 * n + 1) div 2)), last_counter rnd clock 1000 n)
      else None)"
proof -
  have "iterate (\<lambda>_. iterate (\<lambda>_. chase) (replicate 1000 ())) (replicate n ()) (0, 0) =
      iterate (\<lambda>_. chase) (replicate (n * 1000) ()) (0, 0)"
    by (simp only: iterate_concat concat_replicate_units)
  then show ?thesis
    using chase_prefix [of "1000 * n"] chase_overflow [of "1000 * n"]
    by (simp add: profile_cache_miss_latency_def mult.commute)
qed

text \<open>The sum of the branch benchmark grows by the same amount in every iteration and is
  defined as long as it stays in the range of \<^verbatim>\<open>int\<close>.\<close>

lemma branch_pass_sum:
  assumes "0 \<le> s" and "s < 2 ^ 31"
  shows "branch_pass values s =
    (let t = s + sum_list (filter (\<lambda>v. v \<ge> 128) values) in if t < 2 ^ 31 then Some t else None)"
  unfolding branch_pass_def using assms
proof (induction "values" arbitrary: s)
  case (Cons v vs)
  have pos: "0 \<le> sum_list (filter (\<lambda>v. v \<ge> 128) vs)" by (induction vs) auto
  show ?case
  proof (cases "v \<ge> 128 \<and> \<not> s + v < 2 ^ 31")
    case True
    then show ?thesis using int_add_nonneg [of s v] Cons.prems pos by (auto simp: Let_def)
  next
    case False
    then show ?thesis using int_add_nonneg [of s v] Cons.prems Cons.IH by (auto simp: Let_def add.assoc)
  qed
qed simp

lemma branch_prediction_sum:
  "map_option fst (profile_branch_prediction rnd clock values n) =
     (let t = int n * sum_list (filter (\<lambda>v. v \<ge> 128) values) in if t < 2 ^ 31 then Some t else None)"
proof -
  let ?S = "sum_list (filter (\<lambda>v. v \<ge> 128) values)"
  have pos: "0 \<le> ?S" by (induction "values") auto
  have "iterate (\<lambda>_. branch_pass values) (replicate n ()) s =
      (if s + int n * ?S < 2 ^ 31 then Some (s + int n * ?S) else None)" if "0 \<le> s" "s < 2 ^ 31" for s
    using that
  proof (induction n arbitrary: s)
    case (Suc n)
    have eq: "s + int (Suc n) * ?S = s + ?S + int n * ?S" by (simp add: algebra_simps)
    have le: "s + ?S \<le> s + ?S + int n * ?S" using pos by simp
    show ?case
    proof (cases "s + ?S < 2 ^ 31")
      case True
      then show ?thesis
        using Suc.prems(1) Suc.IH [of "s + ?S"] pos branch_pass_sum [OF Suc.prems, of "values"]
        unfolding eq by (simp add: Let_def)
    next
      case False
      then show ?thesis
        using le branch_pass_sum [OF Suc.prems, of "values"] unfolding eq by (simp add: Let_def)
    qed
  qed simp
  then show ?thesis by (simp add: profile_branch_prediction_def Let_def)
qed

end
