(* ===== verification/Bench_Network.thy ===== *)
theory Bench_Network
  imports Bench_Book Bench_Micro Fix_Pipeline
begin

text \<open>
  The workloads of \<^verbatim>\<open>2_network/bench/bench_fix_pipeline.cpp\<close> and \<^verbatim>\<open>bench_af_xdp.cpp\<close>: parsing, parsing
  into an order book, receiving from a socket, and the two synthetic ones. The system calls
  of the socket are arguments.
\<close>

subsection \<open>bench_fix_pipeline.cpp\<close>

primrec parse_all :: "bytes list \<Rightarrow> fix_message list option" where
  "parse_all [] = Some []"
| "parse_all (b # bs) = (case parse (Some b) of None \<Rightarrow> None | Some m \<Rightarrow> map_option (Cons m) (parse_all bs))"

definition throughput_messages :: "bytes list" where
  "throughput_messages = map (\<lambda>i. make_fix_message (int i) 100 150000 49) [0..<10000]"

text \<open>What is parsed in \<open>n\<close> iterations, and the number of items the harness is told.\<close>

definition fix_parser_throughput :: "nat \<Rightarrow> (fix_message list \<times> u64) option" where
  "fix_parser_throughput n =
     map_option (\<lambda>ms. (ms, of_nat n * of_nat (length throughput_messages)))
       (parse_all (concat (replicate n throughput_messages)))"

definition orderbook_messages :: "bytes list" where
  "orderbook_messages =
     map (\<lambda>i. make_fix_message (int i) 100 (150000 + int i) (if i mod 2 \<noteq> 0 then 49 else 50)) [0..<10000]"

definition fix_parse_with_orderbook ::
  "(nat \<Rightarrow> u64) \<Rightarrow> (u64 \<Rightarrow> u64) \<Rightarrow> (nat \<Rightarrow> u64 \<times> u64) \<Rightarrow> (u64 \<Rightarrow> u32) \<Rightarrow> nat \<Rightarrow> (order_book \<times> u64 list \<times> u64) option" where
  "fix_parse_with_orderbook tsc to_ns clock d n =
     map_option (\<lambda>(ob, latencies). (ob, latencies, of_nat n * of_nat (length orderbook_messages)))
       (timed_loop 100000 to_ns (handle_message tsc) (stamped clock (concat (replicate n orderbook_messages)))
         (order_book_new 1 d) [])"

subsection \<open>bench_af_xdp.cpp\<close>

datatype bench_outcome = Skipped string | Measured counters

text \<open>The outcome and the descriptors closed. \<^verbatim>\<open>bind\<close> is given the port and the address in network
  order, on a little-endian machine.\<close>

definition htons :: "u16 \<Rightarrow> u16" where
  "htons x = (push_bit 8 x) OR (drop_bit 8 x)"

definition received :: "(u64 \<Rightarrow> u64) \<Rightarrow> int \<times> u64 \<times> u64 \<Rightarrow> u64 list \<Rightarrow> u64 list" where
  "received to_ns = (\<lambda>(n, tsc_start, tsc_end) latencies.
     if n > 0 then record_latency 10000 (to_ns (tsc_end - tsc_start)) latencies else latencies)"

definition bench_socket_rx_baseline ::
  "int \<Rightarrow> (int \<Rightarrow> u16 \<Rightarrow> u32 \<Rightarrow> int) \<Rightarrow> (u64 \<Rightarrow> u64) \<Rightarrow> (int \<times> u64 \<times> u64) list \<Rightarrow> (bench_outcome \<times> int list) option" where
  "bench_socket_rx_baseline sock bind_call to_ns rounds =
     (if sock < 0 then Some (Skipped ''Failed to create socket'', [])
      else if bind_call sock (htons 9876) 0 < 0 then Some (Skipped ''Failed to bind socket'', [sock])
      else map_option (\<lambda>cs. (Measured cs, [sock]))
        (report [(''p50_ns'', P50), (''p95_ns'', P95), (''p99_ns'', P99)] None (fold (received to_ns) rounds [])))"

text \<open>The loop that stands for the system call, and a tenth of its median as what AF_XDP would take.\<close>

definition overhead_loop :: "int option" where
  "overhead_loop = iterate (\<lambda>i dummy. int_add dummy (int i)) [0..<3000] 0"

definition bench_kernel_vs_userspace_overhead ::
  "(u64 \<Rightarrow> u64) \<Rightarrow> (nat \<Rightarrow> u64 \<times> u64) \<Rightarrow> nat \<Rightarrow> counters option" where
  "bench_kernel_vs_userspace_overhead to_ns clock n =
     (case timed_loop 10000 to_ns (\<lambda>_ _. overhead_loop) (stamped clock (replicate n ())) 0 [] of None \<Rightarrow> None
      | Some (dummy, latencies) \<Rightarrow>
          if latencies = [] then Some []
          else let ls = sort latencies in
            (case (read_counters [(''socket_overhead_ns'', P50), (''p99_ns'', P99)] ls, percentile 1 2 ls) of
               (Some cs, Some p50) \<Rightarrow> Some (cs @ [(''expected_af_xdp_p50_ns'', p50 div 10)])
             | _ \<Rightarrow> None))"

definition latency_message :: bytes where
  "latency_message = text_bytes (''8=FIX.4.4|9=100|35=D|49=SENDER|56=TARGET|'' @
     ''34=1|52=20240101-12:00:00|55=EUR/USD|54=1|38=1000000|40=2|44=1.0950|'')"

text \<open>The message the timed code makes; \<^verbatim>\<open>strlen\<close> counts the bytes up to the terminator.\<close>

definition mock_parse :: "bytes \<Rightarrow> fix_message" where
  "mock_parse fix_msg = fix_message_default\<lparr>valid := length (takeWhile (\<lambda>c. c \<noteq> 0) fix_msg) > 0\<rparr>"

definition bench_fix_parse_latency ::
  "(u64 \<Rightarrow> u64) \<Rightarrow> (nat \<Rightarrow> u64 \<times> u64) \<Rightarrow> nat \<Rightarrow> (fix_message \<times> counters) option" where
  "bench_fix_parse_latency to_ns clock n =
     (case timed_loop 10000 to_ns (\<lambda>_ parsed. Some (mock_parse latency_message)) (stamped clock (replicate n ()))
         fix_message_default [] of None \<Rightarrow> None
      | Some (parsed, latencies) \<Rightarrow>
          map_option (Pair parsed) (report [(''p50_ns'', P50), (''p99_ns'', P99)] None latencies))"

subsection \<open>Parsing\<close>

lemma parse_all_append:
  "parse_all (xs @ ys) = (case parse_all xs of None \<Rightarrow> None | Some ms \<Rightarrow> map_option (\<lambda>ms'. ms @ ms') (parse_all ys))"
  by (cases "parse_all ys"; induction xs) (auto split: option.splits)

definition throughput_message :: "nat \<Rightarrow> fix_message" where
  "throughput_message i = \<lparr>msg_type = NewOrderSingle, cl_ord_id = text_bytes ''ORDER'' @ dec_digits i,
     fix_symbol = text_bytes ''AAPL'', fix_side = 1, order_qty = 100, price_ticks = 150000,
     ord_type = 2, fix_checksum = 12, valid = True\<rparr>"

lemma parse_all_generated:
  "parse_all (map (\<lambda>i. make_fix_message (int i) 100 150000 49) is) = Some (map throughput_message is)"
proof (induction "is")
  case (Cons i "is")
  have "parse (Some (make_fix_message (int i) 100 150000 49)) = Some (throughput_message i)"
    using parse_generated [of 150000 49 i 100] by (simp add: SOH_def throughput_message_def)
  then show ?case using Cons by simp
qed simp

lemma parser_throughput_all_valid:
  "fix_parser_throughput n = Some (concat (replicate n (map throughput_message [0..<10000])), of_nat (n * 10000))"
proof -
  have "parse_all (concat (replicate n throughput_messages)) = Some (concat (replicate n (map throughput_message [0..<10000])))"
    by (induction n) (simp_all add: parse_all_append throughput_messages_def parse_all_generated del: upt_rec_numeral upt_Suc)
  then show ?thesis
    by (simp add: fix_parser_throughput_def throughput_messages_def del: upt_rec_numeral upt_Suc)
qed

subsection \<open>Parsing into the book\<close>

definition pipeline_order :: "nat \<Rightarrow> nat \<times> nat \<times> nat \<times> side" where
  "pipeline_order i = (i, 100, 150000 + i, if i mod 2 \<noteq> 0 then Buy else Sell)"

lemma orderbook_messages_orders: "orderbook_messages = map order_msg (map pipeline_order [0..<10000])"
  by (simp add: orderbook_messages_def order_msg_def pipeline_order_def del: upt_rec_numeral upt_Suc)

text \<open>A pass is five thousand rounds of a sell and the buy one tick above it.\<close>

definition pipeline_prices :: "(int \<times> int) list" where
  "pipeline_prices = map (\<lambda>j. (150000 + 2 * int j, 150001 + 2 * int j)) [0..<5000]"

lemma pipeline_pair:
  "map order_op [pipeline_order (2 * j), pipeline_order (2 * j + 1)] =
     cross_round 100 (150000 + 2 * int j, 150001 + 2 * int j)"
proof -
  have "(2 * j + 1) mod 2 = 1" by presburger
  then show ?thesis by (simp add: order_op_def pipeline_order_def)
qed

lemma pipeline_pass:
  "map order_op (map pipeline_order [0..<2 * m]) =
     concat (map (\<lambda>j. cross_round 100 (150000 + 2 * int j, 150001 + 2 * int j)) [0..<m])"
proof (induction m)
  case (Suc m)
  have "[0..<2 * Suc m] = [0..<2 * m] @ [2 * m, 2 * m + 1]" by simp
  then show ?case using Suc pipeline_pair [of m] by (simp only: map_append) simp
qed simp

lemma pipeline_passes:
  "map order_op (concat (replicate n (map pipeline_order [0..<10000]))) =
     concat (map (cross_round 100) (concat (replicate n pipeline_prices)))"
proof -
  have "map order_op (map pipeline_order [0..<10000]) = concat (map (cross_round 100) pipeline_prices)"
    using pipeline_pass [of 5000] by (simp add: pipeline_prices_def comp_def del: upt_rec_numeral upt_Suc)
  then show ?thesis by (induction n) (simp_all del: upt_rec_numeral upt_Suc map_map)
qed

lemma nth_concat_replicate: "k < n * length xs \<Longrightarrow> concat (replicate n xs) ! k = xs ! (k mod length xs)"
proof (induction n arbitrary: k)
  case (Suc n)
  show ?case
  proof (cases "k < length xs")
    case False
    then have "k - length xs < n * length xs" using Suc.prems by simp
    from Suc.IH [OF this] False show ?thesis by (simp add: nth_append le_mod_geq)
  qed (simp add: nth_append)
qed simp

subsection \<open>Properties\<close>

text \<open>
  C7. From message text to fills, for any number of iterations: every iteration parses its ten
  thousand messages and submits them, and each buy takes the sell before it, a tick below
  its limit, as long as two slots of the pool are free. A filled sell keeps its slot, so
  exactly the first 1048574 pairs trade, each a hundred at the sell's price, in order. This
  is all of the first 209 iterations, after which the book is empty. In the 210th the pool
  runs dry: the sell at 157148 takes the last slot and stays in the book alone, and from
  then on every order of every iteration is refused, though the item count still grows. One
  latency is kept per message until the vector is full.
\<close>

theorem pipeline_workload_fills:
  "\<exists>ob. fix_parse_with_orderbook tsc to_ns clock d n =
      Some (ob, take 100000 (samples to_ns (stamped clock (concat (replicate n orderbook_messages)))), of_nat (n * 10000)) \<and>
    reported_fills ob = take 1048574 (concat (replicate n (map (\<lambda>j. (150000 + 2 * int j, 100)) [0..<5000]))) \<and>
    abs_book ob = (if n \<le> 209 then \<lambda>sd. [] else (\<lambda>sd. [])(Sell := [(157148, 100)]))"
proof -
  let ?pass = "map pipeline_order [0..<10000]" and ?fs = "map (\<lambda>j. (150000 + 2 * int j, 100)) [0..<5000]"
  let ?ps = "concat (replicate n pipeline_prices)" and ?new = "order_book_new 1 d"
  have free: "length (free_slots ?new) = 1048575"
    by (simp only: new_free_list(2) length_map length_upt) simp
  have up: "list_all (\<lambda>(p, p'). p \<le> p') ?ps" "length pipeline_prices = 5000" "unat (100 :: u32) = 100"
    by (auto simp: list_all_iff pipeline_prices_def simp del: upt_rec_numeral upt_Suc)
  have len: "length ?ps = n * 5000" by (simp add: length_concat sum_list_replicate up(2))
  have fills: "map (\<lambda>(p, p'). (p, 100)) ?ps = concat (replicate n ?fs)"
    by (simp add: map_concat pipeline_prices_def comp_def del: upt_rec_numeral upt_Suc)
  have last: "fst (?ps ! 1048574) = 157148" if "\<not> n \<le> 209"
    using nth_concat_replicate [of 1048574 n pipeline_prices] that
    by (simp add: up(2)) (simp add: pipeline_prices_def del: upt_rec_numeral upt_Suc)
  obtain ob where ob: "run_ops tsc (concat (map (cross_round 100) ?ps)) ?new = Some ob"
    "reported_fills ob = take 1048574 (concat (replicate n ?fs))"
    "abs_book ob = (if n \<le> 209 then \<lambda>sd. [] else (\<lambda>sd. [])(Sell := [(157148, 100)]))"
  proof -
    have "n * 5000 < 1048575 \<longleftrightarrow> n \<le> 209" by linarith
    then show thesis
      using cross_rounds [OF book_inv_new abs_book_new _ _ up(1), of 1 d 100 tsc] that last
      unfolding free up(3) fills len by (auto split: if_splits simp del: upt_rec_numeral upt_Suc)
  qed
  have small: "\<forall>(i, q, p, sd) \<in> set (concat (replicate n ?pass)). p < 2 ^ 31"
    by (auto simp: pipeline_order_def simp del: upt_rec_numeral upt_Suc)
  have feed: "iterate (handle_message tsc) bufs b = feed tsc bufs b" for bufs b
    by (induction bufs arbitrary: b) (simp_all split: option.split)
  have "concat (replicate n orderbook_messages) = map order_msg (concat (replicate n ?pass))"
    by (simp add: orderbook_messages_orders map_concat del: upt_rec_numeral upt_Suc)
  then have "iterate (handle_message tsc) (concat (replicate n orderbook_messages)) ?new = Some ob"
    by (simp only: feed feed_generated [OF small] pipeline_passes ob(1))
  moreover have "length orderbook_messages = 10000" by (simp add: orderbook_messages_def)
  ultimately show ?thesis
    using ob(2,3) by (simp add: fix_parse_with_orderbook_def timed_loop_new del: upt_rec_numeral upt_Suc)
qed

text \<open>A socket that was opened is closed exactly once, whether binding failed or not.\<close>

lemma socket_closed:
  "\<exists>out. bench_socket_rx_baseline sock bind_call to_ns rounds = Some (out, if sock < 0 then [] else [sock]) \<and>
    ((\<exists>reason. out = Skipped reason) \<longleftrightarrow> sock < 0 \<or> bind_call sock (htons 9876) 0 < 0)"
  using report_defined [of "[(''p50_ns'', P50), (''p95_ns'', P95), (''p99_ns'', P99)]" None "fold (received to_ns) rounds []"]
  by (auto simp: bench_socket_rx_baseline_def)

text \<open>Only packets that arrived are counted.\<close>

lemma fold_received:
  "length ls \<le> 10000 \<Longrightarrow>
   fold (received to_ns) rounds ls = take 10000 (ls @ map (\<lambda>(n, t0, t1). to_ns (t1 - t0)) (filter (\<lambda>(n, t). n > 0) rounds))"
proof (induction rounds arbitrary: ls)
  case (Cons r rounds)
  obtain n t0 t1 where r: "r = (n, t0, t1)" by (metis prod_cases3)
  have "length (received to_ns r ls) \<le> 10000" using Cons.prems by (simp add: received_def record_latency_def r)
  from Cons.IH [OF this] show ?case using Cons.prems by (auto simp: received_def record_latency_def r take_Cons')
qed simp

lemma overhead_loop_sum: "overhead_loop = Some 4498500"
proof -
  have "m \<le> 3000 \<Longrightarrow> iterate (\<lambda>i dummy. int_add dummy (int i)) [0..<m] 0 = Some (int (m * (m - 1) div 2))" for m
  proof (induction m)
    case (Suc m)
    have "m * (m - 1) div 2 + m = Suc m * (Suc m - 1) div 2" by (cases m) simp_all
    moreover have "Suc m * (Suc m - 1) \<le> 3000 * 3000" using Suc.prems by (intro mult_le_mono) simp_all
    ultimately show ?case
      using Suc int_add_nonneg [of "int (m * (m - 1) div 2)" "int m"] by (simp add: iterate_append)
  qed simp
  from this [of 3000] show ?thesis by (simp add: overhead_loop_def del: upt_rec_numeral upt_Suc)
qed

lemma overhead_defined: "\<exists>cs. bench_kernel_vs_userspace_overhead to_ns clock n = Some cs"
proof -
  have loop: "iterate (\<lambda>_ _. overhead_loop) (replicate n ()) s \<noteq> None" for s
    by (induction n arbitrary: s) (simp_all add: overhead_loop_sum)
  let ?ls = "take 10000 (samples to_ns (stamped clock (replicate n ())))"
  show ?thesis
  proof (cases "?ls = []")
    case True
    then show ?thesis using loop [of 0] by (auto simp: bench_kernel_vs_userspace_overhead_def timed_loop_new)
  next
    case False
    then have ne: "sort ?ls \<noteq> []" by (metis length_greater_0_conv length_sort)
    show ?thesis
      using loop [of 0] False percentile_Some(1) [OF ne, of 1 2]
        read_counters_Some [OF ne, of "[(''socket_overhead_ns'', P50), (''p99_ns'', P99)]"]
      by (auto simp: bench_kernel_vs_userspace_overhead_def timed_loop_new Let_def simp del: read_counters.simps)
  qed
qed

text \<open>The message of the latency benchmark is marked valid without being parsed; the parser
  finds no message type in it, since its fields are not separated by the delimiter.\<close>

lemma mock_parse_differs:
  "valid (mock_parse latency_message) \<and> (\<exists>m. parse (Some latency_message) = Some m \<and> \<not> valid m)"
proof -
  have "valid (mock_parse latency_message)" by code_simp
  moreover have "parse (Some latency_message) = Some fix_message_default" by code_simp
  ultimately show ?thesis by (simp add: fix_message_default_def)
qed

end
