(* ===== verification/Queue_Drain.thy ===== *)
theory Queue_Drain
  imports Spsc_Queue Mpsc_Queue Latency_Stats "HOL-Library.Monad_Syntax"
begin

text \<open>
  Emptying a queue with \<^verbatim>\<open>while (q.pop()) {}\<close>, as the benchmark programs and the tests do. What this
  loop needs of a queue is the locale \<open>drainable\<close>, which both queues meet; for the linked queue
  that is when no push is in progress.
\<close>

subsection \<open>Emptying a queue\<close>

text \<open>The values popped, and the queue after the \<^verbatim>\<open>pop\<close> that found nothing.\<close>

partial_function (option) drain :: "('q \<Rightarrow> ('a option \<times> 'q) option) \<Rightarrow> 'q \<Rightarrow> ('a list \<times> 'q) option" where
  "drain pp q = do {
     (r, q1) \<leftarrow> pp q;
     (case r of None \<Rightarrow> Some ([], q1)
      | Some x \<Rightarrow> do { (xs, q2) \<leftarrow> drain pp q1; Some (x # xs, q2) })
   }"

locale drainable =
  fixes pp :: "'q \<Rightarrow> ('a option \<times> 'q) option"
    and holds :: "'q \<Rightarrow> 'a list \<Rightarrow> bool"
  assumes pop_nothing: "holds q [] \<Longrightarrow> \<exists>q'. pp q = Some (None, q') \<and> holds q' []"
    and pop_first: "holds q (x # xs) \<Longrightarrow> \<exists>q'. pp q = Some (Some x, q') \<and> holds q' xs"
begin

lemma drain_all: "holds q xs \<Longrightarrow> \<exists>q'. drain pp q = Some (xs, q') \<and> holds q' []"
proof (induction xs arbitrary: q)
  case Nil
  then obtain q' where "pp q = Some (None, q')" "holds q' []" using pop_nothing by blast
  then show ?case by (subst drain.simps) simp
next
  case (Cons x xs)
  obtain q1 where q1: "pp q = Some (Some x, q1)" "holds q1 xs" using pop_first [OF Cons.prems] by blast
  then obtain q2 where "drain pp q1 = Some (xs, q2)" "holds q2 []" using Cons.IH by blast
  then show ?case using q1 by (subst drain.simps) auto
qed

text \<open>A benchmark whose iterations fill the queue and empty it again.\<close>

lemma iterate_drain:
  assumes "holds q []" and "\<And>q. holds q [] \<Longrightarrow> \<exists>q' xs. fill q = Some q' \<and> holds q' xs"
  shows "\<exists>q'. iterate (\<lambda>_ q. fill q \<bind> (\<lambda>q1. map_option snd (drain pp q1))) (replicate n ()) q = Some q' \<and> holds q' []"
  using assms(1)
proof (induction n arbitrary: q)
  case (Suc n)
  obtain q1 xs where "fill q = Some q1" "holds q1 xs" using assms(2) [OF Suc.prems] by blast
  moreover obtain q2 where "drain pp q1 = Some (xs, q2)" "holds q2 []" using drain_all [OF calculation(2)] by blast
  ultimately show ?case using Suc.IH by simp
qed simp

end

subsection \<open>Both queues can be emptied\<close>

interpretation ring: drainable "\<lambda>q. Some (spsc_pop cap q)" "\<lambda>q xs. spsc_inv cap q \<and> spsc_contents cap q = xs" for cap
proof (unfold_locales, goal_cases)
  case (1 q)
  then show ?case using spsc.pop_result [of cap q] spsc.pop_elems [of cap q] spsc.pop_inv [of cap q]
    by (cases "spsc_pop cap q") simp
next
  case (2 q x xs)
  then show ?case using spsc.pop_result [of cap q] spsc.pop_elems [of cap q] spsc.pop_inv [of cap q]
    by (cases "spsc_pop cap q") simp
qed

text \<open>No push is in progress and the queue holds these values.\<close>

definition quiet :: "'a mpsc \<Rightarrow> 'a list \<Rightarrow> bool" where
  "quiet q xs \<longleftrightarrow> (\<exists>ns. queue_inv q (\<lambda>_. Idle) Ready ns xs)"

lemma no_producers [simp]: "linking (\<lambda>_. Idle) = {}" "waiting (\<lambda>_. Idle) = {}"
  by (simp_all add: linking_def waiting_def)

interpretation linked: drainable mpsc_pop quiet
proof (unfold_locales, goal_cases)
  case (1 q)
  then obtain ns where inv: "queue_inv q (\<lambda>_. Idle) Ready ns []" by (auto simp: quiet_def)
  then show ?case
  proof (cases rule: load_inv)
    case (found n)
    then show ?thesis using take_inv by fastforce
  next
    case drained
    then show ?thesis using 1 by (simp add: mpsc_pop_def)
  qed
next
  case (2 q x xs)
  then obtain ns where inv: "queue_inv q (\<lambda>_. Idle) Ready ns (x # xs)" by (auto simp: quiet_def)
  then show ?case
  proof (cases rule: load_inv)
    case (found n)
    then obtain q' where "pop_take (mq_head q) n q = Some (x, q')" "queue_inv q' (\<lambda>_. Idle) Ready (tl ns) xs"
      using take_inv by fastforce
    then show ?thesis using found(1) by (auto simp: mpsc_pop_def quiet_def)
  next
    case drained
    then show ?thesis by simp
  qed
qed

lemma quiet_new: "quiet (mpsc_new stub d) []"
  using init_inv [of stub d] by (simp add: quiet_def mpsc_inv_def mpsc_init_def)

lemma quiet_push:
  assumes "quiet q xs" and "heap q a = None"
  shows "\<exists>q'. mpsc_push a x q = Some q' \<and> quiet q' (xs @ [x])"
proof -
  let ?I = "\<lambda>_. Idle" and ?q1 = "push_alloc a x q"
  obtain ns where "queue_inv q ?I Ready ns xs" using assms(1) by (auto simp: quiet_def)
  from alloc_inv [OF this _ assms(2), where t = 0 and x = x]
  have 1: "queue_inv ?q1 (?I(0 := Allocated a)) Ready ns xs" by simp
  have "heap ?q1 a = Some \<lparr>nd_data = x, nd_next = None\<rparr>" by (simp add: push_alloc_def)
  from exchange_inv [OF 1 _ this, of 0]
  have 2: "queue_inv (snd (push_exchange a ?q1)) (?I(0 := Exchanged (fst (push_exchange a ?q1)) a)) Ready (ns @ [a]) (xs @ [x])"
    by simp
  from link_inv [OF this, of 0] obtain q' where
    "push_link (fst (push_exchange a ?q1)) a (snd (push_exchange a ?q1)) = Some q'"
    "queue_inv q' ?I Ready (ns @ [a]) (xs @ [x])" by (auto simp: fun_upd_idem)
  then show ?thesis by (auto simp: mpsc_push_def quiet_def case_prod_unfold)
qed

text \<open>The allocator chooses an address from what is allocated.\<close>

fun mpsc_push_all :: "((nat \<Rightarrow> 'a node option) \<Rightarrow> nat) \<Rightarrow> 'a list \<Rightarrow> 'a mpsc \<Rightarrow> 'a mpsc option" where
  "mpsc_push_all alloc [] q = Some q"
| "mpsc_push_all alloc (x # xs) q =
     (case mpsc_push (alloc (heap q)) x q of None \<Rightarrow> None | Some q' \<Rightarrow> mpsc_push_all alloc xs q')"

text \<open>What the code relies on: an allocation is not in use, as long as memory is not used up.\<close>

definition allocator_ok :: "((nat \<Rightarrow> 'a node option) \<Rightarrow> nat) \<Rightarrow> bool" where
  "allocator_ok alloc \<longleftrightarrow> (\<forall>h. finite (dom h) \<longrightarrow> h (alloc h) = None)"

lemma quiet_finite: "quiet q xs \<Longrightarrow> finite (dom (heap q))"
  using queue_invD(9) by (fastforce simp: quiet_def)

lemma quiet_push_all:
  assumes "allocator_ok alloc" and "quiet q xs"
  shows "\<exists>q'. mpsc_push_all alloc ys q = Some q' \<and> quiet q' (xs @ ys)"
  using assms(2)
proof (induction ys arbitrary: q xs)
  case (Cons y ys)
  have "heap q (alloc (heap q)) = None"
    using assms(1) quiet_finite [OF Cons.prems] by (simp add: allocator_ok_def)
  from quiet_push [OF Cons.prems this, of y] obtain q1 where
    q1: "mpsc_push (alloc (heap q)) y q = Some q1" "quiet q1 (xs @ [y])" by blast
  from Cons.IH [OF q1(2)] q1(1) show ?case by simp
qed simp

lemma quiet_empty_one_node:
  assumes "quiet q []"
  shows "dom (heap q) = {mq_head q}"
proof -
  obtain ns where inv: "queue_inv q (\<lambda>_. Idle) Ready ns []" using assms by (auto simp: quiet_def)
  then have "tl ns = []" using queue_invD(10) by fastforce
  then show ?thesis using queue_invD(1,3,9) [OF inv] by (cases ns) auto
qed

end
