(* ===== verification/Mpsc_Threads.thy ===== *)
theory Mpsc_Threads
  imports Queue_Drain
begin

text \<open>
  Producer threads of \<^verbatim>\<open>MpscQueue\<close>: \<open>N\<close> threads push \<open>m\<close> values each while nobody pops, are joined, and
  the queue is emptied, as \<^verbatim>\<open>mpsc_multi_producer\<close> of \<^verbatim>\<open>bench_mpsc.cpp\<close> and the second case of
  \<^verbatim>\<open>test_mpsc.cpp\<close> do. Thread \<open>t\<close> has completed \<open>c t\<close> of its pushes, and the next value it pushes is
  \<open>item t (c t)\<close>. A step is one atomic part of a push of one of the threads. The lemmas are proved
  in the locale \<open>producers\<close>, whose only law is that a value tells which thread pushed it.
\<close>

inductive multi_step ::
  "nat \<Rightarrow> nat \<Rightarrow> (nat \<Rightarrow> nat \<Rightarrow> 'a) \<Rightarrow> 'a mpsc_sys \<times> (nat \<Rightarrow> nat) \<Rightarrow> 'a mpsc_event \<Rightarrow> 'a mpsc_sys \<times> (nat \<Rightarrow> nat) \<Rightarrow> bool"
  for N m item where
  alloc: "t < N \<Longrightarrow> c t < m \<Longrightarrow> prods s t = Idle \<Longrightarrow> heap (shared s) a = None \<Longrightarrow>
    multi_step N m item (s, c) Internal
      (s\<lparr>shared := push_alloc a (item t (c t)) (shared s), prods := (prods s)(t := Allocated a)\<rparr>, c)"
| exchange: "t < N \<Longrightarrow> prods s t = Allocated a \<Longrightarrow> heap (shared s) a = Some nd \<Longrightarrow>
    push_exchange a (shared s) = (prev, q) \<Longrightarrow>
    multi_step N m item (s, c) (Enqueued (nd_data nd)) (s\<lparr>shared := q, prods := (prods s)(t := Exchanged prev a)\<rparr>, c)"
| link: "t < N \<Longrightarrow> prods s t = Exchanged prev a \<Longrightarrow> push_link prev a (shared s) = Some q \<Longrightarrow>
    multi_step N m item (s, c) Internal (s\<lparr>shared := q, prods := (prods s)(t := Idle)\<rparr>, c(t := c t + 1))"
| link_fault: "t < N \<Longrightarrow> prods s t = Exchanged prev a \<Longrightarrow> push_link prev a (shared s) = None \<Longrightarrow>
    multi_step N m item (s, c) Fault (s, c)"

inductive multi_run ::
  "nat \<Rightarrow> nat \<Rightarrow> (nat \<Rightarrow> nat \<Rightarrow> 'a) \<Rightarrow> 'a mpsc_sys \<times> (nat \<Rightarrow> nat) \<Rightarrow> 'a mpsc_event list \<Rightarrow> 'a mpsc_sys \<times> (nat \<Rightarrow> nat) \<Rightarrow> bool"
  for N m item where
  start: "multi_run N m item x [] x"
| snoc: "multi_run N m item x es y \<Longrightarrow> multi_step N m item y e z \<Longrightarrow> multi_run N m item x (es @ [e]) z"

definition joined :: "nat \<Rightarrow> nat \<Rightarrow> (nat \<Rightarrow> nat) \<Rightarrow> bool" where
  "joined N m c \<longleftrightarrow> (\<forall>t < N. c t = m)"

text \<open>The states between the rounds: the threads run, all are joined, and the queue is emptied.\<close>

inductive producer_rounds :: "nat \<Rightarrow> nat \<Rightarrow> (nat \<Rightarrow> nat \<Rightarrow> 'a) \<Rightarrow> nat \<Rightarrow> 'a \<Rightarrow> 'a mpsc_sys \<Rightarrow> bool" for N m item stub d where
  first: "producer_rounds N m item stub d (mpsc_init stub d)"
| round: "producer_rounds N m item stub d s \<Longrightarrow> multi_run N m item (s, \<lambda>_. 0) es (s1, c) \<Longrightarrow> joined N m c \<Longrightarrow>
    drain mpsc_pop (shared s1) = Some (xs, q) \<Longrightarrow> producer_rounds N m item stub d (s1\<lparr>shared := q\<rparr>)"

subsection \<open>Invariant\<close>

definition pushed_by :: "('a \<Rightarrow> nat) \<Rightarrow> nat \<Rightarrow> 'a list \<Rightarrow> 'a list" where
  "pushed_by owner t xs = filter (\<lambda>x. owner x = t) xs"

definition thread_ok ::
  "nat \<Rightarrow> (nat \<Rightarrow> nat \<Rightarrow> 'a) \<Rightarrow> ('a \<Rightarrow> nat) \<Rightarrow> 'a mpsc \<Rightarrow> nat \<Rightarrow> producer \<Rightarrow> nat \<Rightarrow> 'a list \<Rightarrow> bool" where
  "thread_ok m item owner q t p n xs \<longleftrightarrow> (case p of
     Idle \<Rightarrow> n \<le> m \<and> pushed_by owner t xs = map (item t) [0..<n]
   | Allocated a \<Rightarrow> n < m \<and> pushed_by owner t xs = map (item t) [0..<n] \<and> data_of q a = Some (item t n)
   | Exchanged prev a \<Rightarrow> n < m \<and> pushed_by owner t xs = map (item t) [0..<Suc n])"

definition multi_inv ::
  "nat \<Rightarrow> nat \<Rightarrow> (nat \<Rightarrow> nat \<Rightarrow> 'a) \<Rightarrow> ('a \<Rightarrow> nat) \<Rightarrow> 'a mpsc_sys \<Rightarrow> (nat \<Rightarrow> nat) \<Rightarrow> 'a list \<Rightarrow> bool" where
  "multi_inv N m item owner s c xs \<longleftrightarrow> (\<forall>t < N. thread_ok m item owner (shared s) t (prods s t) (c t) xs) \<and>
     (\<forall>t \<ge> N. prods s t = Idle) \<and> (\<forall>x \<in> set xs. owner x < N) \<and> cons s = Ready"

text \<open>How far the threads are: every push takes three steps.\<close>

primrec stage :: "producer \<Rightarrow> nat" where
  "stage Idle = 0"
| "stage (Allocated a) = 1"
| "stage (Exchanged prev a) = 2"

definition steps_done :: "nat \<Rightarrow> 'a mpsc_sys \<Rightarrow> (nat \<Rightarrow> nat) \<Rightarrow> nat" where
  "steps_done N s c = (\<Sum>t < N. 3 * c t + stage (prods s t))"

lemma data_kept:
  "heap q a = None \<Longrightarrow> data_of q b = Some v \<Longrightarrow> data_of (push_alloc a x q) b = Some v"
  "data_of (snd (push_exchange a q)) = data_of q"
  "push_link prev a q = Some q' \<Longrightarrow> data_of q' = data_of q"
  by (auto simp: data_of_def push_alloc_def push_exchange_def push_link_def fun_eq_iff split: option.splits)

lemma multi_step_is_step: "multi_step N m item (s, c) e (s', c') \<Longrightarrow> mpsc_step s e s'"
  by (cases rule: multi_step.cases) (auto intro: mpsc_step.intros)

lemma multi_step_event: "multi_step N m item x e y \<Longrightarrow> dequeued [e] = []"
  by (cases rule: multi_step.cases) auto

locale producers =
  fixes N m :: nat
    and item :: "nat \<Rightarrow> nat \<Rightarrow> 'a"
    and owner :: "'a \<Rightarrow> nat"
  assumes owner_item: "t < N \<Longrightarrow> i < m \<Longrightarrow> owner (item t i) = t"
begin

lemma pushed_by_append: "pushed_by owner t (xs @ ys) = pushed_by owner t xs @ pushed_by owner t ys"
  by (simp add: pushed_by_def)

lemma pushed_by_item:
  "t < N \<Longrightarrow> i < m \<Longrightarrow> pushed_by owner t' [item t i] = (if t' = t then [item t i] else [])"
  by (simp add: pushed_by_def owner_item)

lemma thread_ok_kept:
  assumes "thread_ok m item owner q t p n xs" and "\<And>b v. data_of q b = Some v \<Longrightarrow> data_of q' b = Some v"
    and "pushed_by owner t ys = []"
  shows "thread_ok m item owner q' t p n (xs @ ys)"
  using assms by (auto simp: thread_ok_def pushed_by_append split: producer.splits)

text \<open>One thread moves, the others keep what they have.\<close>

lemma multi_invI:
  assumes "multi_inv N m item owner s c xs" and "t < N" and "thread_ok m item owner q t p n (xs @ ys)"
    and "\<And>b v. data_of (shared s) b = Some v \<Longrightarrow> data_of q b = Some v"
    and "\<And>t'. t' \<noteq> t \<Longrightarrow> pushed_by owner t' ys = []"
  shows "multi_inv N m item owner (s\<lparr>shared := q, prods := (prods s)(t := p)\<rparr>) (c(t := n)) (xs @ ys)"
proof -
  have "owner x = t" if "x \<in> set ys" for x
    using assms(5) [of "owner x"] that by (fastforce simp: pushed_by_def filter_empty_conv)
  then show ?thesis
    using assms(1,2,3) thread_ok_kept [OF _ assms(4) assms(5)] by (auto simp: multi_inv_def)
qed

lemma multi_step_inv:
  assumes "multi_step N m item (s, c) e (s', c')" and "multi_inv N m item owner s c xs" and "e \<noteq> Fault"
  shows "multi_inv N m item owner s' c' (xs @ enqueued [e])"
proof -
  have ok: "thread_ok m item owner (shared s) t (prods s t) (c t) xs" if "t < N" for t
    using assms(2) that by (simp add: multi_inv_def)
  from assms(1) show ?thesis
  proof (cases rule: multi_step.cases)
    case (alloc t a)
    let ?q = "push_alloc a (item t (c t)) (shared s)"
    have "thread_ok m item owner ?q t (Allocated a) (c t) (xs @ [])"
      using ok [OF alloc(4)] alloc by (simp add: thread_ok_def data_of_def push_alloc_def)
    then have "multi_inv N m item owner (s\<lparr>shared := ?q, prods := (prods s)(t := Allocated a)\<rparr>) (c(t := c t)) (xs @ [])"
      using data_kept(1) [OF alloc(7)] by (intro multi_invI [OF assms(2) alloc(4)]) (simp_all add: pushed_by_def)
    then show ?thesis using alloc by simp
  next
    case (exchange t a nd prev q)
    have q: "q = snd (push_exchange a (shared s))" using exchange(7) by simp
    have n: "c t < m" "nd_data nd = item t (c t)"
      using ok [OF exchange(4)] exchange by (auto simp: thread_ok_def data_of_def)
    have "thread_ok m item owner q t (Exchanged prev a) (c t) (xs @ [nd_data nd])"
      using ok [OF exchange(4)] exchange(4,5) n by (simp add: thread_ok_def pushed_by_append pushed_by_item)
    then have "multi_inv N m item owner (s\<lparr>shared := q, prods := (prods s)(t := Exchanged prev a)\<rparr>) (c(t := c t)) (xs @ [nd_data nd])"
      using n exchange(4) by (intro multi_invI [OF assms(2) exchange(4)]) (simp_all add: q data_kept(2) pushed_by_item)
    then show ?thesis using exchange by simp
  next
    case (link t prev a q)
    have "thread_ok m item owner q t Idle (c t + 1) (xs @ [])"
      using ok [OF link(4)] link(5) by (simp add: thread_ok_def)
    then have "multi_inv N m item owner (s\<lparr>shared := q, prods := (prods s)(t := Idle)\<rparr>) (c(t := c t + 1)) (xs @ [])"
      using data_kept(3) [OF link(6)] by (intro multi_invI [OF assms(2) link(4)]) (simp_all add: pushed_by_def)
    then show ?thesis using link by simp
  qed (use assms(3) in simp)
qed

lemma steps_done_upd:
  assumes "t < N"
  shows "steps_done N (s\<lparr>shared := q, prods := (prods s)(t := p)\<rparr>) (c(t := n)) + 3 * c t + stage (prods s t) =
    steps_done N s c + 3 * n + stage p"
proof -
  have "(\<Sum>t' \<in> {..<N} - {t}. 3 * (c(t := n)) t' + stage (((prods s)(t := p)) t')) =
      (\<Sum>t' \<in> {..<N} - {t}. 3 * c t' + stage (prods s t'))" by (rule sum.cong) auto
  then show ?thesis
    using assms sum.remove [of "{..<N}" t "\<lambda>t'. 3 * (c(t := n)) t' + stage (((prods s)(t := p)) t')"]
      sum.remove [of "{..<N}" t "\<lambda>t'. 3 * c t' + stage (prods s t')"] by (simp add: steps_done_def)
qed

lemma multi_step_done:
  assumes "multi_step N m item (s, c) e (s', c')" and "e \<noteq> Fault"
  shows "steps_done N s' c' = Suc (steps_done N s c)"
  using assms(1)
proof (cases rule: multi_step.cases)
  case (alloc t a)
  then show ?thesis using steps_done_upd [where t = t and s = s and c = c and p = "Allocated a" and n = "c t"] by simp
next
  case (exchange t a nd prev q)
  then show ?thesis using steps_done_upd [where t = t and s = s and c = c and p = "Exchanged prev a" and n = "c t"] by simp
next
  case (link t prev a q)
  then show ?thesis using steps_done_upd [where t = t and s = s and c = c and p = Idle and n = "c t + 1"] by simp
qed (use assms(2) in simp)

lemma multi_run_inv:
  assumes "multi_run N m item (s, \<lambda>_. 0) es (s1, c)" and "quiet (shared s) []" and "prods s = (\<lambda>_. Idle)" and "cons s = Ready"
  shows "multi_inv N m item owner s1 c (enqueued es) \<and> mpsc_inv s1 (enqueued es) \<and> Fault \<notin> set es \<and> length es = steps_done N s1 c"
proof -
  have "multi_inv N m item owner (fst y) (snd y) (enqueued es) \<and> mpsc_inv (fst y) (enqueued es) \<and> Fault \<notin> set es \<and>
      length es = steps_done N (fst y) (snd y)" if "multi_run N m item x es y" and "x = (s, \<lambda>_. 0)" for x y
    using that
  proof (induction rule: multi_run.induct)
    case (start x)
    then show ?case
      using assms(2-4) by (auto simp: multi_inv_def thread_ok_def pushed_by_def mpsc_inv_def quiet_def steps_done_def)
  next
    case (snoc x es y e z)
    obtain sy cy where y: "y = (sy, cy)" by (cases y)
    obtain sz cz where z: "z = (sz, cz)" by (cases z)
    have IH: "multi_inv N m item owner sy cy (enqueued es)" "mpsc_inv sy (enqueued es)" "Fault \<notin> set es" "length es = steps_done N sy cy"
      using snoc by (simp_all add: y)
    have st: "multi_step N m item (sy, cy) e (sz, cz)" using snoc.hyps(2) by (simp add: y z)
    obtain xs where "mpsc_inv sz xs" "enqueued es @ enqueued [e] = dequeued [e] @ xs" "e \<noteq> Fault"
      using step_inv [OF multi_step_is_step [OF st] IH(2)] by blast
    then show ?case
      using IH multi_step_inv [OF st IH(1)] multi_step_done [OF st] multi_step_event [OF st]
      by (simp add: z events_append)
  qed
  from this [OF assms(1) refl] show ?thesis by simp
qed

lemma steps_done_bound:
  assumes "multi_inv N m item owner s c xs"
  shows "steps_done N s c \<le> N * (3 * m)"
proof -
  have "3 * c t + stage (prods s t) \<le> 3 * m" if "t < N" for t
    using assms that by (cases "prods s t") (auto simp: multi_inv_def thread_ok_def)
  then have "steps_done N s c \<le> (\<Sum>t < N. 3 * m)" unfolding steps_done_def by (intro sum_mono) simp
  then show ?thesis by simp
qed

text \<open>A thread that is not done can take a step, whatever the others do.\<close>

lemma fresh_address:
  assumes "multi_inv N m item owner s c xs" and "mpsc_inv s ys"
  shows "\<exists>a. heap (shared s) a = None"
proof -
  obtain ns where dom: "dom (heap (shared s)) = set ns \<union> waiting (prods s)"
    using assms(2) queue_invD(9) unfolding mpsc_inv_def by metis
  have "waiting (prods s) \<subseteq> (\<lambda>t. case prods s t of Allocated a \<Rightarrow> a | _ \<Rightarrow> 0) ` {..<N}"
  proof
    fix a assume "a \<in> waiting (prods s)"
    then obtain t where t: "prods s t = Allocated a" by (auto simp: waiting_iff)
    then have "t < N" using assms(1) by (metis multi_inv_def not_less producer.distinct(1))
    then show "a \<in> (\<lambda>t. case prods s t of Allocated a \<Rightarrow> a | _ \<Rightarrow> 0) ` {..<N}"
      using t by (intro image_eqI [of _ _ t]) simp_all
  qed
  then have "finite (waiting (prods s))" by (rule finite_subset) simp
  then have "finite (dom (heap (shared s)))" by (simp add: dom)
  then obtain a where "a \<notin> dom (heap (shared s))" using ex_new_if_finite [OF infinite_UNIV_nat] by blast
  then show ?thesis by (auto simp: domIff)
qed

lemma multi_progress:
  assumes "multi_inv N m item owner s c xs" and "mpsc_inv s ys" and "\<not> joined N m c"
  shows "\<exists>e y. multi_step N m item (s, c) e y"
proof -
  obtain t where t: "t < N" "c t \<noteq> m" using assms(3) by (auto simp: joined_def)
  have ok: "thread_ok m item owner (shared s) t (prods s t) (c t) xs" using assms(1) t(1) by (simp add: multi_inv_def)
  show ?thesis
  proof (cases "prods s t")
    case Idle
    moreover obtain a where "heap (shared s) a = None" using fresh_address [OF assms(1,2)] by blast
    ultimately show ?thesis using ok t multi_step.alloc [of t N c m s a] by (force simp: thread_ok_def)
  next
    case (Allocated a)
    then obtain nd where "heap (shared s) a = Some nd" using ok by (auto simp: thread_ok_def data_of_def)
    then show ?thesis using multi_step.exchange [OF t(1) Allocated] by (metis prod.exhaust)
  next
    case (Exchanged prev a)
    then show ?thesis
      using multi_step.link [OF t(1) Exchanged] multi_step.link_fault [OF t(1) Exchanged]
      by (cases "push_link prev a (shared s)") blast+
  qed
qed

lemma joined_idle:
  assumes "multi_inv N m item owner s c xs" and "joined N m c"
  shows "prods s = (\<lambda>_. Idle)"
proof
  fix t show "prods s t = Idle"
  proof (cases "t < N")
    case True
    then have "thread_ok m item owner (shared s) t (prods s t) m xs" using assms by (auto simp: multi_inv_def joined_def)
    then show ?thesis by (auto simp: thread_ok_def split: producer.splits)
  qed (use assms(1) in \<open>simp add: multi_inv_def\<close>)
qed

lemma length_by_owner:
  "(\<forall>x \<in> set xs. owner x < n) \<Longrightarrow> length xs = (\<Sum>t < n. length (pushed_by owner t xs))"
proof (induction xs)
  case (Cons x xs)
  have "length (pushed_by owner t (x # xs)) = (if owner x = t then 1 else 0) + length (pushed_by owner t xs)" for t
    by (simp add: pushed_by_def)
  then show ?case using Cons by (simp add: sum.distrib)
qed (simp add: pushed_by_def)

text \<open>After the threads are joined the queue is quiet and holds what they pushed.\<close>

lemma joined_contents:
  assumes "multi_inv N m item owner s c xs" and "mpsc_inv s xs" and "joined N m c"
  shows "quiet (shared s) xs" and "length xs = N * m" and "t < N \<Longrightarrow> pushed_by owner t xs = map (item t) [0..<m]"
proof -
  note idle = joined_idle [OF assms(1,3)]
  show "quiet (shared s) xs" using assms(1,2) idle by (auto simp: quiet_def mpsc_inv_def multi_inv_def)
  have by_thread: "pushed_by owner t xs = map (item t) [0..<m]" if "t < N" for t
    using assms(1,3) that idle by (auto simp: multi_inv_def joined_def thread_ok_def)
  then show "t < N \<Longrightarrow> pushed_by owner t xs = map (item t) [0..<m]" .
  have "length xs = (\<Sum>t < N. length (pushed_by owner t xs))"
    using assms(1) by (intro length_by_owner) (simp add: multi_inv_def)
  also have "\<dots> = (\<Sum>t < N. m)" using by_thread by (intro sum.cong) simp_all
  finally show "length xs = N * m" by simp
qed

lemma multi_producer_quiet:
  assumes "producer_rounds N m item stub d s"
  shows "quiet (shared s) [] \<and> prods s = (\<lambda>_. Idle) \<and> cons s = Ready"
  using assms
proof (induction rule: producer_rounds.induct)
  case first
  show ?case using quiet_new [of stub d] by (simp add: mpsc_init_def)
next
  case (round s es s1 c xs q)
  then have inv: "multi_inv N m item owner s1 c (enqueued es)" "mpsc_inv s1 (enqueued es)" using multi_run_inv by blast+
  obtain q' where "drain mpsc_pop (shared s1) = Some (enqueued es, q')" "quiet q' []"
    using linked.drain_all [OF joined_contents(1) [OF inv round.hyps(3)]] by blast
  then show ?case
    using round.hyps(4) joined_idle [OF inv(1) round.hyps(3)] inv(1) by (simp add: multi_inv_def)
qed

text \<open>A run that is not finished can be continued, and there are at most \<open>3 * N * m\<close> steps to take.\<close>

lemma multi_producer_can_finish:
  assumes "producer_rounds N m item stub d s"
  shows "\<exists>es s1 c. multi_run N m item (s, \<lambda>_. 0) es (s1, c) \<and> joined N m c"
proof (rule ccontr)
  assume none: "\<not> ?thesis"
  have "\<exists>es s1 c. multi_run N m item (s, \<lambda>_. 0) es (s1, c) \<and> length es = n" for n
  proof (induction n)
    case 0
    show ?case using multi_run.start [where x = "(s, \<lambda>_. 0)"] by blast
  next
    case (Suc n)
    then obtain es s1 c where run: "multi_run N m item (s, \<lambda>_. 0) es (s1, c)" "length es = n" by blast
    have "multi_inv N m item owner s1 c (enqueued es)" "mpsc_inv s1 (enqueued es)"
      using multi_run_inv [OF run(1)] multi_producer_quiet [OF assms] by blast+
    then obtain e y where "multi_step N m item (s1, c) e y" using multi_progress none run(1) by blast
    then have "multi_run N m item (s, \<lambda>_. 0) (es @ [e]) (fst y, snd y)" using multi_run.snoc [OF run(1)] by simp
    then show ?case using run(2) by fastforce
  qed
  then obtain es s1 c where "multi_run N m item (s, \<lambda>_. 0) es (s1, c)" "length es = Suc (N * (3 * m))" by blast
  then show False
    using multi_run_inv [of s es s1 c] multi_producer_quiet [OF assms] steps_done_bound [of s1 c "enqueued es"] by simp
qed

text \<open>One round, for every interleaving of its threads.\<close>

lemma producer_round:
  assumes "producer_rounds N m item stub d s" and "multi_run N m item (s, \<lambda>_. 0) es (s1, c)"
  shows "Fault \<notin> set es \<and> length es \<le> N * (3 * m) \<and>
    (if joined N m c
     then \<exists>xs q. drain mpsc_pop (shared s1) = Some (xs, q) \<and> length xs = N * m \<and>
       list_all (\<lambda>t. filter (\<lambda>x. owner x = t) xs = map (item t) [0..<m]) [0..<N] \<and> dom (heap q) = {mq_head q}
     else \<exists>e y. multi_step N m item (s1, c) e y)"
proof -
  have inv: "multi_inv N m item owner s1 c (enqueued es)" "mpsc_inv s1 (enqueued es)" "Fault \<notin> set es"
    "length es = steps_done N s1 c"
    using multi_run_inv [OF assms(2)] multi_producer_quiet [OF assms(1)] by blast+
  show ?thesis
  proof (cases "joined N m c")
    case True
    obtain q where "drain mpsc_pop (shared s1) = Some (enqueued es, q)" "quiet q []"
      using linked.drain_all [OF joined_contents(1) [OF inv(1,2) True]] by blast
    moreover have "list_all (\<lambda>t. pushed_by owner t (enqueued es) = map (item t) [0..<m]) [0..<N]"
      using joined_contents(3) [OF inv(1,2) True] by (simp add: list_all_iff)
    ultimately show ?thesis
      using inv(3,4) steps_done_bound [OF inv(1)] True joined_contents(2) [OF inv(1,2) True] quiet_empty_one_node
      by (simp only: if_True pushed_by_def) blast
  next
    case False
    then show ?thesis using inv(3,4) steps_done_bound [OF inv(1)] multi_progress [OF inv(1,2)] by simp
  qed
qed

end

end
