(* ===== verification/Bench_Queues.thy ===== *)
theory Bench_Queues
  imports Mpsc_Threads
begin

text \<open>
  The queue workloads of \<^verbatim>\<open>1_orderbook/bench/bench_spsc.cpp\<close>, \<^verbatim>\<open>bench_mpsc.cpp\<close> and the first one of
  \<^verbatim>\<open>bench_profiling.cpp\<close>. All of them fill a queue and empty it again.
\<close>

subsection \<open>bench_spsc.cpp\<close>

text \<open>One iteration, with the two clock readings around it.\<close>

definition ping_pong_round :: "(u64 \<Rightarrow> u64) \<Rightarrow> u64 \<times> u64 \<Rightarrow> u64 spsc \<times> u64 list \<Rightarrow> u64 spsc \<times> u64 list" where
  "ping_pong_round to_ns = (\<lambda>(tsc_start, tsc_end) (q, latencies).
     let (val, q') = spsc_pop 8192 (snd (spsc_push 8192 tsc_start q))
     in (q', case val of None \<Rightarrow> latencies
             | Some _ \<Rightarrow> record_latency 100000 (to_ns (tsc_end - tsc_start)) latencies))"

text \<open>The percentiles are read without a check that there are samples.\<close>

definition spsc_push_pop_ping_pong ::
  "(u64 \<Rightarrow> u64) \<Rightarrow> (u64 \<Rightarrow> u64) \<Rightarrow> (u64 \<times> u64) list \<Rightarrow> (u64 spsc \<times> counters) option" where
  "spsc_push_pop_ping_pong to_ns d readings =
     (let (q, latencies) = fold (ping_pong_round to_ns) readings (spsc_new d, [])
      in map_option (Pair q)
           (read_counters [(''p50_ns'', 1, 2), (''p95_ns'', 95, 100), (''p99_ns'', 99, 100), (''p99.9_ns'', 999, 1000)]
             (sort latencies)))"

definition push_only_fill :: "u64 spsc \<Rightarrow> u64 spsc option" where
  "push_only_fill q = Some (push_all (spsc_push 65536) (map of_nat [0..<10000]) q)"

definition spsc_throughput_push_only :: "(u64 \<Rightarrow> u64) \<Rightarrow> nat \<Rightarrow> u64 spsc option" where
  "spsc_throughput_push_only d n =
     iterate (\<lambda>_ q. push_only_fill q \<bind> (\<lambda>q1. map_option snd (drain (\<lambda>q. Some (spsc_pop 65536 q)) q1)))
       (replicate n ()) (spsc_new d)"

text \<open>A timed push; \<open>clock k\<close> are the readings around the \<open>k\<close>-th of them.\<close>

definition sustained_push ::
  "(u64 \<Rightarrow> u64) \<Rightarrow> (u64 \<Rightarrow> u64 \<times> u64) \<Rightarrow> nat \<Rightarrow> u64 spsc \<times> u64 list \<times> u64 \<Rightarrow> u64 spsc \<times> u64 list \<times> u64" where
  "sustained_push to_ns clock i = (\<lambda>(q, latencies, total_ops).
     let (tsc_start, tsc_end) = clock total_ops
     in (snd (spsc_push 65536 (of_nat i) q),
         record_latency 1000000 (to_ns (tsc_end - tsc_start)) latencies, total_ops + 1))"

definition sustained_round ::
  "(u64 \<Rightarrow> u64) \<Rightarrow> (u64 \<Rightarrow> u64 \<times> u64) \<Rightarrow> u64 spsc \<times> u64 list \<times> u64 \<Rightarrow> (u64 spsc \<times> u64 list \<times> u64) option" where
  "sustained_round to_ns clock s =
     (let (q, latencies, total_ops) = fold (sustained_push to_ns clock) [0..<1000] s
      in map_option (\<lambda>(xs, q'). (q', latencies, total_ops)) (drain (\<lambda>q. Some (spsc_pop 65536 q)) q))"

definition spsc_throughput_sustained ::
  "(u64 \<Rightarrow> u64) \<Rightarrow> (u64 \<Rightarrow> u64 \<times> u64) \<Rightarrow> (u64 \<Rightarrow> u64) \<Rightarrow> nat \<Rightarrow> (u64 spsc \<times> counters) option" where
  "spsc_throughput_sustained to_ns clock d n = do {
     (q, latencies, total_ops) \<leftarrow> iterate (\<lambda>_. sustained_round to_ns clock) (replicate n ()) (spsc_new d, [], 0);
     cs \<leftarrow> report [(''p50_ns'', 1, 2), (''p99_ns'', 99, 100)] (Some ''max_ns'') latencies;
     Some (q, cs)
   }"

subsection \<open>profile_spsc_throughput of bench_profiling.cpp\<close>

definition profile_push_pop ::
  "(u64 \<Rightarrow> u64 \<times> u64) \<Rightarrow> nat \<Rightarrow> u64 spsc \<times> u64 list \<times> u64 \<Rightarrow> u64 spsc \<times> u64 list \<times> u64" where
  "profile_push_pop clock i = (\<lambda>(queue, latencies, ops).
     let (tsc_start, tsc_end) = clock ops;
         (val, queue') = spsc_pop 4096 (snd (spsc_push 4096 (of_nat i) queue))
     in (queue', record_latency 100000 (tsc_end - tsc_start) latencies, ops + 1))"

text \<open>The throughput counter, a rate the harness divides by the time, is the number of operations.\<close>

definition profile_spsc_throughput ::
  "(u64 \<Rightarrow> u64 \<times> u64) \<Rightarrow> (u64 \<Rightarrow> u64) \<Rightarrow> nat \<Rightarrow> (u64 spsc \<times> counters) option" where
  "profile_spsc_throughput clock d n =
     (let (queue, latencies, ops) =
            fold (\<lambda>_. fold (profile_push_pop clock) [0..<100]) (replicate n ()) (spsc_new d, [], 0)
      in map_option (\<lambda>cs. (queue, if cs = [] then [] else (''throughput'', ops) # cs))
           (report [(''p50_cycles'', 1, 2), (''p95_cycles'', 95, 100), (''p99_cycles'', 99, 100),
              (''p99.9_cycles'', 999, 1000)] (Some ''max_cycles'') latencies))"

subsection \<open>bench_mpsc.cpp\<close>

definition mpsc_single_producer ::
  "((nat \<Rightarrow> u64 node option) \<Rightarrow> nat) \<Rightarrow> nat \<Rightarrow> u64 \<Rightarrow> nat \<Rightarrow> u64 mpsc option" where
  "mpsc_single_producer alloc stub d n =
     iterate (\<lambda>_ q. mpsc_push_all alloc (map of_nat [0..<1000]) q \<bind> (\<lambda>q1. map_option snd (drain mpsc_pop q1)))
       (replicate n ()) (mpsc_new stub d)"

definition thread_item :: "nat \<Rightarrow> nat \<Rightarrow> u64" where
  "thread_item t i = of_nat (t * 10000 + i)"

text \<open>The states between the iterations of \<^verbatim>\<open>mpsc_multi_producer\<close>.\<close>

definition mpsc_multi_producer :: "nat \<Rightarrow> u64 \<Rightarrow> u64 mpsc_sys \<Rightarrow> bool" where
  "mpsc_multi_producer stub d s \<longleftrightarrow> producer_rounds 4 250 thread_item stub d s"
subsection \<open>The single-threaded workloads\<close>

lemma cap_ok: "spsc_capacity_ok 8192" "spsc_capacity_ok 65536" "spsc_capacity_ok 4096"
  by (simp_all add: spsc_capacity_ok_def)

lemma push_pop_empty:
  assumes "spsc_inv cap q \<and> spsc_contents cap q = []" and "1 < unat cap"
  shows "\<exists>q'. spsc_pop cap (snd (spsc_push cap x q)) = (Some x, q') \<and> spsc_inv cap q' \<and> spsc_contents cap q' = []"
proof -
  have "0 < unat cap - 1" using assms(2) by simp
  then show ?thesis
    using spsc.push_pop_single [of cap q x] assms(1) spsc.pop_inv [OF spsc.push_inv [of cap q x]]
    by (cases "spsc_pop cap (snd (spsc_push cap x q))") simp
qed

lemma ping_pong_loop:
  assumes "spsc_inv 8192 q \<and> spsc_contents 8192 q = []"
  shows "\<exists>q'. fold (ping_pong_round to_ns) readings (q, ls) =
      (q', fold (\<lambda>(t0, t1). record_latency 100000 (to_ns (t1 - t0))) readings ls) \<and>
    spsc_inv 8192 q' \<and> spsc_contents 8192 q' = []"
  using assms
proof (induction readings arbitrary: q ls)
  case (Cons r readings)
  obtain t0 t1 where r: "r = (t0, t1)" by (cases r)
  obtain q1 where q1: "spsc_pop 8192 (snd (spsc_push 8192 t0 q)) = (Some t0, q1)"
    "spsc_inv 8192 q1 \<and> spsc_contents 8192 q1 = []" using push_pop_empty [OF Cons.prems] by auto
  from Cons.IH [OF q1(2)] show ?case using q1(1) by (simp add: r ping_pong_round_def)
qed simp

lemma record_latency_fold:
  "length ls \<le> capacity \<Longrightarrow> fold (\<lambda>x. record_latency capacity (f x)) xs ls = take capacity (ls @ map f xs)"
proof (induction xs arbitrary: ls)
  case (Cons x xs)
  have "length (record_latency capacity (f x) ls) \<le> capacity" using Cons.prems by (simp add: record_latency_def)
  from Cons.IH [OF this] show ?case using Cons.prems by (auto simp: record_latency_def take_Cons')
qed simp

text \<open>Every iteration pops the value it pushed, so there is a sample per iteration; with no
  iteration the percentiles are read from an empty vector.\<close>

lemma ping_pong_samples:
  "\<exists>q. spsc_push_pop_ping_pong to_ns d readings = map_option (Pair q)
      (read_counters [(''p50_ns'', 1, 2), (''p95_ns'', 95, 100), (''p99_ns'', 99, 100), (''p99.9_ns'', 999, 1000)]
        (sort (take 100000 (map (\<lambda>(t0, t1). to_ns (t1 - t0)) readings)))) \<and> spsc_contents 8192 q = []"
proof -
  have "fold (\<lambda>(t0, t1). record_latency 100000 (to_ns (t1 - t0))) readings [] =
      take 100000 (map (\<lambda>(t0, t1). to_ns (t1 - t0)) readings)"
    using record_latency_fold [of "[]" 100000 "\<lambda>(t0, t1). to_ns (t1 - t0)" readings] by (simp add: case_prod_unfold)
  then obtain q where "fold (ping_pong_round to_ns) readings (spsc_new d, []) =
      (q, take 100000 (map (\<lambda>(t0, t1). to_ns (t1 - t0)) readings))" "spsc_contents 8192 q = []"
    using ping_pong_loop [of "spsc_new d" to_ns readings "[]"] spsc_new_inv [OF cap_ok(1)] by auto
  then show ?thesis by (intro exI [of _ q]) (simp add: spsc_push_pop_ping_pong_def del: read_counters.simps)
qed

lemma ping_pong_without_samples: "spsc_push_pop_ping_pong to_ns d [] = None"
  by (simp add: spsc_push_pop_ping_pong_def percentile_def)

lemma push_only_round:
  assumes "spsc_inv 65536 q \<and> spsc_contents 65536 q = []"
  shows "\<exists>q1. push_only_fill q = Some q1 \<and> spsc_inv 65536 q1 \<and> spsc_contents 65536 q1 = map of_nat [0..<10000]"
proof -
  have "take (unat (65536 :: u64) - 1) (map of_nat [0..<10000]) = map of_nat [0..<10000]"
    by (rule take_all) simp
  then show ?thesis
    using spsc.push_all_elems [of 65536 q "map of_nat [0..<10000]"] spsc.push_all_inv [of 65536 q] assms
    by (simp add: push_only_fill_def del: upt_rec_numeral upt_Suc)
qed

lemma push_only_returns: "\<exists>q. spsc_throughput_push_only d n = Some q \<and> spsc_contents 65536 q = []"
proof -
  have "\<exists>q'. iterate (\<lambda>_ q. push_only_fill q \<bind> (\<lambda>q1. map_option snd (drain (\<lambda>q. Some (spsc_pop 65536 q)) q1)))
      (replicate n ()) (spsc_new d) = Some q' \<and> spsc_inv 65536 q' \<and> spsc_contents 65536 q' = []"
    using push_only_round spsc_new_inv [OF cap_ok(2), of d] by (intro ring.iterate_drain) (simp, blast)
  then show ?thesis by (auto simp: spsc_throughput_push_only_def)
qed

lemma sustained_fold:
  "\<exists>ls'. fold (sustained_push to_ns clock) is (q, ls, k) =
    (push_all (spsc_push 65536) (map of_nat is) q, ls', k + of_nat (length is))"
proof (induction "is" arbitrary: q ls k)
  case (Cons i "is")
  obtain t0 t1 where "clock k = (t0, t1)" by (cases "clock k")
  then show ?case
    using Cons.IH [of "snd (spsc_push 65536 (of_nat i) q)" "record_latency 1000000 (to_ns (t1 - t0)) ls" "k + 1"]
    by (simp add: sustained_push_def algebra_simps)
qed simp

lemma sustained_round_returns:
  assumes "spsc_inv 65536 q \<and> spsc_contents 65536 q = []"
  shows "\<exists>q' ls'. sustained_round to_ns clock (q, ls, k) = Some (q', ls', k + 1000) \<and>
    spsc_inv 65536 q' \<and> spsc_contents 65536 q' = []"
proof -
  obtain q1 ls' where q1: "fold (sustained_push to_ns clock) [0..<1000] (q, ls, k) = (q1, ls', k + 1000)"
    "spsc_inv 65536 q1"
    using sustained_fold [of to_ns clock "[0..<1000]" q ls k] spsc.push_all_inv [of 65536 q] assms
    by (auto simp del: upt_rec_numeral upt_Suc)
  obtain q2 where "drain (\<lambda>q. Some (spsc_pop 65536 q)) q1 = Some (spsc_contents 65536 q1, q2)"
    "spsc_inv 65536 q2 \<and> spsc_contents 65536 q2 = []" using ring.drain_all [of 65536 q1] q1(2) by blast
  then show ?thesis by (simp add: sustained_round_def q1(1) del: upt_rec_numeral upt_Suc)
qed

lemma sustained_returns: "\<exists>q cs. spsc_throughput_sustained to_ns clock d n = Some (q, cs) \<and> spsc_contents 65536 q = []"
proof -
  have "\<exists>q' ls' k'. iterate (\<lambda>_. sustained_round to_ns clock) (replicate n ()) (q, ls, k) = Some (q', ls', k') \<and>
      spsc_contents 65536 q' = []" if "spsc_inv 65536 q \<and> spsc_contents 65536 q = []" for q ls k
    using that
  proof (induction n arbitrary: q ls k)
    case (Suc n)
    obtain q1 ls1 where q1: "sustained_round to_ns clock (q, ls, k) = Some (q1, ls1, k + 1000)"
      "spsc_inv 65536 q1 \<and> spsc_contents 65536 q1 = []" using sustained_round_returns [OF Suc.prems] by blast
    from Suc.IH [OF q1(2)] q1(1) show ?case by simp
  qed simp
  from this [of "spsc_new d" "[]" 0] obtain q ls k where
    "iterate (\<lambda>_. sustained_round to_ns clock) (replicate n ()) (spsc_new d, [], 0) = Some (q, ls, k)"
    "spsc_contents 65536 q = []" using spsc_new_inv [OF cap_ok(2), of d] by auto
  moreover obtain cs where "report [(''p50_ns'', 1, 2), (''p99_ns'', 99, 100)] (Some ''max_ns'') ls = Some cs"
    using report_defined [of "[(''p50_ns'', 1, 2), (''p99_ns'', 99, 100)]" "Some ''max_ns''" ls] by auto
  ultimately show ?thesis by (simp add: spsc_throughput_sustained_def)
qed

text \<open>The profiling loop counts every push and pop, and leaves the queue empty.\<close>

lemma profile_push_pop_fold:
  assumes "spsc_inv 4096 q \<and> spsc_contents 4096 q = []"
  shows "\<exists>q' ls'. fold (profile_push_pop clock) is (q, ls, k) = (q', ls', k + of_nat (length is)) \<and>
    spsc_inv 4096 q' \<and> spsc_contents 4096 q' = []"
  using assms
proof (induction "is" arbitrary: q ls k)
  case (Cons i "is")
  obtain t0 t1 where t: "clock k = (t0, t1)" by (cases "clock k")
  obtain q1 where q1: "spsc_pop 4096 (snd (spsc_push 4096 (of_nat i) q)) = (Some (of_nat i), q1)"
    "spsc_inv 4096 q1 \<and> spsc_contents 4096 q1 = []" using push_pop_empty [OF Cons.prems] by auto
  from Cons.IH [OF q1(2), of "record_latency 100000 (t1 - t0) ls" "k + 1"] q1(1) t show ?case
    by (simp add: profile_push_pop_def algebra_simps)
qed simp

lemma fold_const: "fold (\<lambda>_. fold f xs) (replicate n ()) s = fold f (concat (replicate n xs)) s"
  by (induction n arbitrary: s) simp_all

lemma profile_spsc_returns:
  "\<exists>q cs. profile_spsc_throughput clock d n = Some (q, cs) \<and> spsc_contents 4096 q = [] \<and>
    (cs \<noteq> [] \<longrightarrow> hd cs = (''throughput'', of_nat (n * 100)))"
proof -
  let ?ps = "[(''p50_cycles'', 1, 2), (''p95_cycles'', 95, 100), (''p99_cycles'', 99, 100), (''p99.9_cycles'', 999, 1000)]"
  have len: "length (concat (replicate n [0..<100])) = n * 100" by (simp add: length_concat sum_list_replicate)
  obtain q ls where q: "fold (\<lambda>_. fold (profile_push_pop clock) [0..<100]) (replicate n ()) (spsc_new d, [], 0) =
      (q, ls, of_nat (n * 100))" "spsc_contents 4096 q = []"
    using profile_push_pop_fold [of "spsc_new d" clock "concat (replicate n [0..<100])" "[]" 0]
      spsc_new_inv [OF cap_ok(3), of d] len by (auto simp only: fold_const spsc_new_contents add_0)
  obtain cs where "report ?ps (Some ''max_cycles'') ls = Some cs"
    using report_defined [of ?ps "Some ''max_cycles''" ls] by auto
  then show ?thesis using q by (simp add: profile_spsc_throughput_def)
qed

text \<open>A single producer loses nothing and leaves the one node that \<^verbatim>\<open>head_\<close> points to.\<close>

lemma single_producer_no_leak:
  assumes "allocator_ok alloc"
  shows "\<exists>q. mpsc_single_producer alloc stub d n = Some q \<and> dom (heap q) = {mq_head q}"
proof -
  have "\<exists>q'. iterate (\<lambda>_ q. mpsc_push_all alloc (map of_nat [0..<1000]) q \<bind> (\<lambda>q1. map_option snd (drain mpsc_pop q1)))
      (replicate n ()) (mpsc_new stub d) = Some q' \<and> quiet q' []"
    using quiet_push_all [OF assms] by (intro linked.iterate_drain quiet_new) blast
  then show ?thesis using quiet_empty_one_node by (auto simp: mpsc_single_producer_def)
qed

subsection \<open>Properties\<close>

interpretation bench_threads: producers 4 250 thread_item "\<lambda>x. unat x div 10000"
proof
  fix t i :: nat assume "t < 4" "i < 250"
  then have "unat (thread_item t i) = t * 10000 + i" by (simp only: thread_item_def unat_of_nat) simp
  then show "unat (thread_item t i) div 10000 = t" using \<open>i < 250\<close> by simp
qed

text \<open>
  C6. An iteration of the multi-producer workload, for every interleaving of its four threads:
  no step touches freed memory; the threads take at most 3000 steps, and while one of them
  is not done some thread can take a step; and once all are joined, emptying the queue
  returns, giving a thousand values in which those of each thread are the 250 it pushed, in
  its order, and leaving a single node allocated.
\<close>

theorem multi_producer_round:
  assumes "mpsc_multi_producer stub d s" and "multi_run 4 250 thread_item (s, \<lambda>_. 0) es (s1, c)"
  shows "Fault \<notin> set es \<and> length es \<le> 3000 \<and>
    (if joined 4 250 c
     then \<exists>xs q. drain mpsc_pop (shared s1) = Some (xs, q) \<and> length xs = 1000 \<and>
       list_all (\<lambda>t. filter (\<lambda>x. unat x div 10000 = t) xs = map (thread_item t) [0..<250]) [0..<4] \<and>
       dom (heap q) = {mq_head q}
     else \<exists>e y. multi_step 4 250 thread_item (s1, c) e y)"
proof -
  have num: "4 * (3 * 250) = (3000 :: nat)" "4 * 250 = (1000 :: nat)" by simp_all
  show ?thesis
    using bench_threads.producer_round [OF assms(1) [unfolded mpsc_multi_producer_def] assms(2)] unfolding num .
qed

lemma multi_producer_round_witness:
  "\<exists>es s1 c xs q. multi_run 4 250 thread_item (mpsc_init 0 0, \<lambda>_. 0) es (s1, c) \<and> joined 4 250 c \<and>
    drain mpsc_pop (shared s1) = Some (xs, q) \<and> length xs = 1000"
proof -
  note first = producer_rounds.first [of 4 250 thread_item 0 0]
  obtain es s1 c where run: "multi_run 4 250 thread_item (mpsc_init 0 0, \<lambda>_. 0) es (s1, c)" "joined 4 250 c"
    using bench_threads.multi_producer_can_finish [OF first] by blast
  then obtain xs q where "drain mpsc_pop (shared s1) = Some (xs, q)" "length xs = 1000"
    using multi_producer_round [OF first [folded mpsc_multi_producer_def] run(1)] by (simp only: if_True) blast
  then show ?thesis using run by blast
qed

end
