(* ===== verification/Unit_Tests.thy ===== *)
theory Unit_Tests
  imports Book_Theorems Bench_Queues Fix_Pipeline
begin

text \<open>
  The test cases of the repository, as computations on the model: every \<^verbatim>\<open>REQUIRE\<close> of a case is a
  conjunct of a definition, and the definition evaluates to true. They tie the model to
  behaviour the authors of the code have written down, independently of the proofs.
\<close>

subsection \<open>test_orderbook.cpp\<close>

definition after_orders :: "(side \<times> int \<times> u32) list \<Rightarrow> (order_book \<Rightarrow> bool) \<Rightarrow> bool" where
  "after_orders os require =
     (case run_ops (\<lambda>n. 0) (map (\<lambda>(sd, p, q). Add sd p q Limit) os) (order_book_new 1 (\<lambda>_. 0)) of
        None \<Rightarrow> False | Some ob \<Rightarrow> require ob)"

definition test_add_resting_order :: bool where
  "test_add_resting_order \<longleftrightarrow>
     (case add_order (\<lambda>n. 0) Buy 10000 100 Limit (order_book_new 1 (\<lambda>_. 0)) of None \<Rightarrow> False
      | Some (order_id, ob) \<Rightarrow> order_id > 0 \<and> matches ob = [] \<and>
          (case best_bid ob of None \<Rightarrow> False | Some bid \<Rightarrow> lvl_price_ticks bid = 10000 \<and> lvl_total_quantity bid = 100))"

definition test_immediate_match :: bool where
  "test_immediate_match \<longleftrightarrow> after_orders [(Buy, 10000, 100), (Sell, 9500, 100)]
     (\<lambda>ob. map (\<lambda>m. (mr_quantity m, mr_price_ticks m)) (matches ob) = [(100, 10000)])"

definition test_partial_match :: bool where
  "test_partial_match \<longleftrightarrow> after_orders [(Buy, 10000, 100), (Sell, 9500, 60)]
     (\<lambda>ob. map mr_quantity (matches ob) = [60] \<and>
        (case best_bid ob of None \<Rightarrow> False | Some bid \<Rightarrow> lvl_total_quantity bid = 40))"

definition test_multiple_price_levels :: bool where
  "test_multiple_price_levels \<longleftrightarrow>
     after_orders [(Buy, 10000, 100), (Buy, 9500, 100), (Buy, 9000, 100), (Sell, 8500, 250)]
       (\<lambda>ob. map mr_price_ticks (matches ob) = [10000, 9500, 9000])"

definition test_spread :: bool where
  "test_spread \<longleftrightarrow> after_orders [(Buy, 10000, 100), (Sell, 10100, 100)] (\<lambda>ob. spread_ticks ob = Some 100)"

definition test_empty_spread :: bool where
  "test_empty_spread \<longleftrightarrow> after_orders [] (\<lambda>ob. spread_ticks ob = Some INT64_MAX)"

definition test_sell_side_ordering :: bool where
  "test_sell_side_ordering \<longleftrightarrow> after_orders [(Sell, 10500, 100), (Sell, 10000, 100), (Sell, 10200, 100)]
     (\<lambda>ob. case best_ask ob of None \<Rightarrow> False | Some ask \<Rightarrow> lvl_price_ticks ask = 10000)"

lemmas test_eval = after_orders_def best_bid_def best_ask_def spread_ticks_def i64_ok_def INT64_MAX_def INT64_MIN_def

lemma orderbook_tests_pass:
  "test_add_resting_order" "test_immediate_match" "test_partial_match" "test_multiple_price_levels"
  "test_spread" "test_empty_spread" "test_sell_side_ordering"
  unfolding test_add_resting_order_def test_immediate_match_def test_partial_match_def test_multiple_price_levels_def
    test_spread_def test_empty_spread_def test_sell_side_ordering_def
  by (simp_all add: test_eval book_eval flip: fresh_def)

subsection \<open>test_spsc.cpp\<close>

definition test_basic_push_pop :: bool where
  "test_basic_push_pop \<longleftrightarrow>
     (let q0 = spsc_new (\<lambda>_. 0 :: int); (pushed, q1) = spsc_push 64 42 q0; (val, q2) = spsc_pop 64 q1
      in spsc_empty q0 \<and> pushed \<and> \<not> spsc_empty q1 \<and> val = Some 42 \<and> spsc_empty q2)"

text \<open>Pushing and then popping these values: all are accepted and come out in order.\<close>

definition fill_and_drain :: "u64 \<Rightarrow> int list \<Rightarrow> int spsc \<Rightarrow> bool \<times> int spsc" where
  "fill_and_drain cap xs q =
     (let (acc, out, q') = run_fifo (spsc_push cap) (spsc_pop cap) (map Push xs @ replicate (length xs) Pop) q
      in (acc = xs \<and> out = xs, q'))"

definition test_multiple_items :: bool where
  "test_multiple_items \<longleftrightarrow>
     (let (ok, q) = fill_and_drain 128 (map int [0..<100]) (spsc_new (\<lambda>_. 0)) in ok \<and> spsc_empty q)"

definition test_full_detection :: bool where
  "test_full_detection \<longleftrightarrow>
     (let (acc, out, q) = run_fifo (spsc_push 16) (spsc_pop 16) (map Push (map int [0..<15])) (spsc_new (\<lambda>_. 0))
      in acc = map int [0..<15] \<and> \<not> fst (spsc_push 16 999 q))"

definition test_empty_on_pop :: bool where
  "test_empty_on_pop \<longleftrightarrow> fst (spsc_pop 64 (spsc_new (\<lambda>_. 0 :: int))) = None"

definition test_wrap_around :: bool where
  "test_wrap_around \<longleftrightarrow> fst (fold (\<lambda>round (ok, q). let (ok', q') = fill_and_drain 8 (map (\<lambda>i. round * 100 + int i) [0..<7]) q
     in (ok \<and> ok', q')) [0, 1, 2] (True, spsc_new (\<lambda>_. 0)))"

lemma spsc_tests_pass:
  "test_basic_push_pop" "test_multiple_items" "test_full_detection" "test_empty_on_pop" "test_wrap_around"
  by code_simp+

subsection \<open>test_mpsc.cpp\<close>

text \<open>The cases that use one thread.\<close>

datatype mpsc_call = CallPush int | CallPop "int option"

fun mpsc_script :: "nat \<Rightarrow> mpsc_call list \<Rightarrow> int mpsc \<Rightarrow> bool" where
  "mpsc_script a [] q = True"
| "mpsc_script a (CallPush x # cs) q = (case mpsc_push a x q of None \<Rightarrow> False | Some q' \<Rightarrow> mpsc_script (a + 1) cs q')"
| "mpsc_script a (CallPop expected # cs) q =
     (case mpsc_pop q of None \<Rightarrow> False | Some (val, q') \<Rightarrow> val = expected \<and> mpsc_script a cs q')"

definition test_single_producer :: bool where
  "test_single_producer \<longleftrightarrow> mpsc_script 1 [CallPush 42, CallPush 43, CallPush 44, CallPop (Some 42), CallPop (Some 43),
     CallPop (Some 44), CallPop None] (mpsc_new 0 0)"

definition test_mpsc_empty_on_pop :: bool where
  "test_mpsc_empty_on_pop \<longleftrightarrow> mpsc_script 1 [CallPop None] (mpsc_new 0 0)"

definition test_alternating :: bool where
  "test_alternating \<longleftrightarrow> mpsc_script 1 [CallPush 1, CallPop (Some 1), CallPush 2, CallPush 3, CallPop (Some 2), CallPop (Some 3)]
     (mpsc_new 0 0)"

lemma mpsc_tests_pass: "test_single_producer" "test_mpsc_empty_on_pop" "test_alternating"
  by code_simp+

text \<open>The case with four threads of 25 values each, for every interleaving of the threads.\<close>

definition test_item :: "nat \<Rightarrow> nat \<Rightarrow> int" where
  "test_item p i = int p * 1000 + int i"

interpretation test_threads: producers 4 25 test_item "\<lambda>x. nat (x div 1000)"
  by unfold_locales (simp add: test_item_def)

lemma multiple_producers_test_passes:
  assumes "multi_run 4 25 test_item (mpsc_init stub d, \<lambda>_. 0) es (s1, c)" and "joined 4 25 c"
  shows "\<exists>xs q. drain mpsc_pop (shared s1) = Some (xs, q) \<and> length xs = 4 * 25"
  using test_threads.producer_round [OF producer_rounds.first assms(1)] assms(2) by auto

subsection \<open>test_fix_parser.cpp\<close>

text \<open>A message is written as its fields; each ends with the delimiter.\<close>

definition soh_fields :: "string list \<Rightarrow> bytes" where
  "soh_fields fs = concat (map (\<lambda>f. text_bytes f @ [SOH]) fs)"

definition parsed :: "bytes option \<Rightarrow> (fix_message \<Rightarrow> bool) \<Rightarrow> bool" where
  "parsed buf require = (case parse buf of None \<Rightarrow> False | Some m \<Rightarrow> require m)"

definition test_new_order_single :: bool where
  "test_new_order_single \<longleftrightarrow>
     parsed (Some (soh_fields [''35=D'', ''11=ORDER123'', ''55=AAPL'', ''54=1'', ''38=100'', ''44=150.5000'', ''40=2'', ''10=123'']))
       (\<lambda>m. valid m \<and> msg_type m = NewOrderSingle \<and> cl_ord_id m = text_bytes ''ORDER123'' \<and> fix_symbol m = text_bytes ''AAPL'' \<and>
          fix_side m = 1 \<and> order_qty m = 100 \<and> ord_type m = 2)"

definition test_order_cancel_req :: bool where
  "test_order_cancel_req \<longleftrightarrow> parsed (Some (soh_fields [''35=F'', ''41=ORDER123'', ''10=045'']))
     (\<lambda>m. valid m \<and> msg_type m = OrderCancelReq)"

definition test_execution_report :: bool where
  "test_execution_report \<longleftrightarrow> parsed (Some (soh_fields [''35=8'', ''50=EXEC123'', ''10=234'']))
     (\<lambda>m. valid m \<and> msg_type m = ExecutionReport)"

definition test_price_conversion :: bool where
  "test_price_conversion \<longleftrightarrow> parsed (Some (soh_fields [''35=D'', ''44=123.4567'', ''10=123''])) (\<lambda>m. valid m \<and> price_ticks m > 0)"

definition test_empty_buffer :: bool where
  "test_empty_buffer \<longleftrightarrow> parsed None (\<lambda>m. \<not> valid m)"

definition test_missing_soh :: bool where
  "test_missing_soh \<longleftrightarrow> parsed (Some (text_bytes ''35=D11=ORDER123'')) (\<lambda>m. \<not> valid m \<or> msg_type m = NewOrderSingle)"

definition test_symbol_field :: bool where
  "test_symbol_field \<longleftrightarrow> parsed (Some (soh_fields [''35=D'', ''55=MSFT'', ''10=123'']))
     (\<lambda>m. valid m \<and> fix_symbol m = text_bytes ''MSFT'')"

definition test_zero_quantity :: bool where
  "test_zero_quantity \<longleftrightarrow> parsed (Some (soh_fields [''35=D'', ''38=0'', ''10=123''])) (\<lambda>m. valid m \<and> order_qty m = 0)"

definition test_sell_side :: bool where
  "test_sell_side \<longleftrightarrow> parsed (Some (soh_fields [''35=D'', ''54=2'', ''10=123''])) (\<lambda>m. valid m \<and> fix_side m = 2)"

lemma fix_tests_pass:
  "test_new_order_single" "test_order_cancel_req" "test_execution_report" "test_price_conversion" "test_empty_buffer"
  "test_missing_soh" "test_symbol_field" "test_zero_quantity" "test_sell_side"
  by code_simp+

end
