(* ===== verification/Fpga_Parser.thy ===== *)
theory Fpga_Parser
  imports Prelude
begin

text \<open>
  The hardware parser \<^verbatim>\<open>3_fpga/rtl/fix_parser.v\<close>, one step per event of its \<^verbatim>\<open>always\<close> block. All
  assignments are nonblocking: a step reads the registers before the clock edge. \<^verbatim>\<open>next_state\<close> is
  a register too, and neither it nor the output fields are reset; their values at power-up are
  part of the start state. A register that holds no known value is \<open>None\<close> (X in simulation), on
  which no branch of a \<^verbatim>\<open>case\<close> is taken.
\<close>

type_synonym u3 = "3 word"
type_synonym u48 = "48 word"

abbreviation IDLE :: u3 where "IDLE \<equiv> 0"
abbreviation PARSE_TAG :: u3 where "PARSE_TAG \<equiv> 1"
abbreviation PARSE_VALUE :: u3 where "PARSE_VALUE \<equiv> 2"
abbreviation PROCESS_FIELD :: u3 where "PROCESS_FIELD \<equiv> 3"
abbreviation MSG_COMPLETE :: u3 where "MSG_COMPLETE \<equiv> 4"

record fix_parser =
  fp_state :: "u3 option"
  fp_next_state :: "u3 option"
  current_tag :: u16
  current_value :: u32
  byte_count :: u8
  o_begin_string :: "u32 option"
  o_msg_type :: "u16 option"
  o_sender_comp_id :: "u48 option"
  o_target_comp_id :: "u48 option"
  o_sequence :: "u32 option"
  o_msg_valid :: bool

definition fp_reset :: "fix_parser \<Rightarrow> fix_parser" where
  "fp_reset s = s\<lparr>fp_state := Some IDLE, current_tag := 0, current_value := 0, byte_count := 0, o_msg_valid := False\<rparr>"

text \<open>The decoding of a field by its tag.\<close>

definition process_field :: "fix_parser \<Rightarrow> fix_parser" where
  "process_field s =
     (if current_tag s = 8 then s\<lparr>o_begin_string := Some (current_value s)\<rparr>
      else if current_tag s = 35 then s\<lparr>o_msg_type := Some (ucast (current_value s))\<rparr>
      else if current_tag s = 49 then s\<lparr>o_sender_comp_id := Some (ucast (current_value s))\<rparr>
      else if current_tag s = 56 then s\<lparr>o_target_comp_id := Some (ucast (current_value s))\<rparr>
      else if current_tag s = 34 then s\<lparr>o_sequence := Some (current_value s)\<rparr>
      else s)"

text \<open>What the state of the clock edge does with a valid byte.\<close>

definition fp_byte :: "u8 \<Rightarrow> u3 \<Rightarrow> fix_parser \<Rightarrow> fix_parser" where
  "fp_byte i_data st s =
     (if st = IDLE then
        (if 48 \<le> i_data \<and> i_data \<le> 57
         then s\<lparr>byte_count := 0, current_tag := push_bit 8 (current_tag s) OR ucast i_data, fp_next_state := Some PARSE_TAG\<rparr>
         else s\<lparr>byte_count := 0\<rparr>)
      else if st = PARSE_TAG then
        (if i_data = 61 then s\<lparr>fp_next_state := Some PARSE_VALUE, byte_count := 0\<rparr>
         else if 48 \<le> i_data \<and> i_data \<le> 57
         then s\<lparr>current_tag := push_bit 8 (drop_bit 8 (current_tag s)) OR ucast i_data\<rparr>
         else s)
      else if st = PARSE_VALUE then
        (if i_data = 124 then s\<lparr>fp_next_state := Some PROCESS_FIELD\<rparr>
         else s\<lparr>current_value := push_bit 8 (current_value s) OR ucast i_data, byte_count := byte_count s + 1\<rparr>)
      else if st = PROCESS_FIELD then (process_field s)\<lparr>fp_next_state := Some IDLE\<rparr>
      else if st = MSG_COMPLETE then s\<lparr>o_msg_valid := True, fp_next_state := Some IDLE\<rparr>
      else s)"

definition fp_clock :: "u8 \<Rightarrow> bool \<Rightarrow> fix_parser \<Rightarrow> fix_parser" where
  "fp_clock i_data i_valid s =
     (let s1 = (if i_valid then (case fp_state s of None \<Rightarrow> s | Some st \<Rightarrow> fp_byte i_data st s) else s)
      in s1\<lparr>fp_state := fp_next_state s\<rparr>)"

definition o_ready :: "fix_parser \<Rightarrow> bool option" where
  "o_ready s = map_option (\<lambda>st. st = IDLE) (fp_state s)"

datatype fp_event = ResetLow | Clock u8 bool

fun fp_step :: "fp_event \<Rightarrow> fix_parser \<Rightarrow> fix_parser" where
  "fp_step ResetLow s = fp_reset s"
| "fp_step (Clock i_data i_valid) s = fp_clock i_data i_valid s"

text \<open>The stimulus of \<^verbatim>\<open>3_fpga/tb/fix_parser_tb.v\<close>: two clocks in reset, two after it, then every byte
  valid for one clock and not for the next.\<close>

definition send_byte :: "char \<Rightarrow> fp_event list" where
  "send_byte c = [Clock (of_char c) True, Clock (of_char c) False]"

definition testbench :: "fp_event list" where
  "testbench = [ResetLow, ResetLow, ResetLow, Clock 0 False, Clock 0 False] @
     concat (map send_byte ''8=FIX|35=D|34=SEN|'') @ replicate 10 (Clock 124 False)"

subsection \<open>Invariant\<close>

text \<open>The tag register holds ASCII digits, never the number they spell.\<close>

definition fp_inv :: "fix_parser \<Rightarrow> fix_parser \<Rightarrow> bool" where
  "fp_inv s0 s \<longleftrightarrow> fp_state s \<noteq> Some MSG_COMPLETE \<and> fp_next_state s \<noteq> Some MSG_COMPLETE \<and> \<not> o_msg_valid s \<and>
     (current_tag s = 0 \<or> 48 \<le> (ucast (current_tag s) :: u8) \<and> (ucast (current_tag s) :: u8) \<le> 57) \<and>
     o_begin_string s = o_begin_string s0 \<and> o_msg_type s = o_msg_type s0 \<and> o_sequence s = o_sequence s0"

lemma low_byte_tag: "(ucast (push_bit 8 t OR ucast i :: u16) :: u8) = i"
  by (rule bit_word_eqI) (simp add: bit_simps)

lemma tag_not_decoded:
  assumes "t = (0 :: u16) \<or> 48 \<le> (ucast t :: u8) \<and> (ucast t :: u8) \<le> 57"
  shows "t \<noteq> 8" "t \<noteq> 35" "t \<noteq> 34"
  using assms by auto

lemma fp_byte_inv:
  assumes "fp_inv s0 s" and "fp_state s = Some st"
  shows "fp_inv s0 ((fp_byte i_data st s)\<lparr>fp_state := fp_next_state s\<rparr>)"
proof -
  have tag: "current_tag s \<noteq> 8" "current_tag s \<noteq> 35" "current_tag s \<noteq> 34"
    using assms(1) tag_not_decoded [of "current_tag s"] by (simp_all add: fp_inv_def)
  have "st \<noteq> MSG_COMPLETE" using assms by (simp add: fp_inv_def)
  then show ?thesis
    using assms(1) tag by (simp add: fp_inv_def fp_byte_def process_field_def low_byte_tag)
qed

lemma fp_step_inv: "fp_inv s0 s \<Longrightarrow> fp_inv s0 (fp_step e s)"
proof (cases e)
  case ResetLow
  then show "fp_inv s0 s \<Longrightarrow> ?thesis" by (simp add: fp_inv_def fp_reset_def)
next
  case (Clock i_data i_valid)
  assume inv: "fp_inv s0 s"
  have idle: "fp_inv s0 (s\<lparr>fp_state := fp_next_state s\<rparr>)" using inv by (simp add: fp_inv_def)
  show ?thesis
  proof (cases "i_valid \<and> fp_state s \<noteq> None")
    case True
    then obtain st where "fp_state s = Some st" by auto
    then show ?thesis using True fp_byte_inv [OF inv] by (simp add: Clock fp_clock_def)
  next
    case False
    then show ?thesis using idle by (auto simp: Clock fp_clock_def)
  qed
qed

lemma fp_run_inv: "fp_inv s0 s \<Longrightarrow> fp_inv s0 (fold fp_step es s)"
  by (induction es arbitrary: s) (simp_all add: fp_step_inv)

subsection \<open>Properties\<close>

text \<open>
  C40. The hardware parser never delivers a message. Unless it powers up in the state that no
  branch enters, then after a reset and for every sequence of bytes, clocks and resets the
  message is never reported complete, and the fields for the begin string, the message type
  and the sequence number keep the values of power-up: the tag register holds the characters
  of the tag, which never equal the numbers it is compared with.
\<close>

theorem fpga_never_delivers:
  assumes "fp_next_state s0 \<noteq> Some MSG_COMPLETE"
  shows "let s = fold fp_step es (fp_reset s0) in \<not> o_msg_valid s \<and>
    o_begin_string s = o_begin_string s0 \<and> o_msg_type s = o_msg_type s0 \<and> o_sequence s = o_sequence s0"
proof -
  have "fp_inv s0 (fp_reset s0)" using assms by (simp add: fp_inv_def fp_reset_def)
  from fp_run_inv [OF this, of es] show ?thesis by (simp add: fp_inv_def Let_def)
qed

text \<open>Registers as the device powers up, and as a simulator starts.\<close>

definition fp_power_up :: "u3 option \<Rightarrow> fix_parser" where
  "fp_power_up ns = \<lparr>fp_state = ns, fp_next_state = ns, current_tag = 0, current_value = 0, byte_count = 0,
     o_begin_string = None, o_msg_type = None, o_sender_comp_id = None, o_target_comp_id = None, o_sequence = None,
     o_msg_valid = False\<rparr>"

lemma fpga_never_delivers_witness:
  "\<not> o_msg_valid (fold fp_step testbench (fp_reset (fp_power_up (Some IDLE)))) \<and>
   o_begin_string (fold fp_step testbench (fp_reset (fp_power_up (Some IDLE)))) = None"
  using fpga_never_delivers [of "fp_power_up (Some IDLE)" testbench] by (simp add: fp_power_up_def Let_def)

text \<open>The value of the first field of the testbench, whose tag is 8, ends up as the target id:
  56 is the code of the character.\<close>

lemma testbench_target:
  "o_target_comp_id (fold fp_step testbench (fp_power_up (Some IDLE))) = Some 0x464958"
  by code_simp

text \<open>A simulator starts with an unknown next state, which the first clock after reset copies; no
  later byte gets the parser out of it.\<close>

lemma unknown_state_stays:
  assumes "fp_state s = None" and "fp_next_state s = None" and "ResetLow \<notin> set es"
  shows "fp_state (fold fp_step es s) = None \<and> o_ready (fold fp_step es s) = None"
proof -
  have "fp_state (fp_step e s) = None \<and> fp_next_state (fp_step e s) = None"
    if "fp_state s = None" "fp_next_state s = None" "e \<noteq> ResetLow" for e s
    using that by (cases e) (auto simp: fp_clock_def)
  then have "fp_state (fold fp_step es s) = None" using assms
    by (induction es arbitrary: s) auto
  then show ?thesis by (simp add: o_ready_def)
qed

lemma simulated_reset_locks_up:
  assumes "ResetLow \<notin> set es"
  shows "o_ready (fold fp_step (Clock b False # es) (fp_reset (fp_power_up None))) = None"
  using unknown_state_stays [of "fp_step (Clock b False) (fp_reset (fp_power_up None))" es] assms
  by (simp add: fp_clock_def fp_reset_def fp_power_up_def)

text \<open>With a byte in every clock the separator after a one-digit tag is not seen: the state lags
  a clock behind.\<close>

lemma separator_missed:
  "fp_state (fold fp_step (map (\<lambda>c. Clock (of_char c) True) ''8=FIX|'') (fp_reset (fp_power_up (Some IDLE)))) = Some PARSE_TAG"
  by code_simp

end
