(* ===== verification/Spec2Isabelle.thy ===== *)
theory Spec2Isabelle
  imports Book_Theorems Spsc_Concurrent Fix_Pipeline Mpsc_Queue Hazard_Pointers Tsc_Clock Xdp_Redirect Xsk_Socket
    Bench_Churn Bench_Network Unit_Tests Fpga_Parser
begin

text \<open>
  This development models and verifies the trading engine: the order book and its lock-free
  helpers under \<^verbatim>\<open>1_orderbook/\<close>, and the network path that parses FIX messages and submits
  orders under \<^verbatim>\<open>2_network/\<close>, with the benchmark programs of both and the hardware parser under
  \<^verbatim>\<open>3_fpga/\<close>. The program is a pipeline. A XDP program picks packets out of the
  network stack and redirects them to an AF_XDP socket; the socket's receive loop takes
  batches of frames from a packet memory, parses each as a FIX message and calls back; the
  handler submits new orders to the book, which matches them against the resting levels and
  reports fills. Pools and queues carry the slots and the messages in between, a clock times
  the whole.

  \<^bold>\<open>Conventions.\<close> Unsigned integers are words of their width; signed prices are \<open>int\<close> with
  the 64-bit range \<open>i64_ok\<close> checked where the code computes with them. An operation that C++
  leaves undefined, an access to unmapped or freed memory, and a loop that does not end have
  the result \<open>None\<close>; so a theorem that gives \<open>Some\<close> says that the code returns and does so
  without undefined behaviour. Matching loops are \<open>while_option\<close>, other loops are recursion on
  the data or on the number of iterations, so there is no fuel to choose. System calls,
  libraries and clock readings are arguments, with what their documentation promises as
  named hypotheses (\<open>mmap_fresh\<close>, \<open>ieee_rounding\<close>).

  \<^bold>\<open>Theories.\<close>

  \<^item> \<open>Prelude\<close>: word types and facts on words, masks and lists.

  \<^item> \<open>Fifo_Interface\<close>, \<open>Spsc_Queue\<close>: the locales of a (bounded) FIFO queue, and \<^verbatim>\<open>SpscQueue\<close> of
    \<^verbatim>\<open>spsc_queue.hpp\<close> as a record of ring, head and tail with \<open>spsc_push\<close>, \<open>spsc_pop\<close>, \<open>spsc_size\<close>,
    \<open>spsc_empty\<close>. Every sequence of calls behaves as the FIFO queue (interpretation \<open>spsc\<close>);
    a push is refused exactly when capacity - 1 elements are held.

  \<^item> \<open>Spsc_Concurrent\<close>: the same queue used by two threads, one step per load or store. Every
    interleaving is a legal history of the bounded FIFO queue, without a data race.

  \<^item> \<open>Price_Ladder\<close>: \<^verbatim>\<open>FlatPriceLadder\<close> of \<^verbatim>\<open>price_level.hpp\<close>, a sorted vector of levels with binary
    search. The searches equal linear scans, and the ladder implements a finite map from
    prices to levels (interpretation \<open>flat\<close>).

  \<^item> \<open>Matching_Spec\<close>, \<open>Order_Book\<close>: the contract of one aggressive side as a locale with an
    abstract matching function on natural-number levels, and \<^verbatim>\<open>OrderBook\<close> of \<^verbatim>\<open>order_book.hpp\<close> and
    \<^verbatim>\<open>order_book.cpp\<close>: the record \<open>order_book\<close> (pool, id table, free list, ladders, fills),
    \<open>order_book_new\<close>, \<open>add_order\<close>, \<open>match_aggressive_buy\<close>, \<open>match_aggressive_sell\<close>, \<open>cancel_order\<close> and
    the queries. Both loops meet the contract (interpretations \<open>buy\<close> and \<open>sell\<close>).

  \<^item> \<open>Book_Properties\<close>, \<open>Book_Runs\<close>, \<open>Book_Theorems\<close>: the book invariant, sequences of submissions
    and cancellations, and the properties: refinement of an abstract book, an uncrossed book,
    conservation of quantity, price priority, termination below \<open>2 ^ 32\<close> of total quantity and
    divergence above, ids, what cancellation and the slot pool really do, and that a book
    without a free slot refuses every order.

  \<^item> \<open>Fix_Message\<close>, \<open>Fix_Theorems\<close>: \<^verbatim>\<open>FixMessage\<close>, \<^verbatim>\<open>parse\<close> and \<^verbatim>\<open>verify_checksum\<close> of
    \<^verbatim>\<open>fix_message.cpp\<close> on byte lists. Parsing an encoded list of fields recovers the fields; when
    a message is valid; what a malformed one gives; the value of a price field; where parsing
    is free of undefined behaviour; and that correct checksums are rejected.

  \<^item> \<open>Fix_Pipeline\<close>: the message generator and the handler of \<^verbatim>\<open>bench_fix_pipeline.cpp\<close>; generated
    messages round-trip, and feeding them to a book is running the orders. \<open>field_op\<close> tells the
    order a list of fields asks for from the fields alone, as the reference for any message.

  \<^item> \<open>Mpsc_Queue\<close>: \<^verbatim>\<open>MpscQueue\<close> of \<^verbatim>\<open>mpsc_queue.hpp\<close> on a heap of nodes, one step per atomic operation,
    with a labelled step relation for any number of producers and one consumer under
    sequential consistency. No step touches freed memory, values come out in the order of the
    exchanges on \<^verbatim>\<open>tail_\<close>, nothing is lost once the pushes have returned, and the destructor frees
    every node.

  \<^item> \<open>Hazard_Pointers\<close>: \<^verbatim>\<open>HazardPointerDomain\<close> of \<^verbatim>\<open>hazard_pointers.hpp\<close> with the set of allocated
    objects. Protected objects are not deleted, garbage is bounded, legal calls are safe.

  \<^item> \<open>Tsc_Clock\<close>: \<^verbatim>\<open>calibrate\<close> and \<^verbatim>\<open>tsc_to_ns\<close> of \<^verbatim>\<open>tsc_clock.cpp\<close> over reals with rounding;
    monotonicity and an error bound.

  \<^item> \<open>Xdp_Redirect\<close>: the programs of \<^verbatim>\<open>bpf/xdp_fix_redirect.c\<close> and \<^verbatim>\<open>ebpf/redirect.bpf.c\<close> on packet
    bytes; memory safety and exactly which packets they redirect.

  \<^item> \<open>Umem\<close>: \<^verbatim>\<open>Umem\<close> of \<^verbatim>\<open>umem.hpp\<close> and \<^verbatim>\<open>umem.cpp\<close> on an explicit address space; its life cycle and the
    partition into frames.

  \<^item> \<open>Xsk_Socket\<close>: \<^verbatim>\<open>XskSocket\<close> of \<^verbatim>\<open>xsk_socket.hpp\<close> and \<^verbatim>\<open>xsk_socket.cpp\<close>, with and without the BPF
    library; ownership of handles and memory on every path, what the fill ring is given, and
    the accounting of the receive loop.

  \<^item> \<open>Latency_Stats\<close>, \<open>Book_Ladders\<close>: what the benchmark programs share, a timed loop, percentiles of
    its samples (each is the order statistic it is named for), and books whose levels stand
    at regular prices.

  \<^item> \<open>Bench_Book\<close>, \<open>Bench_Churn\<close>: the workloads of \<^verbatim>\<open>bench_orderbook.cpp\<close> and \<^verbatim>\<open>bench_realistic.cpp\<close> and the
    order book ones of \<^verbatim>\<open>bench_profiling.cpp\<close>. Which fills every iteration produces and what book it
    leaves; that two workloads named for matching stop matching; and that the churn workload
    cancels its newest orders, without effect on the book.

  \<^item> \<open>Queue_Drain\<close>, \<open>Mpsc_Threads\<close>, \<open>Bench_Queues\<close>: the workloads of \<^verbatim>\<open>bench_spsc.cpp\<close> and \<^verbatim>\<open>bench_mpsc.cpp\<close>.
    The locale \<open>drainable\<close> is what \<^verbatim>\<open>while (q.pop()) {}\<close> needs; both queues interpret it (\<open>ring\<close>,
    \<open>linked\<close>). The locale \<open>producers\<close> is a group of producer threads, interpreted by the benchmark
    (\<open>bench_threads\<close>) and the test (\<open>test_threads\<close>): in any interleaving they finish, and their values
    come out in the order of each thread.

  \<^item> \<open>Bench_Micro\<close>, \<open>Bench_Network\<close>: the memory, cache and branch workloads with the point at which
    their sums overflow, and the workloads of \<^verbatim>\<open>bench_fix_pipeline.cpp\<close> and \<^verbatim>\<open>bench_af_xdp.cpp\<close>, among
    them the fills of any number of passes over ten thousand generated messages, up to and
    beyond the point where the book's pool runs dry.

  \<^item> \<open>Fpga_Parser\<close>: the clocked process of \<^verbatim>\<open>3_fpga/rtl/fix_parser.v\<close> with the stimulus of its testbench;
    it never delivers a message.

  \<^item> \<open>Unit_Tests\<close>: the test cases of the repository evaluated on the model.

  \<^item> This theory: the parser, the handler and the book together. The repository has no code
    that joins the socket's callback to the book, so the receive loop ends at its callbacks.

  \<^bold>\<open>Assumed of the environment.\<close> The address space is taken byte by byte: \<open>munmap\<close> removes
  exactly the bytes of its range and does not fail, pages are left out. A \<^verbatim>\<open>throw\<close> of the socket
  has its meaning in the language, with the packet memory destroyed on the way out, although
  the library's build file switches exceptions off.

  \<^bold>\<open>Not modelled.\<close> Weak memory: the queues run under sequential consistency, which the
  acquire and release orders of the code are there to approximate. The hazard
  pointers are taken one call at a time. Console output, and with it
  \<^verbatim>\<open>run_socket_fallback\<close>, and the resource limit call of the socket's constructor have no effect
  on the state. Of the benchmark programs the times themselves are arguments, and so are the
  random draws and the number of iterations, which the benchmark library chooses; the
  benchmark under \<^verbatim>\<open>HAVE_LIBBPF\<close> only reports that it is skipped. The scripts and build files
  are not part of the program; what is left of the headers are declarations without a body,
  includes and comments.
\<close>

section \<open>From message text to the book\<close>

text \<open>
  C2. The pipeline from message text to book: generating the FIX text of any sequence of
  fewer than \<open>2 ^ 20\<close> orders with non-negative prices below \<open>2 ^ 31\<close>, parsing it and submitting the
  result to a fresh book computes what the abstract book computes from the orders
  themselves, levels and fills alike, and does not return exactly when the abstract run does
  not. From \<open>2 ^ 20\<close> orders on the pool can run out of slots.
\<close>

theorem pipeline_refines_abstract_book:
  assumes "\<forall>(i, q, p, sd) \<in> set os. p < 2 ^ 31" and "length os < 2 ^ 20"
  shows "case spec_run (map order_op os) (\<lambda>sd. []) of
      None \<Rightarrow> feed tsc (map order_msg os) (order_book_new sid d) = None
    | Some (fs, bk) \<Rightarrow> \<exists>ob. feed tsc (map order_msg os) (order_book_new sid d) = Some ob \<and>
        abs_book ob = bk \<and> reported_fills ob = fs"
  unfolding feed_generated [OF assms(1)]
  by (rule run_new_spec [OF submissions_order_op]) (simp only: length_map assms(2))

lemma pipeline_refines_abstract_book_witness:
  "\<exists>ob. feed (\<lambda>n. of_nat n) (map order_msg [(1, 100, 150000, Buy), (2, 70, 149900, Sell)])
      (order_book_new 1 (\<lambda>_. 0)) = Some ob \<and>
    abs_book ob Buy = [(150000, 30)] \<and> abs_book ob Sell = [] \<and> reported_fills ob = [(150000, 70)]"
  using pipeline_refines_abstract_book
    [of "[(1, 100, 150000, Buy), (2, 70, 149900, Sell)]" "\<lambda>n. of_nat n" 1 "\<lambda>_. 0"]
  by (auto simp: order_op_def spec_add_def)

text \<open>
  C9. Any FIX messages, not only generated ones: feeding messages made of arbitrary fields,
  in any order, repeated, missing or of unknown tags, to a fresh book computes the abstract
  run of the orders that the fields spell. A message of type D is a buy when the side is 1
  and a sell otherwise, at the decimal price in ten-thousandths, the last field of a tag
  counting; every other message is ignored. The values contain no delimiter, prices have at
  most fourteen bytes, quantities are digits, and there are fewer than \<open>2 ^ 20\<close> orders.
\<close>

theorem fields_refine_abstract_book:
  assumes "list_all (list_all field_ok) msgs" and "length (List.map_filter field_op msgs) < 2 ^ 20"
  shows "case spec_run (List.map_filter field_op msgs) (\<lambda>sd. []) of
      None \<Rightarrow> feed tsc (map encode msgs) (order_book_new sid d) = None
    | Some (fs, bk) \<Rightarrow> \<exists>ob. feed tsc (map encode msgs) (order_book_new sid d) = Some ob \<and>
        abs_book ob = bk \<and> reported_fills ob = fs"
  unfolding feed_fields [OF assms(1)] by (rule run_new_spec [OF submissions_field_op assms(2)])

lemma fields_refine_abstract_book_witness:
  "\<exists>ob. feed (\<lambda>n. of_nat n)
      (map encode [[(44, [49, 53, 46, 53]), (38, [55]), (54, [49]), (38, [49, 48, 48]), (35, [0x44])],
        [(35, [0x46]), (54, [50]), (44, [49]), (38, [57])],
        [(35, [0x44]), (999, [65]), (54, [50]), (44, [49, 53]), (38, [55, 48])]])
      (order_book_new 1 (\<lambda>_. 0)) = Some ob \<and>
    abs_book ob Buy = [(155000, 30)] \<and> abs_book ob Sell = [] \<and> reported_fills ob = [(155000, 70)]"
proof -
  let ?msgs = "[[(44, [49, 53, 46, 53]), (38, [55]), (54, [49]), (38, [49, 48, 48]), (35, [0x44])],
        [(35, [0x46]), (54, [50]), (44, [49]), (38, [57])],
        [(35, [0x44]), (999, [65]), (54, [50]), (44, [49, 53]), (38, [55, 48])]] :: (nat \<times> bytes) list list"
  have ok: "list_all (list_all field_ok) ?msgs" by code_simp
  have ops: "List.map_filter field_op ?msgs = [Add Buy 155000 100 Limit, Add Sell 150000 70 Limit]"
    by (simp add: field_op_def last_value_def List.map_filter_simps places_def is_digit_def)
  show ?thesis
    using fields_refine_abstract_book [OF ok, of "\<lambda>n. of_nat n" 1 "\<lambda>_. 0"]
    unfolding ops by (auto simp: spec_add_def)
qed

end
